(* ===== verification/Prelude.thy ===== *)
theory Prelude
  imports Main "HOL-Library.Word" "HOL-Library.Multiset"
begin

text \<open>
  Vocabulary shared by every component: machine-integer types, the faults a C program
  can run into as values of a sum type, reachable states of a step relation with the
  interface of an inductive invariant, and list and modular-arithmetic facts that several
  components use.
\<close>

unbundle bit_operations_syntax

section \<open>Machine integers\<close>

type_synonym byte = "8 word"
type_synonym u16 = "16 word"
type_synonym u32 = "32 word"
type_synonym u64 = "64 word"

section \<open>Fact collections\<close>

named_theorems step_simps \<open>one-step unfoldings of the operations of a component\<close>
named_theorems inv_intros \<open>facts that an operation keeps the invariant of its component\<close>
named_theorems ring_index \<open>facts on indices that wrap around in an array\<close>

section \<open>Faults of C code as values\<close>

text \<open>
  A run that C leaves undefined, or that the program ends by itself, is a value: a model
  function of result type \<open>'a cres\<close> returns \<open>Inl\<close> with what went wrong, or \<open>Inr\<close>
  with its result.
\<close>

datatype c_fault =
    OutOfBounds      \<comment> \<open>a read or write outside the object\<close>
  | NullDeref        \<comment> \<open>a null pointer is dereferenced\<close>
  | UseAfterFree     \<comment> \<open>a freed object is used\<close>
  | Uninitialised    \<comment> \<open>an object is read before it is written\<close>
  | AssertFailed     \<comment> \<open>an \<open>assert\<close> of the program fails\<close>
  | ConvOverflow     \<comment> \<open>a float-to-integer conversion out of range\<close>

type_synonym 'a cres = "c_fault + 'a"

definition bindE :: "'e + 'a \<Rightarrow> ('a \<Rightarrow> 'e + 'b) \<Rightarrow> 'e + 'b" where
  "bindE m f = (case m of Inl e \<Rightarrow> Inl e | Inr x \<Rightarrow> f x)"

lemma bindE_simps [simp]:
  "bindE (Inl e) f = Inl e"
  "bindE (Inr x) f = f x"
  by (simp_all add: bindE_def)

lemma bindE_eq_Inr_iff: "bindE m f = Inr y \<longleftrightarrow> (\<exists>x. m = Inr x \<and> f x = Inr y)"
  by (cases m) auto

lemma bindE_eq_Inl_iff:
  "bindE m f = Inl e \<longleftrightarrow> m = Inl e \<or> (\<exists>x. m = Inr x \<and> f x = Inl e)"
  by (cases m) auto

lemma bindE_cong [fundef_cong]:
  "m = m' \<Longrightarrow> (\<And>x. m' = Inr x \<Longrightarrow> f x = g x) \<Longrightarrow> bindE m f = bindE m' g"
  by (cases m') auto

section \<open>Runs that may not end\<close>

type_synonym 'a run = "'a cres option"

definition bindR :: "'a run \<Rightarrow> ('a \<Rightarrow> 'b run) \<Rightarrow> 'b run" where
  "bindR m f = (case m of None \<Rightarrow> None | Some (Inl e) \<Rightarrow> Some (Inl e) | Some (Inr x) \<Rightarrow> f x)"

lemma bindR_simps [simp]:
  "bindR None f = None"
  "bindR (Some (Inl e)) f = Some (Inl e)"
  "bindR (Some (Inr x)) f = f x"
  by (simp_all add: bindR_def)

lemma bindR_assoc: "bindR (bindR m f) g = bindR m (\<lambda>x. bindR (f x) g)"
  by (auto simp: bindR_def split: option.split sum.split)

lemma bindR_cong [fundef_cong]:
  "m = m' \<Longrightarrow> (\<And>x. m' = Some (Inr x) \<Longrightarrow> f x = g x) \<Longrightarrow> bindR m f = bindR m' g"
  by (auto simp: bindR_def split: option.split sum.split)

section \<open>Tallies\<close>

text \<open>
  The interface of a map that accumulates weights per key: \<open>bump m x\<close> adds the weight of the
  record \<open>x\<close> to what the map \<open>m\<close> holds for its key. It must return whenever the map can still
  take the records \<open>xs\<close> that begin with \<open>x\<close>, written \<open>fits m xs\<close>. The word counter and the two
  maps of the log statistics are its instances.
\<close>

definition tally_of :: "('x \<Rightarrow> 'k) \<Rightarrow> ('x \<Rightarrow> 'v) \<Rightarrow> 'x list \<Rightarrow> 'k \<Rightarrow> 'v::monoid_add option" where
  "tally_of key wt xs k =
     (if k \<in> set (map key xs) then Some (sum_list (map wt (filter (\<lambda>x. key x = k) xs))) else None)"

fun bump_all :: "('m \<Rightarrow> 'x \<Rightarrow> 'm run) \<Rightarrow> 'm \<Rightarrow> 'x list \<Rightarrow> 'm run" where
  "bump_all bump m [] = Some (Inr m)"
| "bump_all bump m (x # xs) = bindR (bump m x) (\<lambda>m. bump_all bump m xs)"

lemma tally_of_mset:
  fixes wt :: "'x \<Rightarrow> 'v::comm_monoid_add"
  assumes "mset xs = mset ys"
  shows "tally_of key wt xs = tally_of key wt ys"
proof
  fix k
  have "mset (map wt (filter (\<lambda>x. key x = k) xs)) = mset (map wt (filter (\<lambda>x. key x = k) ys))"
    using assms by simp
  from arg_cong [OF this, of sum_mset]
  have "sum_list (map wt (filter (\<lambda>x. key x = k) xs)) = sum_list (map wt (filter (\<lambda>x. key x = k) ys))"
    by (simp only: sum_mset_sum_list)
  then show "tally_of key wt xs k = tally_of key wt ys k"
    using mset_eq_setD [OF assms] by (simp add: tally_of_def)
qed

lemma tally_count: "tally_of (\<lambda>w. w) (\<lambda>_. 1 :: 'v::comm_semiring_1) ws w =
    (if w \<in> set ws then Some (of_nat (count_list ws w)) else None)"
proof -
  have "sum_list (map (\<lambda>_. 1 :: 'v) (filter (\<lambda>x. x = w) ws)) = of_nat (count_list ws w)"
    by (induction ws) (auto simp: add.commute)
  then show ?thesis by (simp add: tally_of_def)
qed

lemma bump_all_append:
  "bump_all bump m (xs @ ys) = bindR (bump_all bump m xs) (\<lambda>m. bump_all bump m ys)"
  by (induction xs arbitrary: m) (simp_all add: bindR_assoc)

locale tally =
  fixes ok :: "'m \<Rightarrow> bool" and fits :: "'m \<Rightarrow> 'x list \<Rightarrow> bool"
    and bump :: "'m \<Rightarrow> 'x \<Rightarrow> 'm run" and look :: "'m \<Rightarrow> 'k \<Rightarrow> 'v::comm_monoid_add option"
    and key :: "'x \<Rightarrow> 'k" and wt :: "'x \<Rightarrow> 'v"
  assumes bump_ok: "ok m \<Longrightarrow> fits m (x # xs) \<Longrightarrow>
    \<exists>m'. bump m x = Some (Inr m') \<and> ok m' \<and> fits m' xs \<and>
      look m' = (look m)(key x \<mapsto> (case look m (key x) of None \<Rightarrow> wt x | Some v \<Rightarrow> v + wt x))"
begin

lemma bump_all_ok:
  assumes "ok m" and "fits m xs"
  shows "\<exists>m'. bump_all bump m xs = Some (Inr m') \<and> ok m' \<and>
    (\<forall>k. look m' k = (case tally_of key wt xs k of None \<Rightarrow> look m k
       | Some w \<Rightarrow> Some (case look m k of None \<Rightarrow> w | Some v \<Rightarrow> v + w)))"
  using assms
proof (induction xs arbitrary: m)
  case Nil
  then show ?case by (simp add: tally_of_def)
next
  case (Cons x xs)
  obtain m1 where m1: "bump m x = Some (Inr m1)" "ok m1" "fits m1 xs"
      "look m1 = (look m)(key x \<mapsto> (case look m (key x) of None \<Rightarrow> wt x | Some v \<Rightarrow> v + wt x))"
    using bump_ok [OF Cons.prems] by auto
  obtain m2 where m2: "bump_all bump m1 xs = Some (Inr m2)" "ok m2"
      "\<forall>k. look m2 k = (case tally_of key wt xs k of None \<Rightarrow> look m1 k
         | Some w \<Rightarrow> Some (case look m1 k of None \<Rightarrow> w | Some v \<Rightarrow> v + w))"
    using Cons.IH [OF m1(2,3)] by auto
  have "look m2 k = (case tally_of key wt (x # xs) k of None \<Rightarrow> look m k
       | Some w \<Rightarrow> Some (case look m k of None \<Rightarrow> w | Some v \<Rightarrow> v + w))" for k
  proof (cases "k \<in> key ` set xs")
    case True
    then show ?thesis using m2(3) m1(4)
      by (cases "key x = k"; cases "look m k") (auto simp: tally_of_def add.assoc)
  next
    case False
    then have "filter (\<lambda>x. key x = k) xs = []" by (auto simp: filter_empty_conv)
    then show ?thesis using False m2(3) m1(4) by (cases "look m k") (auto simp: tally_of_def)
  qed
  then show ?case using m1 m2 by auto
qed

lemma tally_from_empty:
  assumes "ok m" and "fits m xs" and "look m = Map.empty"
  shows "\<exists>m'. bump_all bump m xs = Some (Inr m') \<and> ok m' \<and> look m' = tally_of key wt xs"
  using bump_all_ok [OF assms(1,2)] assms(3) by (auto simp: fun_eq_iff split: option.split)

end

section \<open>Reachable states and inductive invariants\<close>

inductive reach :: "('s \<Rightarrow> bool) \<Rightarrow> ('s \<Rightarrow> 's \<Rightarrow> bool) \<Rightarrow> 's \<Rightarrow> bool" for I R where
  reach_init: "I s \<Longrightarrow> reach I R s"
| reach_step: "reach I R s \<Longrightarrow> R s t \<Longrightarrow> reach I R t"

lemma reach_mono: "reach I R s \<Longrightarrow> (\<And>s. I s \<Longrightarrow> J s) \<Longrightarrow> reach J R s"
  by (induction rule: reach.induct) (auto intro: reach.intros)

text \<open>
  The interface every state machine of the development is an instance of: its initial
  states, its steps, and an invariant that the first establish and the second keep.
\<close>

locale invariant_system =
  fixes init :: "'s \<Rightarrow> bool"
    and step :: "'s \<Rightarrow> 's \<Rightarrow> bool"
    and inv :: "'s \<Rightarrow> bool"
  assumes init_inv: "init s \<Longrightarrow> inv s"
    and step_inv: "inv s \<Longrightarrow> step s t \<Longrightarrow> inv t"
begin

lemma reach_inv: "reach init step s \<Longrightarrow> inv s"
  by (induction rule: reach.induct) (auto intro: init_inv step_inv)

lemma reach_induct_strong:
  assumes "reach init step s"
    and "\<And>s. init s \<Longrightarrow> P s"
    and "\<And>s t. inv s \<Longrightarrow> P s \<Longrightarrow> step s t \<Longrightarrow> P t"
  shows "P s"
  using assms(1) by (induction rule: reach.induct) (auto intro: assms(2,3) reach_inv)

end

section \<open>Lists\<close>

text \<open>The sum of a list after one of its elements is replaced.\<close>

lemma sum_list_swap:
  fixes g :: "'b \<Rightarrow> 'a::comm_monoid_add"
  shows "i < length xs \<Longrightarrow>
    sum_list (map g (xs[i := x])) + g (xs ! i) = sum_list (map g xs) + g x"
proof (induction xs arbitrary: i)
  case (Cons y ys)
  then show ?case by (cases i) (simp_all add: ac_simps)
qed simp

text \<open>The last \<open>n\<close> elements of a list (all of it when it is shorter).\<close>

definition lastn :: "nat \<Rightarrow> 'a list \<Rightarrow> 'a list" where
  "lastn n xs = drop (length xs - n) xs"

lemma length_lastn [simp]: "length (lastn n xs) = min n (length xs)"
  by (simp add: lastn_def)

lemma lastn_all [simp]: "length xs \<le> n \<Longrightarrow> lastn n xs = xs"
  by (simp add: lastn_def)

lemma lastn_eq_Nil_iff [simp]: "lastn n xs = [] \<longleftrightarrow> n = 0 \<or> xs = []"
  by (cases xs) (auto simp: lastn_def)

lemma lastn_append_long: "n \<le> length ys \<Longrightarrow> lastn n (xs @ ys) = lastn n ys"
  by (simp add: lastn_def)

lemma lastn_lastn_append: "lastn n (lastn n xs @ ys) = lastn n (xs @ ys)"
  by (cases "length xs \<le> n") (simp_all add: lastn_def add.commute)

text \<open>\<open>memcpy\<close> of \<open>ys\<close> into \<open>xs\<close> at offset \<open>p\<close>, where it fits.\<close>

definition blit :: "'a list \<Rightarrow> nat \<Rightarrow> 'a list \<Rightarrow> 'a list" where
  "blit xs p ys = take p xs @ ys @ drop (p + length ys) xs"

lemma length_blit [simp]: "p + length ys \<le> length xs \<Longrightarrow> length (blit xs p ys) = length xs"
  by (simp add: blit_def)

lemma nth_blit:
  "p + length ys \<le> length xs \<Longrightarrow> i < length xs \<Longrightarrow>
   blit xs p ys ! i = (if p \<le> i \<and> i < p + length ys then ys ! (i - p) else xs ! i)"
  by (auto simp: blit_def nth_append add.commute)

section \<open>Indices that wrap around\<close>

lemma mod_shift_inj [ring_index]:
  fixes i j r s :: nat
  assumes "i < s" and "j < s"
  shows "(r + i) mod s = (r + j) mod s \<longleftrightarrow> i = j"
proof
  assume eq: "(r + i) mod s = (r + j) mod s"
  show "i = j"
  proof (cases "i \<le> j")
    case True
    with eq have "s dvd (r + j) - (r + i)"
      by (metis add_left_mono mod_eq_dvd_iff_nat)
    with True assms show ?thesis
      by (auto dest: dvd_imp_le)
  next
    case False
    with eq have "s dvd (r + i) - (r + j)"
      by (metis add_left_mono mod_eq_dvd_iff_nat nat_le_linear)
    with False assms show ?thesis
      by (auto dest: dvd_imp_le)
  qed
qed simp

lemma mod_shift_surj [ring_index]:
  fixes k r s :: nat
  assumes "k < s"
  shows "\<exists>d < s. (r + d) mod s = k"
proof -
  have "(r + (k + s - r mod s) mod s) mod s = (r mod s + (k + s - r mod s)) mod s"
    by (simp add: mod_add_left_eq mod_add_right_eq)
  also have "r mod s + (k + s - r mod s) = k + s"
    using assms by (simp add: less_imp_le_nat trans_le_add2)
  finally have "(r + (k + s - r mod s) mod s) mod s = k"
    using assms by simp
  moreover have "(k + s - r mod s) mod s < s"
    using assms by simp
  ultimately show ?thesis by blast
qed

lemma mod_advance [ring_index]:
  fixes c n r s :: nat
  assumes "n \<le> c"
  shows "((r + n) mod s + c - n) mod s = (r + c) mod s"
proof -
  have "((r + n) mod s + (c - n)) mod s = ((r + n) + (c - n)) mod s"
    by (rule mod_add_left_eq)
  then show ?thesis using assms by simp
qed

lemma mod_wrap_step [ring_index]:
  fixes i n :: nat
  assumes "i < n"
  shows "(if n \<le> i + 1 then 0 else i + 1) = (i + 1) mod n"
  using assms by (auto simp: le_Suc_eq mod_if)

end
