(* ===== verification/Ringbuf.thy ===== *)
theory Ringbuf
  imports Prelude
begin

text \<open>
  The character-device driver of 27_driver/ringbuf_driver.c: a ring buffer that overwrites
  its oldest bytes, the file operations on it, its resizing through the module parameter
  and the loading and unloading of the module.

  The kernel's own functions are parameters: \<open>copy_from_user\<close> and \<open>copy_to_user\<close> (a
  \<open>copy_fn\<close>), \<open>kmalloc\<close>, \<open>kstrtoint\<close>, and whether \<open>mutex_lock_interruptible\<close> is
  interrupted. Every function that touches the buffer holds \<open>rb_mutex\<close>, so an operation is
  one atomic step. The fields of type \<open>size_t\<close> are \<open>nat\<close>: in every reachable state they are
  at most 65536 (\<open>rb_inv\<close>), so no sum of them wraps and no difference is negative.
\<close>

section \<open>State\<close>

record ring_buffer =
  rb_data :: "byte list option"   \<comment> \<open>the memory \<open>data\<close> points to; \<open>None\<close> is the null pointer\<close>
  rb_size :: nat
  rb_count :: nat
  rb_read_pos :: nat
  rb_write_pos :: nat

text \<open>
  A copy between user and kernel memory: from the offset in the user buffer and the bytes to
  be copied to the number of bytes that could not be copied and what the destination then
  holds.
\<close>

type_synonym copy_fn = "nat \<Rightarrow> byte list \<Rightarrow> nat \<times> byte list"

text \<open>
  What the kernel documents of these functions: the destination is as long as the source, and
  when nothing is left uncopied it holds the source.
\<close>

definition copy_ok :: "copy_fn \<Rightarrow> bool" where
  "copy_ok cp \<longleftrightarrow> (\<forall>off src. length (snd (cp off src)) = length src \<and>
     (fst (cp off src) = 0 \<longrightarrow> snd (cp off src) = src))"

text \<open>A copy that never faults.\<close>

definition copy_total :: copy_fn where
  "copy_total off src = (0, src)"

lemma copy_total_ok [simp]: "copy_ok copy_total"
  by (simp add: copy_ok_def copy_total_def)

section \<open>The ring buffer\<close>

definition ringbuf_empty :: "ring_buffer \<Rightarrow> bool" where
  "ringbuf_empty rb \<longleftrightarrow> rb_count rb = 0"

definition ringbuf_full :: "ring_buffer \<Rightarrow> bool" where
  "ringbuf_full rb \<longleftrightarrow> rb_count rb = rb_size rb"

definition ringbuf_space :: "ring_buffer \<Rightarrow> nat" where
  "ringbuf_space rb = rb_size rb - rb_count rb"

text \<open>The part of \<open>ringbuf_write\<close> that makes room by dropping the oldest bytes.\<close>

definition make_room :: "nat \<Rightarrow> ring_buffer \<Rightarrow> ring_buffer" where
  "make_room len rb =
     (if len > ringbuf_space rb
      then let excess = len - ringbuf_space rb
           in rb\<lparr>rb_read_pos := (rb_read_pos rb + excess) mod rb_size rb,
                 rb_count := rb_count rb - excess\<rparr>
      else rb)"

text \<open>The part that copies the user's bytes to the write position, in one or two pieces.\<close>

definition copy_in :: "copy_fn \<Rightarrow> nat \<Rightarrow> byte list \<Rightarrow> byte list \<Rightarrow> ring_buffer \<Rightarrow> nat \<times> ring_buffer" where
  "copy_in cfu off ubuf d rb =
     (let len = length ubuf;
          to_write = min len (rb_size rb - rb_write_pos rb);
          (left1, bs1) = cfu off (take to_write ubuf);
          d = blit d (rb_write_pos rb) bs1
      in if left1 \<noteq> 0 then (0, rb\<lparr>rb_data := Some d\<rparr>)
         else
           let part2 = len - to_write;
               (left2, bs2) = (if part2 \<noteq> 0 then cfu (off + to_write) (drop to_write ubuf)
                               else (0, []));
               d = (if part2 \<noteq> 0 then blit d 0 bs2 else d)
           in if part2 \<noteq> 0 \<and> left2 \<noteq> 0 then (0, rb\<lparr>rb_data := Some d\<rparr>)
              else (len, rb\<lparr>rb_data := Some d,
                            rb_write_pos := (rb_write_pos rb + len) mod rb_size rb,
                            rb_count := rb_count rb + len\<rparr>))"

definition ringbuf_write :: "copy_fn \<Rightarrow> byte list \<Rightarrow> ring_buffer \<Rightarrow> nat \<times> ring_buffer" where
  "ringbuf_write cfu buf rb =
     (case rb_data rb of None \<Rightarrow> (0, rb)
      | Some d \<Rightarrow>
        if length buf = 0 then (0, rb)
        else
          let skip = (if length buf > rb_size rb then length buf - rb_size rb else 0);
              ubuf = drop skip buf
          in copy_in cfu skip ubuf d (make_room (length ubuf) rb))"

text \<open>The bytes the user buffer receives are returned with the count.\<close>

definition ringbuf_peek :: "copy_fn \<Rightarrow> nat \<Rightarrow> ring_buffer \<Rightarrow> nat \<times> byte list" where
  "ringbuf_peek ctu len rb =
     (case rb_data rb of None \<Rightarrow> (0, [])
      | Some d \<Rightarrow>
        if ringbuf_empty rb then (0, [])
        else
          let avail = min len (rb_count rb)
          in if avail = 0 then (0, [])
             else
               let part1 = min avail (rb_size rb - rb_read_pos rb);
                   (left1, bs1) = ctu 0 (take part1 (drop (rb_read_pos rb) d))
               in if left1 \<noteq> 0 then (0, bs1)
                  else
                    let part2 = avail - part1;
                        (left2, bs2) = (if part2 \<noteq> 0 then ctu part1 (take part2 d) else (0, []))
                    in if part2 \<noteq> 0 \<and> left2 \<noteq> 0 then (0, bs1 @ bs2)
                       else (avail, bs1 @ bs2))"

definition ringbuf_discard :: "nat \<Rightarrow> ring_buffer \<Rightarrow> ring_buffer" where
  "ringbuf_discard len rb =
     (if rb_data rb = None \<or> len > rb_count rb then rb
      else rb\<lparr>rb_read_pos := (rb_read_pos rb + len) mod rb_size rb,
              rb_count := rb_count rb - len\<rparr>)"

section \<open>The driver\<close>

record driver =
  drv_rb :: ring_buffer
  drv_param_buf_size :: int
  drv_f_pos :: u64         \<comment> \<open>the position of the open file, a 64-bit \<open>loff_t\<close>\<close>
  drv_buffers :: nat       \<comment> \<open>buffers obtained from \<open>kmalloc\<close> and not freed yet\<close>

definition EINTR_RESTART :: int where "EINTR_RESTART = - 512"
definition EINVAL :: int where "EINVAL = 22"
definition ENOMEM :: int where "ENOMEM = 12"

definition dev_open :: "driver \<Rightarrow> int" where
  "dev_open s = (if rb_data (drv_rb s) = None then - ENOMEM else 0)"

definition dev_read :: "bool \<Rightarrow> copy_fn \<Rightarrow> nat \<Rightarrow> driver \<Rightarrow> int \<times> byte list \<times> driver" where
  "dev_read intr ctu len s =
     (if intr then (EINTR_RESTART, [], s)
      else
        let (ret, bs) = ringbuf_peek ctu len (drv_rb s)
        in if ret > 0
           then (int ret, bs, s\<lparr>drv_rb := ringbuf_discard ret (drv_rb s),
                                drv_f_pos := drv_f_pos s + of_nat ret\<rparr>)
           else (int ret, bs, s))"

definition dev_write :: "bool \<Rightarrow> copy_fn \<Rightarrow> byte list \<Rightarrow> driver \<Rightarrow> int \<times> driver" where
  "dev_write intr cfu buf s =
     (if intr then (EINTR_RESTART, s)
      else let (written, rb) = ringbuf_write cfu buf (drv_rb s)
           in (int written, s\<lparr>drv_rb := rb\<rparr>))"

datatype whence = SEEK_SET | SEEK_CUR | SEEK_END | SEEK_OTHER

text \<open>
  Positions are 64-bit words: \<open>loff_t\<close> sums wrap (the kernel is built so that signed overflow
  wraps), and the sign is read with \<open>sint\<close>.
\<close>

definition dev_llseek :: "bool \<Rightarrow> u64 \<Rightarrow> whence \<Rightarrow> driver \<Rightarrow> int \<times> driver" where
  "dev_llseek intr off wh s =
     (if intr then (EINTR_RESTART, s)
      else
        let cnt = of_nat (rb_count (drv_rb s)) :: u64;
            target = (case wh of SEEK_SET \<Rightarrow> Some off
                      | SEEK_CUR \<Rightarrow> Some (drv_f_pos s + off)
                      | SEEK_END \<Rightarrow> Some (cnt + off)
                      | SEEK_OTHER \<Rightarrow> None)
        in case target of None \<Rightarrow> (- EINVAL, s)
           | Some newpos \<Rightarrow>
             if sint newpos < 0 then (- EINVAL, s)
             else let newpos = (if newpos > cnt then cnt else newpos)
                  in (sint newpos, s\<lparr>drv_f_pos := newpos\<rparr>))"

text \<open>
  Resizing through sysfs. \<open>kstrtoint\<close> gives an error code or the number; \<open>kmalloc\<close> gives
  the (uninitialised) bytes of the new buffer or \<open>None\<close>.
\<close>

definition buf_size_set ::
  "(string \<Rightarrow> int + int) \<Rightarrow> (nat \<Rightarrow> byte list option) \<Rightarrow> bool \<Rightarrow> string \<Rightarrow> driver \<Rightarrow> int \<times> driver" where
  "buf_size_set kstrtoint kmalloc intr val s =
     (case kstrtoint val of
        Inl ret \<Rightarrow> (ret, s)
      | Inr new_size \<Rightarrow>
        if new_size < 16 \<or> new_size > 65536 then (- EINVAL, s)
        else if intr then (EINTR_RESTART, s)
        else
          let rb = drv_rb s;
              bufs = (if rb_data rb \<noteq> None then drv_buffers s - 1 else drv_buffers s)
          in case kmalloc (nat new_size) of
               None \<Rightarrow> (- ENOMEM, s\<lparr>drv_rb := rb\<lparr>rb_data := None\<rparr>, drv_buffers := bufs\<rparr>)
             | Some d \<Rightarrow>
               (0, s\<lparr>drv_rb := \<lparr>rb_data = Some d, rb_size = nat new_size, rb_count = 0,
                                rb_read_pos = 0, rb_write_pos = 0\<rparr>,
                     drv_param_buf_size := new_size,
                     drv_buffers := Suc bufs\<rparr>))"


section \<open>Loading and unloading the module\<close>

datatype resource = ChrdevRegion | Cdev | DevClass | Device

text \<open>
  The module before \<open>ringbuf_init\<close>: the static initialiser of \<open>rb\<close> and of
  \<open>param_buf_size\<close>.
\<close>

definition driver_static :: driver where
  "driver_static = \<lparr>drv_rb = \<lparr>rb_data = None, rb_size = 16, rb_count = 0,
                              rb_read_pos = 0, rb_write_pos = 0\<rparr>,
                    drv_param_buf_size = 16, drv_f_pos = 0, drv_buffers = 0\<rparr>"

text \<open>
  Results of the registration calls: an error code below zero, or success. The resources held
  are a list, most recent first; each error label releases what was acquired before it, in
  reverse order. \<open>kfree(rb.data)\<close> on the error path leaves the pointer as it is.
\<close>

definition free_buf :: "driver \<Rightarrow> driver" where
  "free_buf s = s\<lparr>drv_buffers := drv_buffers s - 1\<rparr>"

definition ringbuf_init ::
  "(nat \<Rightarrow> byte list option) \<Rightarrow> int \<Rightarrow> int \<Rightarrow> int \<Rightarrow> int \<Rightarrow> driver \<Rightarrow>
   int \<times> resource list \<times> driver" where
  "ringbuf_init kmalloc r_region r_cdev r_class r_device s =
     (case kmalloc (rb_size (drv_rb s)) of
        None \<Rightarrow> (- ENOMEM, [], s\<lparr>drv_rb := (drv_rb s)\<lparr>rb_data := None\<rparr>\<rparr>)
      | Some d \<Rightarrow>
        let s = s\<lparr>drv_rb := (drv_rb s)\<lparr>rb_data := Some d, rb_count := 0, rb_read_pos := 0,
                                        rb_write_pos := 0\<rparr>,
                  drv_buffers := Suc (drv_buffers s)\<rparr>;
            err_buf = (\<lambda>ret held. (ret, held, free_buf s));
            err_region = (\<lambda>ret held. err_buf ret (remove1 ChrdevRegion held));
            err_cdev = (\<lambda>ret held. err_region ret (remove1 Cdev held));
            err_class = (\<lambda>ret held. err_cdev ret (remove1 DevClass held))
        in if r_region < 0 then err_buf r_region []
           else if r_cdev < 0 then err_region r_cdev [ChrdevRegion]
           else if r_class < 0 then err_cdev r_class [Cdev, ChrdevRegion]
           else if r_device < 0 then err_class r_device [DevClass, Cdev, ChrdevRegion]
           else (0, [Device, DevClass, Cdev, ChrdevRegion], s))"

definition ringbuf_exit :: "resource list \<Rightarrow> driver \<Rightarrow> resource list \<times> driver" where
  "ringbuf_exit held s =
     (remove1 ChrdevRegion (remove1 Cdev (remove1 DevClass (remove1 Device held))),
      if rb_data (drv_rb s) \<noteq> None then free_buf s else s)"

section \<open>Invariant and abstraction\<close>

text \<open>The invariant of the buffer: the write position is where the stored bytes end.\<close>

definition rb_inv :: "ring_buffer \<Rightarrow> bool" where
  "rb_inv rb \<longleftrightarrow> 16 \<le> rb_size rb \<and> rb_size rb \<le> 65536 \<and> rb_count rb \<le> rb_size rb \<and>
     rb_read_pos rb < rb_size rb \<and>
     rb_write_pos rb = (rb_read_pos rb + rb_count rb) mod rb_size rb \<and>
     (\<forall>d. rb_data rb = Some d \<longrightarrow> length d = rb_size rb)"

text \<open>What the buffer stores, oldest byte first.\<close>

definition contents :: "ring_buffer \<Rightarrow> byte list" where
  "contents rb =
     (case rb_data rb of None \<Rightarrow> []
      | Some d \<Rightarrow> map (\<lambda>i. d ! ((rb_read_pos rb + i) mod rb_size rb)) [0..<rb_count rb])"

lemma rb_invE:
  assumes "rb_inv rb"
  obtains "0 < rb_size rb" "rb_count rb \<le> rb_size rb" "rb_read_pos rb < rb_size rb"
    "rb_write_pos rb < rb_size rb"
    "rb_write_pos rb = (rb_read_pos rb + rb_count rb) mod rb_size rb"
  using assms by (auto simp: rb_inv_def)

lemma rb_inv_data: "rb_inv rb \<Longrightarrow> rb_data rb = Some d \<Longrightarrow> length d = rb_size rb"
  by (simp add: rb_inv_def)

lemma length_contents [simp]:
  "rb_data rb = Some d \<Longrightarrow> length (contents rb) = rb_count rb"
  by (simp add: contents_def)

lemma contents_nth:
  "rb_data rb = Some d \<Longrightarrow> i < rb_count rb \<Longrightarrow>
   contents rb ! i = d ! ((rb_read_pos rb + i) mod rb_size rb)"
  by (simp add: contents_def)

lemma contents_None [simp]: "rb_data rb = None \<Longrightarrow> contents rb = []"
  by (simp add: contents_def)

section \<open>Writing\<close>

text \<open>The two copies of \<open>ringbuf_write\<close> store byte \<open>j\<close> at \<open>j\<close> places after the write position.\<close>

lemma nth_two_blits:
  assumes "length d = s" and "w < s" and "length us \<le> s" and "k < s"
    and t: "t = min (length us) (s - w)"
  shows "blit (blit d w (take t us)) 0 (drop t us) ! k =
    (if k < length us - t then us ! (t + k)
     else if w \<le> k \<and> k < w + t then us ! (k - w) else d ! k)"
proof -
  have tu: "t \<le> length us" "w + t \<le> s" using t assms by auto
  have "blit (blit d w (take t us)) 0 (drop t us) ! k
      = (if k < length us - t then us ! (t + k) else blit d w (take t us) ! k)"
    using assms(1-4) tu by (subst nth_blit) auto
  moreover have "blit d w (take t us) ! k = (if w \<le> k \<and> k < w + t then us ! (k - w) else d ! k)"
    using assms(1-4) tu by (subst nth_blit) auto
  ultimately show ?thesis by simp
qed

lemma length_two_blits:
  assumes "length d = s" and "w < s" and "length us \<le> s" and "t = min (length us) (s - w)"
  shows "length (blit (blit d w (take t us)) 0 (drop t us)) = s"
  using assms by simp

lemma two_blits_written:
  assumes "length d = s" and "w < s" and "length us \<le> s" and "j < length us"
    and t: "t = min (length us) (s - w)"
  shows "blit (blit d w (take t us)) 0 (drop t us) ! ((w + j) mod s) = us ! j"
proof (cases "j < s - w")
  case True
  then have "(w + j) mod s = w + j" by simp
  with True assms show ?thesis
    by (subst nth_two_blits [OF assms(1-3) _ t]) auto
next
  case False
  then have "(w + j) mod s = w + j - s" and "w + j - s < s"
    using assms by (auto simp: mod_if)
  with False assms show ?thesis
    by (subst nth_two_blits [OF assms(1-3) _ t]) auto
qed

lemma two_blits_kept:
  assumes "length d = s" and "w < s" and "length us \<le> s" and "k < s"
    and other: "\<And>j. j < length us \<Longrightarrow> k \<noteq> (w + j) mod s"
    and t: "t = min (length us) (s - w)"
  shows "blit (blit d w (take t us)) 0 (drop t us) ! k = d ! k"
proof -
  have "\<not> k < length us - t"
  proof
    assume "k < length us - t"
    then have "t = s - w" "s - w + k < length us" using t assms by auto
    then have "k \<noteq> (w + (s - w + k)) mod s" using other by blast
    then show False using assms by simp
  qed
  moreover have "\<not> (w \<le> k \<and> k < w + t)"
  proof
    assume k: "w \<le> k \<and> k < w + t"
    then have "k - w < length us" using t by auto
    then have "k \<noteq> (w + (k - w)) mod s" using other by blast
    then show False using k assms by simp
  qed
  ultimately show ?thesis
    by (subst nth_two_blits [OF assms(1-4) t]) auto
qed

text \<open>Making room drops the oldest bytes and leaves the memory alone.\<close>

lemma make_room_simps [simp]:
  "rb_size (make_room n rb) = rb_size rb"
  "rb_data (make_room n rb) = rb_data rb"
  "rb_write_pos (make_room n rb) = rb_write_pos rb"
  by (simp_all add: make_room_def Let_def)

lemma make_room_inv [inv_intros]:
  assumes "rb_inv rb" and "n \<le> rb_size rb"
  shows "rb_inv (make_room n rb)"
proof (cases "n > ringbuf_space rb")
  case False
  then show ?thesis using assms by (simp add: make_room_def)
next
  case True
  define e where "e = n - ringbuf_space rb"
  have e: "e \<le> rb_count rb"
    using assms True by (auto simp: e_def ringbuf_space_def rb_inv_def)
  then show ?thesis
    using assms True e by (auto simp: make_room_def Let_def rb_inv_def mod_advance simp flip: e_def)
qed

lemma make_room_count:
  assumes "rb_inv rb" and "n \<le> rb_size rb"
  shows "rb_count (make_room n rb) + n \<le> rb_size rb"
    and "rb_count (make_room n rb) = min (rb_count rb) (rb_size rb - n)"
  using assms by (auto simp: make_room_def Let_def ringbuf_space_def rb_inv_def)

lemma make_room_contents:
  assumes inv: "rb_inv rb" and n: "n \<le> rb_size rb" and d: "rb_data rb = Some d"
  shows "contents (make_room n rb) = lastn (rb_size rb - n) (contents rb)"
proof (rule nth_equalityI)
  show "length (contents (make_room n rb)) = length (lastn (rb_size rb - n) (contents rb))"
    using d make_room_count(2) [OF inv n] by simp
next
  fix i assume i: "i < length (contents (make_room n rb))"
  define e where "e = rb_count rb - (rb_size rb - n)"
  have rp: "rb_read_pos (make_room n rb) = (rb_read_pos rb + e) mod rb_size rb"
    using inv n
    by (auto simp: make_room_def Let_def ringbuf_space_def e_def rb_inv_def ac_simps)
  have "contents (make_room n rb) ! i = d ! ((rb_read_pos rb + (e + i)) mod rb_size rb)"
    using i d by (simp add: contents_nth rp mod_add_left_eq add.assoc)
  also have "\<dots> = contents rb ! (e + i)"
    using i d make_room_count(2) [OF inv n] by (subst contents_nth) (auto simp: e_def)
  also have "\<dots> = lastn (rb_size rb - n) (contents rb) ! i"
    using i d make_room_count(2) [OF inv n] by (simp add: lastn_def e_def)
  finally show "contents (make_room n rb) ! i = lastn (rb_size rb - n) (contents rb) ! i" .
qed

text \<open>Storing bytes in the free part of the buffer appends them to what it stores.\<close>

lemma store_contents:
  fixes rb us
  defines "s \<equiv> rb_size rb" and "w \<equiv> rb_write_pos rb" and "t \<equiv> min (length us) (rb_size rb - rb_write_pos rb)"
  assumes inv: "rb_inv rb" and d: "rb_data rb = Some d" and fit: "rb_count rb + length us \<le> s"
  defines "d' \<equiv> blit (blit d w (take t us)) 0 (drop t us)"
  shows "contents (rb\<lparr>rb_data := Some d', rb_write_pos := (w + length us) mod s,
                      rb_count := rb_count rb + length us\<rparr>) = contents rb @ us"
    (is "contents ?rb' = _")
proof (rule nth_equalityI)
  show "length (contents ?rb') = length (contents rb @ us)"
    using d by (simp add: contents_def)
next
  fix i assume "i < length (contents ?rb')"
  then have i: "i < rb_count rb + length us" by (simp add: contents_def)
  from inv have s: "0 < s" and ws: "w < s" and wp: "w = (rb_read_pos rb + rb_count rb) mod s"
    by (auto simp: s_def w_def rb_inv_def)
  have ld: "length d = s" using rb_inv_data [OF inv d] by (simp add: s_def)
  have lus: "length us \<le> s" using fit by simp
  have ti: "t = min (length us) (s - w)" by (simp add: t_def s_def w_def)
  have here: "contents ?rb' ! i = d' ! ((rb_read_pos rb + i) mod s)"
    using i by (simp add: contents_def s_def)
  show "contents ?rb' ! i = (contents rb @ us) ! i"
  proof (cases "i < rb_count rb")
    case True
    have "(rb_read_pos rb + i) mod s \<noteq> (w + j) mod s" if "j < length us" for j
    proof -
      have "(w + j) mod s = (rb_read_pos rb + (rb_count rb + j)) mod s"
        by (simp add: wp mod_add_left_eq add.assoc)
      then show ?thesis
        using that True fit by (simp add: mod_shift_inj)
    qed
    then have "d' ! ((rb_read_pos rb + i) mod s) = d ! ((rb_read_pos rb + i) mod s)"
      unfolding d'_def using s by (intro two_blits_kept [OF ld ws lus _ _ ti]) auto
    then show ?thesis using True d here by (simp add: nth_append contents_nth s_def)
  next
    case False
    then obtain j where j: "i = rb_count rb + j" "j < length us"
      using i by (metis add_less_cancel_left le_add_diff_inverse not_le_imp_less)
    then have "(rb_read_pos rb + i) mod s = (w + j) mod s"
      by (simp add: wp mod_add_left_eq add.assoc)
    then have "d' ! ((rb_read_pos rb + i) mod s) = us ! j"
      unfolding d'_def using two_blits_written [OF ld ws lus j(2) ti] by simp
    then show ?thesis using j d here by (simp add: nth_append)
  qed
qed

text \<open>The state that a successful write leaves, with the copies written out.\<close>

definition written :: "byte list \<Rightarrow> byte list \<Rightarrow> ring_buffer \<Rightarrow> ring_buffer" where
  "written d us rb =
     (let t = min (length us) (rb_size rb - rb_write_pos rb)
      in rb\<lparr>rb_data := Some (blit (blit d (rb_write_pos rb) (take t us)) 0 (drop t us)),
            rb_write_pos := (rb_write_pos rb + length us) mod rb_size rb,
            rb_count := rb_count rb + length us\<rparr>)"

lemma blit_Nil [simp]: "blit d 0 [] = d"
  by (simp add: blit_def)

lemma written_inv [inv_intros]:
  assumes "rb_inv rb" and "rb_data rb = Some d" and "rb_count rb + length us \<le> rb_size rb"
  shows "rb_inv (written d us rb)"
proof -
  have ws: "rb_write_pos rb < rb_size rb" using assms(1) by (auto simp: rb_inv_def)
  have "length (blit (blit d (rb_write_pos rb) (take t us)) 0 (drop t us)) = rb_size rb"
    if "t = min (length us) (rb_size rb - rb_write_pos rb)" for t
    using assms ws that by (intro length_two_blits) (auto simp: rb_inv_def)
  then show ?thesis
    using assms by (auto simp: written_def Let_def rb_inv_def mod_add_left_eq add.assoc)
qed

lemma written_contents:
  assumes "rb_inv rb" and "rb_data rb = Some d" and "rb_count rb + length us \<le> rb_size rb"
  shows "contents (written d us rb) = contents rb @ us"
  using store_contents [OF assms] by (simp add: written_def Let_def)

lemma written_simps [simp]:
  "rb_size (written d us rb) = rb_size rb" "\<exists>d'. rb_data (written d us rb) = Some d'"
  by (simp_all add: written_def Let_def)

text \<open>
  The state that a write that faults leaves: some bytes are scattered over the free part of
  the buffer, and nothing is stored.
\<close>

definition dirtied :: "byte list \<Rightarrow> byte list \<Rightarrow> ring_buffer \<Rightarrow> ring_buffer" where
  "dirtied d vs rb =
     (let t = min (length vs) (rb_size rb - rb_write_pos rb)
      in rb\<lparr>rb_data := Some (blit (blit d (rb_write_pos rb) (take t vs)) 0 (drop t vs))\<rparr>)"

lemma dirtied_inv_contents:
  assumes inv: "rb_inv rb" and d: "rb_data rb = Some d" and fit: "rb_count rb + length us \<le> rb_size rb"
  shows "rb_inv (dirtied d us rb)" and "contents (dirtied d us rb) = contents rb"
proof -
  define t where t: "t = min (length us) (rb_size rb - rb_write_pos rb)"
  define d' where "d' = blit (blit d (rb_write_pos rb) (take t us)) 0 (drop t us)"
  have eq: "dirtied d us rb = rb\<lparr>rb_data := Some d'\<rparr>"
    by (simp add: dirtied_def d'_def t Let_def)
  from inv have s: "0 < rb_size rb" and ws: "rb_write_pos rb < rb_size rb"
    and wp: "rb_write_pos rb = (rb_read_pos rb + rb_count rb) mod rb_size rb"
    by (auto simp: rb_inv_def)
  have ld: "length d = rb_size rb" using rb_inv_data [OF inv d] .
  have lus: "length us \<le> rb_size rb" using fit by simp
  show "rb_inv (dirtied d us rb)"
    using inv length_two_blits [OF ld ws lus t] by (simp add: eq rb_inv_def d'_def)
  have kept: "d' ! ((rb_read_pos rb + i) mod rb_size rb) = d ! ((rb_read_pos rb + i) mod rb_size rb)"
    if i: "i < rb_count rb" for i
  proof -
    have "(rb_read_pos rb + i) mod rb_size rb \<noteq> (rb_write_pos rb + j) mod rb_size rb"
      if "j < length us" for j
    proof -
      have "(rb_write_pos rb + j) mod rb_size rb = (rb_read_pos rb + (rb_count rb + j)) mod rb_size rb"
        by (simp add: wp mod_add_left_eq add.assoc)
      then show ?thesis using that i fit by (simp add: mod_shift_inj)
    qed
    then show ?thesis
      unfolding d'_def using s by (intro two_blits_kept [OF ld ws lus _ _ t]) auto
  qed
  then show "contents (dirtied d us rb) = contents rb"
    using d by (auto simp: eq contents_def)
qed

text \<open>Every outcome of the copy is one of these two states.\<close>

lemma copy_in_cases:
  assumes cp: "copy_ok cfu"
  shows "copy_in cfu off us d rb = (length us, written d us rb) \<or>
    (\<exists>vs. length vs \<le> length us \<and> copy_in cfu off us d rb = (0, dirtied d vs rb) \<and>
       \<not> (\<forall>off src. fst (cfu off src) = 0))"
proof -
  define t where "t = min (length us) (rb_size rb - rb_write_pos rb)"
  obtain n1 bs1 where c1: "cfu off (take t us) = (n1, bs1)" by fastforce
  obtain n2 bs2 where c2: "cfu (off + t) (drop t us) = (n2, bs2)" by fastforce
  have l1: "length bs1 = t" "n1 = 0 \<longrightarrow> bs1 = take t us"
    using cp c1 by (auto simp: copy_ok_def t_def split_def prod_eq_iff dest!: spec [of _ off] spec [of _ "take t us"])
  have l2: "length bs2 = length us - t" "n2 = 0 \<longrightarrow> bs2 = drop t us"
    using cp c2 by (auto simp: copy_ok_def split_def prod_eq_iff dest!: spec [of _ "off + t"] spec [of _ "drop t us"])
  have w: "copy_in cfu off us d rb =
      (if n1 \<noteq> 0 then (0, rb\<lparr>rb_data := Some (blit d (rb_write_pos rb) bs1)\<rparr>)
       else if length us - t \<noteq> 0 \<and> n2 \<noteq> 0
       then (0, rb\<lparr>rb_data := Some (blit (blit d (rb_write_pos rb) bs1) 0 bs2)\<rparr>)
       else (length us, written d us rb))"
    using l1 l2 by (auto simp: copy_in_def Let_def written_def c1 c2 simp flip: t_def)
  consider "n1 \<noteq> 0" | "n1 = 0" "length us - t \<noteq> 0" "n2 \<noteq> 0"
    | "n1 = 0" "length us - t = 0 \<or> n2 = 0"
    by auto
  then show ?thesis
  proof cases
    case 1
    with c1 have "\<not> (\<forall>off src. fst (cfu off src) = 0)" by (metis fst_conv)
    with 1 show ?thesis
      using w l1 by (intro disjI2 exI [of _ bs1]) (auto simp: t_def dirtied_def Let_def)
  next
    case 2
    then have t: "t = rb_size rb - rb_write_pos rb" by (auto simp: t_def)
    from 2 c2 have "\<not> (\<forall>off src. fst (cfu off src) = 0)" by (metis fst_conv)
    with 2 t show ?thesis
      using w l1 l2 by (intro disjI2 exI [of _ "bs1 @ bs2"]) (auto simp: dirtied_def Let_def)
  next
    case 3
    then show ?thesis using w by auto
  qed
qed

lemma make_room_free:
  assumes "rb_inv rb" and "rb_data rb = Some d" and "n \<le> rb_size rb"
  shows "rb_inv (make_room n rb)" and "rb_data (make_room n rb) = Some d"
    and "rb_count (make_room n rb) + n \<le> rb_size (make_room n rb)"
  using assms make_room_count(1) [of rb n] by (simp_all add: make_room_inv)

lemma lastn_make_room_append:
  assumes "length us \<le> n"
  shows "lastn (n - length us) xs @ us = lastn n (xs @ us)"
  using assms by (simp add: lastn_def)

lemma lastn_append_lastn: "lastn n (xs @ lastn n ys) = lastn n (xs @ ys)"
  by (cases "n \<le> length ys") (simp_all add: lastn_append_long)

text \<open>
  A write either keeps exactly the last \<open>size\<close> bytes of what was stored followed by what is
  written, or, when a copy faults, reports 0 and has dropped the bytes it made room for.
\<close>

lemma ringbuf_write_outcome:
  assumes inv: "rb_inv rb" and d: "rb_data rb = Some d" and cp: "copy_ok cfu" and ne: "buf \<noteq> []"
    and w: "ringbuf_write cfu buf rb = (n, rb')"
  defines "k \<equiv> min (rb_size rb) (length buf)"
  shows "(n = k \<and> contents rb' = lastn (rb_size rb) (contents rb @ buf)) \<or>
    (n = 0 \<and> contents rb' = lastn (rb_size rb - k) (contents rb) \<and>
     \<not> (\<forall>off src. fst (cfu off src) = 0))"
    and "rb_inv rb'" and "rb_size rb' = rb_size rb" and "rb_data rb' \<noteq> None"
proof -
  define us where "us = lastn (rb_size rb) buf"
  define skip where "skip = (if length buf > rb_size rb then length buf - rb_size rb else 0)"
  have us: "drop skip buf = us" by (auto simp: lastn_def us_def skip_def)
  have k: "length us = k" "k \<le> rb_size rb" by (simp_all add: us_def k_def)
  note room = make_room_free [OF inv d k(2)]
  have eq: "ringbuf_write cfu buf rb = copy_in cfu skip us d (make_room k rb)"
    using d ne k(1) by (simp add: ringbuf_write_def Let_def flip: us skip_def)
  have "(n = k \<and> rb' = written d us (make_room k rb)) \<or>
    (\<exists>vs. length vs \<le> k \<and> n = 0 \<and> rb' = dirtied d vs (make_room k rb) \<and>
      \<not> (\<forall>off src. fst (cfu off src) = 0))" (is "?A \<or> ?B")
    using copy_in_cases [OF cp, of skip us d "make_room k rb"] w by (auto simp: eq k)
  then have "((n = k \<and> contents rb' = lastn (rb_size rb) (contents rb @ buf)) \<or>
    (n = 0 \<and> contents rb' = lastn (rb_size rb - k) (contents rb) \<and>
     \<not> (\<forall>off src. fst (cfu off src) = 0))) \<and>
    rb_inv rb' \<and> rb_size rb' = rb_size rb \<and> rb_data rb' \<noteq> None"
  proof
    assume A: ?A
    have "contents rb' = lastn (rb_size rb - length us) (contents rb) @ us"
      using A room k inv d by (simp add: written_contents make_room_contents)
    also have "\<dots> = lastn (rb_size rb) (contents rb @ us)"
      using k by (intro lastn_make_room_append) simp
    also have "\<dots> = lastn (rb_size rb) (contents rb @ buf)"
      by (simp add: us_def lastn_append_lastn)
    finally show ?thesis
      using A room k written_inv [OF room(1,2), of us] by simp
  next
    assume ?B
    then obtain vs where vs: "length vs \<le> k" "n = 0" "rb' = dirtied d vs (make_room k rb)"
      "\<not> (\<forall>off src. fst (cfu off src) = 0)" by blast
    have fit: "rb_count (make_room k rb) + length vs \<le> rb_size (make_room k rb)"
      using room(3) vs(1) by linarith
    show ?thesis
      using vs dirtied_inv_contents [OF room(1,2) fit] make_room_contents [OF inv k(2) d]
      by (simp add: dirtied_def Let_def)
  qed
  then show "(n = k \<and> contents rb' = lastn (rb_size rb) (contents rb @ buf)) \<or>
    (n = 0 \<and> contents rb' = lastn (rb_size rb - k) (contents rb) \<and>
     \<not> (\<forall>off src. fst (cfu off src) = 0))"
    and "rb_inv rb'" and "rb_size rb' = rb_size rb" and "rb_data rb' \<noteq> None"
    by blast+
qed

lemma ringbuf_write_inv [inv_intros]:
  assumes "rb_inv rb" and "copy_ok cfu"
  shows "rb_inv (snd (ringbuf_write cfu buf rb))"
proof (cases "rb_data rb = None \<or> buf = []")
  case True
  then show ?thesis using assms by (auto simp: ringbuf_write_def split: option.split)
next
  case False
  then show ?thesis
    using ringbuf_write_outcome(2) [OF assms(1) _ assms(2)] by (metis not_Some_eq prod.collapse)
qed

section \<open>Reading\<close>

text \<open>The two pieces that \<open>ringbuf_peek\<close> copies are the first bytes the buffer stores.\<close>

lemma peek_pieces:
  assumes inv: "rb_inv rb" and d: "rb_data rb = Some d" and n: "n \<le> rb_count rb"
    and t: "t = min n (rb_size rb - rb_read_pos rb)"
  shows "take t (drop (rb_read_pos rb) d) @ take (n - t) d = take n (contents rb)"
proof (rule nth_equalityI)
  have ld: "length d = rb_size rb" using rb_inv_data [OF inv d] .
  have r: "rb_read_pos rb < rb_size rb" and c: "rb_count rb \<le> rb_size rb"
    using inv by (auto simp: rb_inv_def)
  show "length (take t (drop (rb_read_pos rb) d) @ take (n - t) d) = length (take n (contents rb))"
    using n t ld d r c by auto
  fix i assume "i < length (take t (drop (rb_read_pos rb) d) @ take (n - t) d)"
  then have i: "i < n" using n t ld d r c by auto
  have "contents rb ! i = d ! ((rb_read_pos rb + i) mod rb_size rb)"
    using i n by (simp add: contents_nth [OF d])
  moreover have "(rb_read_pos rb + i) mod rb_size rb =
      (if i < rb_size rb - rb_read_pos rb then rb_read_pos rb + i
       else rb_read_pos rb + i - rb_size rb)"
    using i n c r by (auto simp: mod_if)
  ultimately show "(take t (drop (rb_read_pos rb) d) @ take (n - t) d) ! i = take n (contents rb) ! i"
    using i t ld r by (auto simp: nth_append min_def add.commute split: if_splits)
qed

text \<open>A peek delivers a prefix of what the buffer stores, or reports 0.\<close>

lemma ringbuf_peek_outcome:
  assumes inv: "rb_inv rb" and cp: "copy_ok ctu" and p: "ringbuf_peek ctu len rb = (n, bs)"
  shows "(n = min len (length (contents rb)) \<and> bs = take len (contents rb)) \<or>
    (n = 0 \<and> \<not> (\<forall>off src. fst (ctu off src) = 0))"
proof (cases "rb_data rb = None \<or> rb_count rb = 0 \<or> len = 0")
  case True
  then show ?thesis
    using p by (auto simp: ringbuf_peek_def ringbuf_empty_def contents_def Let_def
        split: option.splits if_splits)
next
  case False
  then obtain d where d: "rb_data rb = Some d" by auto
  define m where "m = min len (rb_count rb)"
  define t where "t = min m (rb_size rb - rb_read_pos rb)"
  have m: "m \<le> rb_count rb" "m \<noteq> 0" using False by (auto simp: m_def)
  obtain n1 bs1 where c1: "ctu 0 (take t (drop (rb_read_pos rb) d)) = (n1, bs1)" by fastforce
  obtain n2 bs2 where c2: "ctu t (take (m - t) d) = (n2, bs2)" by fastforce
  have l1: "n1 = 0 \<longrightarrow> bs1 = take t (drop (rb_read_pos rb) d)"
    using cp c1 unfolding copy_ok_def by (metis fst_conv snd_conv)
  have l2: "n2 = 0 \<longrightarrow> bs2 = take (m - t) d"
    using cp c2 unfolding copy_ok_def by (metis fst_conv snd_conv)
  have eq: "ringbuf_peek ctu len rb =
      (if n1 \<noteq> 0 then (0, bs1)
       else if m - t \<noteq> 0 then (if n2 \<noteq> 0 then (0, bs1 @ bs2) else (m, bs1 @ bs2))
       else (m, bs1))"
    using False d m
    by (auto simp: ringbuf_peek_def ringbuf_empty_def Let_def c1 c2 simp flip: m_def t_def)
  have "n1 \<noteq> 0 \<or> n2 \<noteq> 0 \<longrightarrow> \<not> (\<forall>off src. fst (ctu off src) = 0)"
    using c1 c2 by (metis fst_conv)
  moreover have "take (m - t) d = []" if "m - t = 0" using that by simp
  moreover have "take len (contents rb) = take m (contents rb)"
    using d by (simp add: m_def min_def)
  ultimately show ?thesis
    using p l1 l2 peek_pieces [OF inv d m(1) t_def] d
    by (auto simp: eq m_def split: if_splits)
qed

lemma ringbuf_discard_simps [simp]:
  "rb_data (ringbuf_discard n rb) = rb_data rb"
  "rb_size (ringbuf_discard n rb) = rb_size rb"
  by (simp_all add: ringbuf_discard_def)

lemma ringbuf_discard_inv [inv_intros]: "rb_inv rb \<Longrightarrow> rb_inv (ringbuf_discard n rb)"
  by (auto simp: ringbuf_discard_def rb_inv_def mod_advance)

lemma ringbuf_discard_contents:
  assumes inv: "rb_inv rb" and n: "n \<le> length (contents rb)"
  shows "rb_inv (ringbuf_discard n rb)"
    and "contents (ringbuf_discard n rb) = drop n (contents rb)"
proof -
  show "rb_inv (ringbuf_discard n rb)" using inv by (rule ringbuf_discard_inv)
  show "contents (ringbuf_discard n rb) = drop n (contents rb)"
  proof (cases "rb_data rb")
    case None
    then show ?thesis by (simp add: ringbuf_discard_def)
  next
    case (Some d)
    then show ?thesis
      using n by (intro nth_equalityI)
        (auto simp: ringbuf_discard_def contents_def mod_add_left_eq add.assoc)
  qed
qed

section \<open>The interface of a lossy byte stream\<close>

text \<open>
  What a program that uses the device relies on: bytes put into a stream of bounded capacity
  are appended, the oldest being lost, and bytes are taken from the front.
\<close>

locale lossy_stream =
  fixes put :: "'a list \<Rightarrow> 's \<Rightarrow> 's"
    and take_out :: "nat \<Rightarrow> 's \<Rightarrow> 'a list \<times> 's"
    and stored :: "'s \<Rightarrow> 'a list"
    and capacity :: "'s \<Rightarrow> nat"
    and ok :: "'s \<Rightarrow> bool"
  assumes put_ok: "ok s \<Longrightarrow> ok (put xs s)"
    and put_capacity: "ok s \<Longrightarrow> capacity (put xs s) = capacity s"
    and put_stored: "ok s \<Longrightarrow> stored (put xs s) = lastn (capacity s) (stored s @ xs)"
    and take_out_ok: "ok s \<Longrightarrow> ok (snd (take_out n s))"
    and take_out_value: "ok s \<Longrightarrow> fst (take_out n s) = take n (stored s)"
    and take_out_stored: "ok s \<Longrightarrow> stored (snd (take_out n s)) = drop n (stored s)"
    and stored_bound: "ok s \<Longrightarrow> length (stored s) \<le> capacity s"
begin

lemma puts_stored:
  assumes "ok s"
  shows "ok (fold put xss s) \<and> capacity (fold put xss s) = capacity s \<and>
    stored (fold put xss s) = lastn (capacity s) (stored s @ concat xss)"
  using assms
proof (induction xss arbitrary: s)
  case Nil
  then show ?case by (simp add: stored_bound)
next
  case (Cons xs xss)
  have "lastn (capacity s) (lastn (capacity s) (stored s @ xs) @ concat xss)
      = lastn (capacity s) (stored s @ xs @ concat xss)"
    by (simp add: lastn_lastn_append)
  then show ?case
    using Cons.IH [of "put xs s"] Cons.prems by (simp add: put_ok put_capacity put_stored)
qed

text \<open>Everything put in and then taken out in one piece is the last part of what was put in.\<close>

lemma puts_take_out:
  assumes "ok s" and "capacity s \<le> n"
  shows "fst (take_out n (fold put xss s)) = lastn (capacity s) (stored s @ concat xss)"
    and "stored (snd (take_out n (fold put xss s))) = []"
proof -
  note p = puts_stored [OF assms(1), of xss]
  then have "length (stored (fold put xss s)) \<le> n" using assms(2) stored_bound by fastforce
  with p show "fst (take_out n (fold put xss s)) = lastn (capacity s) (stored s @ concat xss)"
    and "stored (snd (take_out n (fold put xss s))) = []"
    by (simp_all add: take_out_value take_out_stored)
qed

text \<open>Taking out in two pieces is taking out once.\<close>

lemma take_out_twice:
  assumes "ok s"
  shows "fst (take_out m s) @ fst (take_out n (snd (take_out m s))) = fst (take_out (m + n) s)"
  using assms by (simp add: take_out_value take_out_stored take_out_ok take_add)

end

section \<open>The driver as a state machine\<close>

definition kmalloc_ok :: "(nat \<Rightarrow> byte list option) \<Rightarrow> bool" where
  "kmalloc_ok km \<longleftrightarrow> (\<forall>n d. km n = Some d \<longrightarrow> length d = n)"

text \<open>A successfully loaded module.\<close>

definition drv_init :: "driver \<Rightarrow> bool" where
  "drv_init s \<longleftrightarrow> (\<exists>km r1 r2 r3 r4 held. kmalloc_ok km \<and>
     ringbuf_init km r1 r2 r3 r4 driver_static = (0, held, s))"

text \<open>Its operations, under any behaviour of the kernel functions that their documentation allows.\<close>

inductive drv_step :: "driver \<Rightarrow> driver \<Rightarrow> bool" where
  drv_read: "copy_ok ctu \<Longrightarrow> dev_read intr ctu len s = (r, bs, t) \<Longrightarrow> drv_step s t"
| drv_write: "copy_ok cfu \<Longrightarrow> dev_write intr cfu buf s = (r, t) \<Longrightarrow> drv_step s t"
| drv_llseek: "dev_llseek intr off wh s = (r, t) \<Longrightarrow> drv_step s t"
| drv_resize: "kmalloc_ok km \<Longrightarrow> buf_size_set ks km intr val s = (r, t) \<Longrightarrow> drv_step s t"

inductive_cases drv_stepE: "drv_step s t"

text \<open>
  The invariant of the loaded module: the buffer's own, no buffer is lost or freed twice, and
  the parameter that sysfs shows is the size of the buffer.
\<close>

definition drv_inv :: "driver \<Rightarrow> bool" where
  "drv_inv s \<longleftrightarrow> rb_inv (drv_rb s) \<and>
     drv_buffers s = (if rb_data (drv_rb s) = None then 0 else 1) \<and>
     drv_param_buf_size s = int (rb_size (drv_rb s))"

lemma ringbuf_write_data_None [simp]:
  "rb_data (snd (ringbuf_write cfu buf rb)) = None \<longleftrightarrow> rb_data rb = None"
  by (auto simp: ringbuf_write_def copy_in_def Let_def split: option.split prod.splits if_splits)

lemma ringbuf_write_size [simp]: "rb_size (snd (ringbuf_write cfu buf rb)) = rb_size rb"
  by (auto simp: ringbuf_write_def copy_in_def Let_def split: option.split prod.splits if_splits)

lemma dev_read_inv [inv_intros]: "drv_inv s \<Longrightarrow> drv_inv (snd (snd (dev_read intr ctu len s)))"
  by (auto simp: dev_read_def drv_inv_def ringbuf_discard_inv split: prod.split)

lemma dev_write_inv [inv_intros]:
  "drv_inv s \<Longrightarrow> copy_ok cfu \<Longrightarrow> drv_inv (snd (dev_write intr cfu buf s))"
  using ringbuf_write_inv [of "drv_rb s" cfu buf] ringbuf_write_data_None [of cfu buf "drv_rb s"]
    ringbuf_write_size [of cfu buf "drv_rb s"]
  by (auto simp: dev_write_def drv_inv_def split: prod.split simp del: ringbuf_write_data_None ringbuf_write_size)

lemma dev_llseek_rb [simp]: "drv_rb (snd (dev_llseek intr off wh s)) = drv_rb s"
  by (auto simp: dev_llseek_def Let_def split: whence.split option.split)

lemma dev_llseek_inv [inv_intros]: "drv_inv s \<Longrightarrow> drv_inv (snd (dev_llseek intr off wh s))"
  by (auto simp: dev_llseek_def drv_inv_def Let_def split: whence.split option.split)

lemma buf_size_set_inv [inv_intros]:
  "drv_inv s \<Longrightarrow> kmalloc_ok km \<Longrightarrow> drv_inv (snd (buf_size_set ks km intr val s))"
proof (cases "ks val")
  case (Inr n)
  assume "drv_inv s" and "kmalloc_ok km"
  then show ?thesis
    using Inr by (cases "km (nat n)"; cases "n < 16 \<or> 65536 < n") (simp_all add: buf_size_set_def drv_inv_def rb_inv_def kmalloc_ok_def Let_def
      nat_le_iff le_nat_iff)
qed (simp add: buf_size_set_def)

lemma drv_init_inv: "drv_init s \<Longrightarrow> drv_inv s"
  by (auto simp: drv_init_def ringbuf_init_def drv_inv_def rb_inv_def kmalloc_ok_def
      driver_static_def Let_def ENOMEM_def split: option.splits if_splits)

lemma drv_step_inv: "drv_inv s \<Longrightarrow> drv_step s t \<Longrightarrow> drv_inv t"
  by (erule drv_stepE) (metis dev_read_inv dev_write_inv dev_llseek_inv buf_size_set_inv snd_conv)+

interpretation drv: invariant_system drv_init drv_step drv_inv
  by unfold_locales (auto intro: drv_init_inv drv_step_inv)

lemma dev_write_stored:
  assumes inv: "drv_inv s" and d: "rb_data (drv_rb s) \<noteq> None" and cp: "copy_ok cfu"
    and w: "dev_write False cfu buf s = (n, t)"
  defines "k \<equiv> min (rb_size (drv_rb s)) (length buf)"
  shows "(n = int k \<and>
      contents (drv_rb t) = lastn (rb_size (drv_rb s)) (contents (drv_rb s) @ buf)) \<or>
    (n = 0 \<and> contents (drv_rb t) = lastn (rb_size (drv_rb s) - k) (contents (drv_rb s)) \<and>
      (\<exists>off src. fst (cfu off src) \<noteq> 0))"
proof -
  obtain m rb' where rw: "ringbuf_write cfu buf (drv_rb s) = (m, rb')" by fastforce
  then have n: "n = int m" and t: "drv_rb t = rb'"
    using w by (auto simp: dev_write_def)
  have inv': "rb_inv (drv_rb s)" using inv by (simp add: drv_inv_def)
  show ?thesis
  proof (cases "buf = []")
    case True
    then show ?thesis
      using rw n t d inv' by (auto simp: ringbuf_write_def k_def rb_inv_def contents_def)
  next
    case False
    then show ?thesis
      using ringbuf_write_outcome(1) [OF inv' _ cp False rw] d n t
      by (auto simp: k_def)
  qed
qed

lemma dev_read_taken:
  assumes inv: "drv_inv s" and cp: "copy_ok ctu"
    and r: "dev_read False ctu len s = (n, bs, t)"
  shows "(n = int (min len (length (contents (drv_rb s)))) \<and> bs = take len (contents (drv_rb s)) \<and>
      contents (drv_rb t) = drop len (contents (drv_rb s))) \<or>
    (n = 0 \<and> t = s \<and> (\<exists>off src. fst (ctu off src) \<noteq> 0))"
proof -
  obtain m cs where pk: "ringbuf_peek ctu len (drv_rb s) = (m, cs)" by fastforce
  have inv': "rb_inv (drv_rb s)" using inv by (simp add: drv_inv_def)
  have "min len (length xs) = 0 \<Longrightarrow> xs = drop len xs" for xs :: "byte list"
    by (cases xs; cases len) simp_all
  moreover have "drop (min len (length xs)) xs = drop len xs" for xs :: "byte list"
    by (cases "len \<le> length xs") simp_all
  ultimately show ?thesis
    using ringbuf_peek_outcome [OF inv' cp pk] r pk
      ringbuf_discard_contents(2) [OF inv', of m]
    by (auto simp: dev_read_def split: if_splits)
qed

text \<open>The driver provides the interface of a lossy byte stream to a program that is not interrupted.\<close>

definition drv_ready :: "driver \<Rightarrow> bool" where
  "drv_ready s \<longleftrightarrow> drv_inv s \<and> rb_data (drv_rb s) \<noteq> None"

definition write_call :: "byte list \<Rightarrow> driver \<Rightarrow> driver" where
  "write_call buf s = snd (dev_write False copy_total buf s)"

definition read_call :: "nat \<Rightarrow> driver \<Rightarrow> byte list \<times> driver" where
  "read_call len s = snd (dev_read False copy_total len s)"

lemma no_fault [simp]: "fst (copy_total off src) = 0"
  by (simp add: copy_total_def)

lemma write_call_size [simp]: "rb_size (drv_rb (write_call buf s)) = rb_size (drv_rb s)"
  by (simp add: write_call_def dev_write_def split_def Let_def)

lemma write_call_ready: "drv_ready s \<Longrightarrow> drv_ready (write_call buf s)"
  using dev_write_inv [of s copy_total False buf] ringbuf_write_data_None [of copy_total buf "drv_rb s"]
  by (auto simp: write_call_def drv_ready_def dev_write_def split: prod.splits
      simp del: ringbuf_write_data_None)

lemma write_call_stored:
  assumes "drv_ready s"
  shows "contents (drv_rb (write_call buf s)) = lastn (rb_size (drv_rb s)) (contents (drv_rb s) @ buf)"
  using dev_write_stored [of s copy_total buf] assms
  by (cases "dev_write False copy_total buf s") (auto simp: write_call_def drv_ready_def)

lemma read_call_ready: "drv_ready s \<Longrightarrow> drv_ready (snd (read_call len s))"
  using dev_read_inv [of s False copy_total len]
  by (auto simp: read_call_def drv_ready_def dev_read_def split: prod.splits)

lemma read_call_taken:
  assumes "drv_ready s"
  shows "fst (read_call len s) = take len (contents (drv_rb s))"
    and "contents (drv_rb (snd (read_call len s))) = drop len (contents (drv_rb s))"
  using dev_read_taken [of s copy_total len] assms
  by (cases "dev_read False copy_total len s"; auto simp: read_call_def drv_ready_def)+

lemma drv_ready_bound: "drv_ready s \<Longrightarrow> length (contents (drv_rb s)) \<le> rb_size (drv_rb s)"
  by (auto simp: drv_ready_def drv_inv_def rb_inv_def)

interpretation dev: lossy_stream write_call read_call
  "\<lambda>s. contents (drv_rb s)" "\<lambda>s. rb_size (drv_rb s)" drv_ready
  by unfold_locales
    (simp_all add: write_call_ready write_call_stored read_call_ready read_call_taken drv_ready_bound)

section \<open>Properties\<close>

text \<open>A concrete module, loaded with zeroed memory, for the witnesses.\<close>

definition kzalloc :: "nat \<Rightarrow> byte list option" where
  "kzalloc n = Some (replicate n 0)"

definition loaded :: driver where
  "loaded = snd (snd (ringbuf_init kzalloc 0 0 0 0 driver_static))"

lemma loaded_eq:
  "loaded = \<lparr>drv_rb = \<lparr>rb_data = Some (replicate 16 0), rb_size = 16, rb_count = 0,
      rb_read_pos = 0, rb_write_pos = 0\<rparr>, drv_param_buf_size = 16, drv_f_pos = 0, drv_buffers = 1\<rparr>"
  by (simp add: loaded_def ringbuf_init_def kzalloc_def driver_static_def Let_def)

lemma loaded_init: "drv_init loaded"
  unfolding drv_init_def
  by (rule exI [of _ kzalloc], intro exI [of _ 0])
    (auto simp: loaded_eq kmalloc_ok_def kzalloc_def ringbuf_init_def driver_static_def Let_def)

lemma loaded_simps [simp]:
  "contents (drv_rb loaded) = []" "rb_size (drv_rb loaded) = 16" "drv_ready loaded"
  using drv_init_inv [OF loaded_init] by (simp_all add: drv_ready_def loaded_eq contents_def)

lemma loaded_reach: "reach drv_init drv_step loaded"
  by (rule reach_init) (rule loaded_init)

text \<open>
  Property C23. Writing to the device, in every reachable state with an allocated buffer and
  whatever the copy from user space does: either the buffer afterwards stores exactly the
  last \<open>size\<close> bytes of what it stored followed by what was written, and the call returns the
  number of bytes kept, or a copy faulted, the call returns 0, nothing of the new data is
  stored, and the oldest bytes that had to make room are lost.
\<close>

theorem dev_write_keeps_last_bytes:
  assumes "reach drv_init drv_step s" and "rb_data (drv_rb s) \<noteq> None" and "copy_ok cfu"
    and "dev_write False cfu buf s = (n, t)"
  shows "(n = int (min (rb_size (drv_rb s)) (length buf)) \<and>
      contents (drv_rb t) = lastn (rb_size (drv_rb s)) (contents (drv_rb s) @ buf)) \<or>
    (n = 0 \<and> (\<exists>off src. fst (cfu off src) \<noteq> 0) \<and>
      contents (drv_rb t) =
        lastn (rb_size (drv_rb s) - min (rb_size (drv_rb s)) (length buf)) (contents (drv_rb s)))"
  using dev_write_stored [OF drv.reach_inv [OF assms(1)] assms(2-4)] by blast

theorem dev_write_keeps_last_bytes_witness:
  "fst (dev_write False copy_total [1, 2, 3] loaded) = 3 \<and>
   contents (drv_rb (snd (dev_write False copy_total [1, 2, 3] loaded))) = [1, 2, 3]"
  using dev_write_keeps_last_bytes [OF loaded_reach _ copy_total_ok, of "[1, 2, 3]"]
  by (cases "dev_write False copy_total [1, 2, 3] loaded")
    (auto simp: loaded_eq contents_def)

text \<open>
  Reading from the device in any reachable state: either the caller gets the
  oldest bytes in the order they were written, as many as asked for or stored, and exactly
  these bytes leave the buffer, or a copy faulted, 0 is returned and the driver's state is
  unchanged.
\<close>

theorem dev_read_takes_oldest_bytes:
  assumes "reach drv_init drv_step s" and "copy_ok ctu"
    and "dev_read False ctu len s = (n, bs, t)"
  shows "(n = int (min len (length (contents (drv_rb s)))) \<and> bs = take len (contents (drv_rb s)) \<and>
      contents (drv_rb t) = drop len (contents (drv_rb s))) \<or>
    (n = 0 \<and> t = s \<and> (\<exists>off src. fst (ctu off src) \<noteq> 0))"
  using dev_read_taken [OF drv.reach_inv [OF assms(1)] assms(2,3)] .

lemma loaded_written_reach: "reach drv_init drv_step (write_call buf loaded)"
  by (cases "dev_write False copy_total buf loaded")
    (auto intro!: reach_step [OF loaded_reach drv_write [OF copy_total_ok]] simp: write_call_def)

theorem dev_read_takes_oldest_bytes_witness:
  "fst (snd (dev_read False copy_total 2 (write_call [7, 8, 9] loaded))) = [7, 8]"
  using dev_read_takes_oldest_bytes [OF loaded_written_reach copy_total_ok, of 2 "[7, 8, 9]"]
    write_call_stored [of loaded "[7, 8, 9]"] drv_init_inv [OF loaded_init]
  by (cases "dev_read False copy_total 2 (write_call [7, 8, 9] loaded)")
    (auto simp: drv_ready_def loaded_eq contents_def)



text \<open>
  A program that writes any number of times, without interruption or fault, and
  then reads with a large enough buffer gets exactly the last \<open>size\<close> bytes of everything it
  wrote, in order, and leaves the device empty: what test_ringbuf.c does with 16 bytes.
\<close>

theorem device_writes_then_read:
  assumes "drv_ready s" and "rb_size (drv_rb s) \<le> n"
  shows "fst (read_call n (fold write_call bufs s))
      = lastn (rb_size (drv_rb s)) (contents (drv_rb s) @ concat bufs) \<and>
    contents (drv_rb (snd (read_call n (fold write_call bufs s)))) = []"
  using dev.puts_take_out [OF assms] by blast

definition bytes_of :: "string \<Rightarrow> byte list" where
  "bytes_of s = map of_char s"

theorem device_writes_then_read_witness:
  "fst (read_call 255 (fold write_call [bytes_of ''Hello'', bytes_of '', ring buffer world!''] loaded))
    = bytes_of ''ng buffer world!''"
  using device_writes_then_read [of loaded 255 "[bytes_of ''Hello'', bytes_of '', ring buffer world!'']"]
  by (simp add: bytes_of_def lastn_def)

text \<open>
  Loading the module registers all four resources and allocates one buffer, or
  fails with a negative code and then holds no resource and no buffer: every error label of
  \<open>ringbuf_init\<close> releases exactly what had been acquired.
\<close>

theorem ringbuf_init_all_or_nothing:
  assumes "ringbuf_init km r1 r2 r3 r4 driver_static = (ret, held, s)"
  shows "(ret = 0 \<and> held = [Device, DevClass, Cdev, ChrdevRegion] \<and> drv_buffers s = 1) \<or>
    (ret < 0 \<and> held = [] \<and> drv_buffers s = 0)"
  using assms
  by (auto simp: ringbuf_init_def driver_static_def free_buf_def ENOMEM_def Let_def
      split: option.splits if_splits)

theorem ringbuf_init_all_or_nothing_witness:
  "fst (snd (ringbuf_init kzalloc 0 0 (- 12) 0 driver_static)) = [] \<and>
   drv_buffers (snd (snd (ringbuf_init kzalloc 0 0 (- 12) 0 driver_static))) = 0"
  using ringbuf_init_all_or_nothing [of kzalloc 0 0 "- 12" 0]
  by (cases "ringbuf_init kzalloc 0 0 (- 12) 0 driver_static")
    (auto simp: ringbuf_init_def kzalloc_def Let_def)

section \<open>Divergences from what the code means to do\<close>

text \<open>
  A write longer than the buffer keeps its last \<open>size\<close> bytes but reports \<open>size\<close>, a short write.
  A caller that follows the POSIX rule and writes the rest again stores these bytes twice: 20
  bytes written to a buffer of 16 by such a caller leave the last four bytes duplicated.
\<close>

definition write_all :: "byte list \<Rightarrow> driver \<Rightarrow> driver" where
  "write_all buf s =
     (let (n, t) = dev_write False copy_total buf s
      in if nat n < length buf then write_call (drop (nat n) buf) t else t)"

lemma short_write_duplicates:
  "contents (drv_rb (write_all (map of_nat [0..<20]) loaded))
     = map of_nat ([8..<20] @ [16..<20])"
proof -
  define buf :: "byte list" where "buf = map of_nat [0..<20]"
  have inv: "drv_inv loaded" using drv_init_inv [OF loaded_init] .
  obtain n t where w: "dev_write False copy_total buf loaded = (n, t)" by fastforce
  have t: "t = write_call buf loaded" using w by (simp add: write_call_def)
  have n: "nat n = 16"
    using dev_write_stored [OF inv _ copy_total_ok w] loaded_simps(3)
    by (auto simp: drv_ready_def buf_def)
  have "contents (drv_rb (write_call (drop 16 buf) t)) = lastn 16 (lastn 16 buf @ drop 16 buf)"
    by (simp add: t write_call_stored write_call_ready)
  also have "\<dots> = map of_nat ([8..<20] @ [16..<20])"
    by (simp add: buf_def lastn_def upt_rec flip: drop_map map_append)
  finally show ?thesis
    using n by (simp add: write_all_def w buf_def flip: buf_def) (simp add: buf_def)
qed

text \<open>
  The module parameter can be set before \<open>ringbuf_init\<close> runs (on the command line of
  \<open>insmod\<close>): the buffer that \<open>buf_size_set\<close> allocates is then overwritten, not freed.
\<close>

lemma param_before_init_leaks:
  "drv_buffers (snd (snd (ringbuf_init kzalloc 0 0 0 0
     (snd (buf_size_set (\<lambda>_. Inr 32) kzalloc False ''32'' driver_static))))) = 2"
  by (simp add: ringbuf_init_def buf_size_set_def kzalloc_def driver_static_def Let_def)

end
