(* ===== verification/Hashmap.thy ===== *)
theory Hashmap
  imports Prelude "HOL-Library.Multiset"
begin

text \<open>
  The open-addressing hash map of 08_search_sort_homework/hashmap_open.c: string keys,
  \<open>size_t\<close> values, linear probing, growth by rehashing.

  Sizes and indices are \<open>nat\<close>; the hash and the values are 64-bit words. Allocation is taken
  to succeed (the program exits otherwise). A result of type \<open>'a run\<close> is \<open>None\<close> where the C
  function does not return, \<open>Some (Inl f)\<close> where it runs into the fault \<open>f\<close>.
\<close>

section \<open>Single-precision floats\<close>

text \<open>
  The load factor and the multiplier are non-negative \<open>float\<close>s: \<open>(m, s)\<close> stands for
  \<open>m / 2 ^ s\<close>. A conversion from an integer and a product are rounded to 24 significant bits,
  to nearest, ties to even; \<open>rnd24\<close> rounds a mantissa. (The exponent range of \<open>float\<close> is not
  reached by sizes below \<open>2 ^ 64\<close>.)
\<close>

type_synonym f32 = "nat \<times> nat"

fun ilog2 :: "nat \<Rightarrow> nat" where
  "ilog2 n = (if n < 2 then 0 else Suc (ilog2 (n div 2)))"

declare ilog2.simps [simp del]

definition rnd24 :: "nat \<Rightarrow> nat" where
  "rnd24 n =
     (if n < 2 ^ 24 then n
      else let s = ilog2 n - 23; q = n div 2 ^ s; r = n mod 2 ^ s; half = 2 ^ (s - 1);
               q' = (if r > half \<or> r = half \<and> odd q then q + 1 else q)
           in q' * 2 ^ s)"

definition f32_of_nat :: "nat \<Rightarrow> f32" where
  "f32_of_nat n = (rnd24 n, 0)"

definition f32_mul :: "f32 \<Rightarrow> f32 \<Rightarrow> f32" where
  "f32_mul x y = (rnd24 (fst x * fst y), snd x + snd y)"

definition f32_le :: "f32 \<Rightarrow> f32 \<Rightarrow> bool" where
  "f32_le x y \<longleftrightarrow> fst x * 2 ^ snd y \<le> fst y * 2 ^ snd x"

definition f32_trunc :: "f32 \<Rightarrow> nat" where
  "f32_trunc x = fst x div 2 ^ snd x"

section \<open>Data\<close>

text \<open>A key is a pointer to a C string: its address and the characters it points to.\<close>

datatype ckey = Key (kaddr: nat) (kstr: string)

record entry =
  e_key :: ckey
  e_val :: u64        \<comment> \<open>the \<open>size_t\<close> that \<open>value\<close> points to\<close>

record hashmap =
  hm_data :: "entry option list"   \<comment> \<open>the buckets; \<open>None\<close> is a null pointer\<close>
  hm_size :: nat
  arr_size :: nat
  hm_limit :: nat
  loadFactor :: f32
  multiplier :: f32

definition LOAD_FACTOR :: f32 where "LOAD_FACTOR = (1, 1)"
definition INITIAL_SIZE :: nat where "INITIAL_SIZE = 100"
definition MULTIPLIER :: f32 where "MULTIPLIER = (2, 0)"

section \<open>Operations\<close>

text \<open>\<open>char\<close> is signed: a character above 127 enters the hash sign-extended.\<close>

definition schar64 :: "char \<Rightarrow> u64" where
  "schar64 c = scast (of_char c :: byte)"

definition hashcode :: "string \<Rightarrow> u64" where
  "hashcode str = foldl (\<lambda>hash c. (push_bit 5 hash + hash) XOR schar64 c) 5381 str"

definition home :: "nat \<Rightarrow> string \<Rightarrow> nat" where
  "home n key = unat (hashcode key) mod n"

definition createHashmap :: "nat \<Rightarrow> f32 \<Rightarrow> f32 \<Rightarrow> hashmap cres" where
  "createHashmap limit lf mul =
     (let arr = (if limit \<ge> INITIAL_SIZE then limit else INITIAL_SIZE);
          lf' = (if f32_le LOAD_FACTOR lf \<and> f32_le lf (1, 0) then lf else LOAD_FACTOR);
          lim = f32_trunc (f32_mul lf' (f32_of_nat arr));
          mul' = (if f32_le MULTIPLIER mul then mul else MULTIPLIER)
      in if lim \<ge> 2 ^ 31 then Inl ConvOverflow
         else Inr \<lparr>hm_data = replicate arr None, hm_size = 0, arr_size = arr, hm_limit = lim,
                   loadFactor = lf', multiplier = mul'\<rparr>)"

text \<open>The probe loop of \<open>raw_put\<close>: it does not end when every bucket is taken.\<close>

partial_function (option) probe_free :: "entry option list \<Rightarrow> nat \<Rightarrow> nat \<Rightarrow> nat option" where
  "probe_free data n index =
     (if data ! index \<noteq> None
      then probe_free data n (if index + 1 \<ge> n then 0 else index + 1)
      else Some index)"

text \<open>
  \<open>raw_put\<close> and \<open>rehashUp\<close> call each other; the fuel bounds the depth of nested calls of
  \<open>raw_put\<close>. \<open>put_all\<close> is the loop of \<open>rehashUp\<close> over the old buckets.
\<close>

function raw_put :: "nat \<Rightarrow> hashmap \<Rightarrow> entry \<Rightarrow> hashmap run"
  and rehashUp :: "nat \<Rightarrow> hashmap \<Rightarrow> entry \<Rightarrow> hashmap run"
  and put_all :: "nat \<Rightarrow> hashmap \<Rightarrow> entry option list \<Rightarrow> hashmap run" where
  "raw_put 0 m e = None"
| "raw_put (Suc fuel) m e =
     (let index = home (arr_size m) (kstr (e_key e))
      in if hm_size m \<le> hm_limit m
         then if hm_data m ! index = None
              then Some (Inr (m\<lparr>hm_data := (hm_data m)[index := Some e], hm_size := Suc (hm_size m)\<rparr>))
              else (case probe_free (hm_data m) (arr_size m) index of
                      None \<Rightarrow> None
                    | Some j \<Rightarrow> Some (Inr (m\<lparr>hm_data := (hm_data m)[j := Some e],
                                             hm_size := Suc (hm_size m)\<rparr>)))
         else rehashUp fuel m e)"
| "rehashUp fuel m e =
     (let limit = f32_trunc (f32_mul (f32_of_nat (arr_size m)) (multiplier m))
      in if limit \<ge> 2 ^ 64 then Some (Inl ConvOverflow)
         else case createHashmap limit (loadFactor m) (multiplier m) of
                Inl f \<Rightarrow> Some (Inl f)
              | Inr newMap \<Rightarrow>
                bindR (put_all fuel newMap (hm_data m)) (\<lambda>newMap. raw_put fuel newMap e))"
| "put_all fuel newMap [] = Some (Inr newMap)"
| "put_all fuel newMap (None # xs) = put_all fuel newMap xs"
| "put_all fuel newMap (Some e # xs) =
     bindR (raw_put fuel newMap e) (\<lambda>newMap. put_all fuel newMap xs)"
  by pat_completeness auto
termination
  by (relation "measures [\<lambda>c. case c of Inl (f, m, e) \<Rightarrow> f | Inr (Inl (f, m, e)) \<Rightarrow> f | Inr (Inr (f, m, xs)) \<Rightarrow> f,
                          \<lambda>c. case c of Inl _ \<Rightarrow> 0 | Inr (Inl _) \<Rightarrow> 2 | Inr (Inr _) \<Rightarrow> 1,
                          \<lambda>c. case c of Inl _ \<Rightarrow> 0 | Inr (Inl _) \<Rightarrow> 0 | Inr (Inr (f, m, xs)) \<Rightarrow> length xs]")
    (auto split: prod.splits)

text \<open>Two levels are enough for every map the program builds (\<open>raw_put_rehash\<close>).\<close>

definition put_fuel :: nat where "put_fuel = 2"

definition put :: "hashmap \<Rightarrow> ckey \<Rightarrow> u64 \<Rightarrow> hashmap run" where
  "put m key val = raw_put put_fuel m \<lparr>e_key = key, e_val = val\<rparr>"

definition holds :: "entry option \<Rightarrow> string \<Rightarrow> bool" where
  "holds b key = (case b of None \<Rightarrow> False | Some e \<Rightarrow> kstr (e_key e) = key)"

text \<open>
  The search loop of \<open>get\<close> and \<open>xremove\<close>: the bucket that holds the key, or \<open>None\<close> when the
  search comes back to where it started.
\<close>

partial_function (option) find_from ::
  "entry option list \<Rightarrow> nat \<Rightarrow> string \<Rightarrow> nat \<Rightarrow> nat \<Rightarrow> nat option option" where
  "find_from data n key init_index index =
     (if holds (data ! index) key then Some (Some index)
      else let index = (if index + 1 \<ge> n then 0 else index + 1)
           in if index = init_index then Some None
              else find_from data n key init_index index)"

definition get :: "hashmap \<Rightarrow> string \<Rightarrow> u64 option option" where
  "get m key =
     (let index = home (arr_size m) key
      in case hm_data m ! index of
           None \<Rightarrow> Some None
         | Some e \<Rightarrow>
           if kstr (e_key e) = key then Some (Some (e_val e))
           else (case find_from (hm_data m) (arr_size m) key index index of
                   None \<Rightarrow> None
                 | Some None \<Rightarrow> Some None
                 | Some (Some i) \<Rightarrow> Some (map_option e_val (hm_data m ! i))))"

definition take_entry :: "hashmap \<Rightarrow> nat \<Rightarrow> entry option \<times> hashmap" where
  "take_entry m i =
     (hm_data m ! i, m\<lparr>hm_data := (hm_data m)[i := None], hm_size := hm_size m - 1\<rparr>)"

definition xremove :: "hashmap \<Rightarrow> string \<Rightarrow> (entry option \<times> hashmap) option" where
  "xremove m key =
     (let index = home (arr_size m) key
      in if holds (hm_data m ! index) key then Some (take_entry m index)
         else (case find_from (hm_data m) (arr_size m) key index index of
                 None \<Rightarrow> None
               | Some None \<Rightarrow> Some (None, m)
               | Some (Some i) \<Rightarrow> Some (take_entry m i)))"

text \<open>
  \<open>destroyHashmap\<close>: the objects it frees, in order. The bucket array is freed only when the
  map is not empty.
\<close>

datatype block = KeyBlock nat | ValueBlock nat | EntryBlock nat | BucketArray | MapStruct

definition destroyHashmap :: "hashmap \<Rightarrow> block list" where
  "destroyHashmap m =
     concat (map (\<lambda>i. case hm_data m ! i of None \<Rightarrow> []
                      | Some e \<Rightarrow> [KeyBlock (kaddr (e_key e)), ValueBlock i, EntryBlock i])
              [0..<arr_size m])
     @ (if hm_size m > 0 then [BucketArray] else []) @ [MapStruct]"

text \<open>
  \<open>perror_if\<close>: nothing when the condition is false; otherwise the map is destroyed (the result
  is what is freed) and the program exits. It is called with a null map where there is none yet;
  \<open>destroyHashmap\<close> only tests the address of the variable.
\<close>

definition perror_if :: "bool \<Rightarrow> hashmap option \<Rightarrow> block list option cres" where
  "perror_if cond map_arg =
     (if \<not> cond then Inr None
      else case map_arg of None \<Rightarrow> Inl NullDeref | Some m \<Rightarrow> Inr (Some (destroyHashmap m)))"

lemma perror_without_map_crashes: "perror_if True None = Inl NullDeref"
  by (simp add: perror_if_def)

section \<open>Float arithmetic on bucket counts\<close>

lemma ilog2_bounds: "0 < n \<Longrightarrow> 2 ^ ilog2 n \<le> n \<and> n < 2 * 2 ^ ilog2 n"
proof (induction n rule: ilog2.induct)
  case (1 n)
  show ?case
  proof (cases "n < 2")
    case True
    with "1.prems" show ?thesis by (simp add: ilog2.simps [of n])
  next
    case False
    then have "2 ^ ilog2 (n div 2) \<le> n div 2 \<and> n div 2 < 2 * 2 ^ ilog2 (n div 2)"
      using "1.IH" by simp
    moreover have "2 * (n div 2) \<le> n" and "n < 2 * (n div 2) + 2" by simp_all
    ultimately have "2 * 2 ^ ilog2 (n div 2) \<le> n" and "n < 2 * (2 * 2 ^ ilog2 (n div 2))"
      by linarith+
    with False show ?thesis by (simp add: ilog2.simps [of n])
  qed
qed

text \<open>A number with at most 24 significant bits is a \<open>float\<close>.\<close>

lemma rnd24_exact:
  assumes "a < 2 ^ 24"
  shows "rnd24 (a * 2 ^ k) = a * 2 ^ k"
proof (cases "a * 2 ^ k < 2 ^ 24")
  case False
  define n where "n = a * 2 ^ k"
  define s where "s = ilog2 n - 23"
  have n: "0 < n" using False by (cases n) (auto simp: n_def)
  have "n < 2 ^ 24 * 2 ^ k" using assms by (simp add: n_def)
  then have "2 ^ ilog2 n < (2::nat) ^ (24 + k)"
    using ilog2_bounds [OF n] by (simp add: power_add)
  then have "ilog2 n < 24 + k" by (rule power_less_imp_less_exp [rotated]) simp
  then have "s \<le> k" by (simp add: s_def)
  then have dvd: "2 ^ s dvd n" by (simp add: n_def le_imp_power_dvd)
  then have "n mod 2 ^ s = 0" and "n div 2 ^ s * 2 ^ s = n" by simp_all
  then show ?thesis
    using False unfolding n_def [symmetric] rnd24_def by (simp add: Let_def flip: s_def)
qed (simp add: rnd24_def)

text \<open>
  The configuration the word counter uses: load factor 0.5, multiplier 2, and a bucket count
  \<open>100 * 2 ^ j\<close>. All its float arithmetic is exact.
\<close>

definition std_config :: "hashmap \<Rightarrow> bool" where
  "std_config m \<longleftrightarrow> loadFactor m = (1, 1) \<and> multiplier m = (2, 0) \<and>
     (\<exists>j. arr_size m = 100 * 2 ^ j) \<and> hm_limit m = arr_size m div 2"

lemma bucket_count_exact: "rnd24 (100 * 2 ^ j) = 100 * 2 ^ j"
  by (rule rnd24_exact) simp

lemma createHashmap_std:
  assumes "100 * 2 ^ j < (2::nat) ^ 32"
  shows "createHashmap (100 * 2 ^ j) (1, 1) (2, 0) =
    Inr \<lparr>hm_data = replicate (100 * 2 ^ j) None, hm_size = 0, arr_size = 100 * 2 ^ j,
         hm_limit = 50 * 2 ^ j, loadFactor = (1, 1), multiplier = (2, 0)\<rparr>"
  using assms
  by (simp add: createHashmap_def INITIAL_SIZE_def LOAD_FACTOR_def MULTIPLIER_def f32_le_def
      f32_mul_def f32_of_nat_def f32_trunc_def bucket_count_exact Let_def)

lemma createHashmap_first:
  "createHashmap 2 (1, 1) (2, 0) =
    Inr \<lparr>hm_data = replicate (100 * 2 ^ 0) None, hm_size = 0, arr_size = 100 * 2 ^ 0,
         hm_limit = 50 * 2 ^ 0, loadFactor = (1, 1), multiplier = (2, 0)\<rparr>"
  using createHashmap_std [of 0] by (simp add: createHashmap_def INITIAL_SIZE_def)

section \<open>The probe loops\<close>

declare probe_free.simps [code] find_from.simps [code]

lemma wrap_next:
  assumes "init < n"
  shows "(if (init + d) mod n + 1 \<ge> n then 0 else (init + d) mod n + 1) = (init + Suc d) mod n"
proof -
  have "(init + d) mod n < n" using assms by simp
  then show ?thesis using mod_wrap_step [of "(init + d) mod n" n]
    by (simp add: mod_Suc_eq)
qed

text \<open>The loop of \<open>raw_put\<close> ends at the first free bucket after its start.\<close>

lemma probe_free_reaches:
  assumes "init < n" and "data ! ((init + d + k) mod n) = None"
    and "\<And>i. i < k \<Longrightarrow> data ! ((init + d + i) mod n) \<noteq> None"
  shows "probe_free data n ((init + d) mod n) = Some ((init + d + k) mod n)"
  using assms(2,3)
proof (induction k arbitrary: d)
  case 0
  then show ?case by (subst probe_free.simps) simp
next
  case (Suc k)
  have "data ! ((init + d) mod n) \<noteq> None" using Suc.prems(2) [of 0] by simp
  moreover have "probe_free data n ((init + Suc d) mod n) = Some ((init + Suc d + k) mod n)"
    using Suc.prems(1) Suc.prems(2) [of "Suc _"] by (intro Suc.IH) auto
  ultimately show ?case
    by (subst probe_free.simps) (simp only: wrap_next [OF assms(1)], simp)
qed

text \<open>It does not end on a full table.\<close>

lemma probe_free_returns_free: "probe_free data n i = Some j \<Longrightarrow> data ! j = None"
proof (rule probe_free.raw_induct [where P = "\<lambda>data n i j. data ! j = None"])
  fix f :: "entry option list \<Rightarrow> nat \<Rightarrow> nat \<Rightarrow> nat option" and data n i j
  assume "\<And>data n i j. f data n i = Some j \<Longrightarrow> data ! j = None"
    and "(if data ! i \<noteq> None then f data n (if i + 1 \<ge> n then 0 else i + 1) else Some i) = Some j"
  then show "data ! j = None" by (auto split: if_splits)
qed

text \<open>The search loop visits every bucket once and finds the first that holds the key.\<close>

lemma find_from_scan:
  assumes "init < n" and "d < n"
  shows "find_from data n key init ((init + d) mod n) =
    Some (map_option (\<lambda>k. (init + k) mod n) (find (\<lambda>k. holds (data ! ((init + k) mod n)) key) [d..<n]))"
  using assms(2)
proof (induction "n - d" arbitrary: d)
  case 0
  then show ?case by simp
next
  case (Suc x)
  have up: "[d..<n] = d # [Suc d..<n]" using Suc.prems by (simp add: upt_conv_Cons)
  show ?case
  proof (cases "holds (data ! ((init + d) mod n)) key")
    case True
    then show ?thesis by (subst find_from.simps) (simp add: up)
  next
    case False
    show ?thesis
    proof (cases "Suc d < n")
      case True
      then have "(init + Suc d) mod n \<noteq> (init + 0) mod n"
        using assms(1) by (subst mod_shift_inj) auto
      then have "(init + Suc d) mod n \<noteq> init" using assms(1) by simp
      with False True show ?thesis
        using Suc.hyps(1) [of "Suc d"] Suc.hyps(2)
        by (subst find_from.simps) (simp only: wrap_next [OF assms(1)] Let_def if_False up, simp)
    next
      case False': False
      then have "Suc d = n" using Suc.prems by simp
      then have "(init + Suc d) mod n = init" using assms(1) by simp
      with False False' show ?thesis
        by (subst find_from.simps) (simp only: wrap_next [OF assms(1)] Let_def if_False up, simp)
    qed
  qed
qed

section \<open>The table invariant\<close>

definition entries :: "entry option list \<Rightarrow> entry list" where
  "entries data = List.map_filter id data"

definition ekey :: "entry \<Rightarrow> string" where
  "ekey e = kstr (e_key e)"

definition slot :: "nat \<Rightarrow> string \<Rightarrow> nat \<Rightarrow> nat" where
  "slot n k d = (home n k + d) mod n"

text \<open>
  An entry is chained when every bucket that its probe sequence visits before it is taken.
\<close>

definition chained :: "entry option list \<Rightarrow> nat \<Rightarrow> entry \<Rightarrow> bool" where
  "chained data i e \<longleftrightarrow>
     (\<exists>d < length data. i = slot (length data) (ekey e) d \<and>
        (\<forall>d' < d. data ! slot (length data) (ekey e) d' \<noteq> None))"

definition table_ok :: "entry option list \<Rightarrow> bool" where
  "table_ok data \<longleftrightarrow> data \<noteq> [] \<and> distinct (map ekey (entries data)) \<and>
     (\<forall>i < length data. \<forall>e. data ! i = Some e \<longrightarrow> chained data i e)"

definition hm_inv :: "hashmap \<Rightarrow> bool" where
  "hm_inv m \<longleftrightarrow> table_ok (hm_data m) \<and> arr_size m = length (hm_data m) \<and>
     hm_size m = length (entries (hm_data m))"

text \<open>The dictionary that a table stands for.\<close>

definition tab_abs :: "entry option list \<Rightarrow> string \<rightharpoonup> u64" where
  "tab_abs data = map_of (map (\<lambda>e. (ekey e, e_val e)) (entries data))"

definition hm_abs :: "hashmap \<Rightarrow> string \<rightharpoonup> u64" where
  "hm_abs m = tab_abs (hm_data m)"

lemma entries_simps [simp]:
  "entries [] = []" "entries (None # xs) = entries xs" "entries (Some e # xs) = e # entries xs"
  "entries (xs @ ys) = entries xs @ entries ys" "entries (replicate n None) = []"
  by (simp_all add: entries_def map_filter_def)

lemma set_entries: "set (entries data) = {e. Some e \<in> set data}"
proof (induction data)
  case (Cons b data)
  then show ?case by (cases b) auto
qed simp

lemma set_entries_nth: "e \<in> set (entries data) \<longleftrightarrow> (\<exists>i < length data. data ! i = Some e)"
  by (auto simp: set_entries in_set_conv_nth)

lemma length_entries_le: "length (entries data) \<le> length data"
proof (induction data)
  case (Cons b data)
  then show ?case by (cases b) auto
qed simp

lemma entries_full: "(\<forall>b \<in> set data. b \<noteq> None) \<Longrightarrow> length (entries data) = length data"
proof (induction data)
  case (Cons b data)
  then show ?case by (cases b) auto
qed simp

lemma entries_split:
  assumes "i < length data"
  shows "entries data = entries (take i data) @ entries [data ! i] @ entries (drop (Suc i) data)"
  using id_take_nth_drop [OF assms] by (metis append_Cons append_Nil entries_simps(4))

lemma entries_upd:
  assumes "i < length data"
  shows "entries (data[i := b]) = entries (take i data) @ entries [b] @ entries (drop (Suc i) data)"
  using upd_conv_take_nth_drop [OF assms] by (metis append_Cons append_Nil entries_simps(4))

lemma mset_entries_put:
  "i < length data \<Longrightarrow> data ! i = None \<Longrightarrow>
   mset (entries (data[i := Some e])) = add_mset e (mset (entries data))"
  by (subst entries_upd, assumption, subst (3) entries_split, assumption) simp

lemma mset_entries_take:
  "i < length data \<Longrightarrow> data ! i = Some e \<Longrightarrow>
   mset (entries data) = add_mset e (mset (entries (data[i := None])))"
  by (subst entries_upd, assumption, subst entries_split, assumption) simp

lemma distinct_ekey_mset:
  "mset xs = mset ys \<Longrightarrow> distinct (map ekey xs) \<longleftrightarrow> distinct (map ekey ys)"
  by (metis mset_eq_imp_distinct_iff mset_map)

lemma tab_abs_eq_Some:
  assumes "distinct (map ekey (entries data))"
  shows "tab_abs data k = Some v \<longleftrightarrow> (\<exists>e \<in> set (entries data). ekey e = k \<and> e_val e = v)"
proof -
  have "distinct (map fst (map (\<lambda>e. (ekey e, e_val e)) (entries data)))"
    using assms by (simp add: comp_def)
  then show ?thesis unfolding tab_abs_def
    by (subst map_of_eq_Some_iff) auto
qed

lemma tab_abs_eq_None: "tab_abs data k = None \<longleftrightarrow> k \<notin> ekey ` set (entries data)"
  unfolding tab_abs_def by (auto simp: map_of_eq_None_iff image_image)

lemma tab_abs_put:
  assumes "mset (entries data') = add_mset e (mset (entries data))"
    and "distinct (map ekey (entries data'))"
  shows "tab_abs data' = (tab_abs data)(ekey e \<mapsto> e_val e)"
proof -
  have m: "mset (entries data') = mset (e # entries data)" using assms(1) by simp
  then have d: "distinct (map ekey (e # entries data))"
    using assms(2) distinct_ekey_mset by blast
  have set: "set (entries data') = set (e # entries data)" using m by (rule mset_eq_setD)
  have "tab_abs data' = map_of (map (\<lambda>e. (ekey e, e_val e)) (e # entries data))"
    unfolding tab_abs_def using assms(2) d set
    by (subst map_of_inject_set) (auto simp: comp_def)
  then show ?thesis by (simp add: tab_abs_def)
qed

lemma tab_abs_add:
  assumes "mset (entries data') = add_mset e (mset (entries data))"
    and "distinct (map ekey (entries data))" and "tab_abs data (ekey e) = None"
  shows "distinct (map ekey (entries data'))"
proof -
  have "distinct (map ekey (e # entries data))"
    using assms(2,3) by (simp add: tab_abs_eq_None)
  moreover have "mset (entries data') = mset (e # entries data)" using assms(1) by simp
  ultimately show ?thesis using distinct_ekey_mset by blast
qed

lemma slot_less [simp]: "0 < n \<Longrightarrow> slot n k d < n"
  by (simp add: slot_def)

lemma slot_bound: "i < n \<Longrightarrow> slot n k d < n"
  by (intro slot_less) simp

lemma slot_0 [simp]: "0 < n \<Longrightarrow> slot n k 0 = home n k"
  by (simp add: slot_def home_def)

lemma slot_inj: "i < n \<Longrightarrow> j < n \<Longrightarrow> slot n k i = slot n k j \<longleftrightarrow> i = j"
  unfolding slot_def by (rule mod_shift_inj)

lemma slot_surj: "i < n \<Longrightarrow> \<exists>d < n. slot n k d = i"
  unfolding slot_def by (rule mod_shift_surj)

lemma home_less [simp]: "0 < n \<Longrightarrow> home n k < n"
  by (simp add: home_def)

lemma holds_iff: "holds b k \<longleftrightarrow> (\<exists>e. b = Some e \<and> ekey e = k)"
  by (auto simp: holds_def ekey_def split: option.split)

section \<open>Lookups\<close>

lemma table_unique:
  assumes "table_ok data" "i < length data" "j < length data"
    and "holds (data ! i) k" "holds (data ! j) k"
  shows "i = j"
proof (rule ccontr)
  assume neq: "i \<noteq> j"
  obtain e e' where e: "data ! i = Some e" "ekey e = k" "data ! j = Some e'" "ekey e' = k"
    using assms(4,5) by (auto simp: holds_iff)
  have "mset (entries data) = add_mset e (mset (entries (data[i := None])))"
    using assms(2) e(1) by (rule mset_entries_take)
  then have "mset (entries data) = mset (e # entries (data[i := None]))" by simp
  then have "distinct (map ekey (e # entries (data[i := None])))"
    using assms(1) distinct_ekey_mset unfolding table_ok_def by blast
  moreover have "e' \<in> set (entries (data[i := None]))"
    using neq e(3) assms(3) by (auto simp: set_entries_nth intro!: exI [of _ j])
  ultimately show False using e(2,4) by (auto simp: image_iff)
qed

lemma table_lookup:
  assumes "table_ok data" "i < length data" "data ! i = Some e"
  shows "tab_abs data (ekey e) = Some (e_val e)"
proof -
  have "e \<in> set (entries data)" using assms(2,3) by (auto simp: set_entries_nth)
  then show ?thesis using assms(1) by (subst tab_abs_eq_Some) (auto simp: table_ok_def)
qed

lemma table_absent:
  "tab_abs data k = None \<longleftrightarrow> (\<forall>i < length data. \<not> holds (data ! i) k)"
  unfolding tab_abs_eq_None image_iff Bex_def set_entries_nth holds_iff by blast

lemma find_map_gen: "find P (map f xs) = map_option f (find (P \<circ> f) xs)"
  by (induction xs) auto

text \<open>The whole search: the bucket of the key, if there is one.\<close>

definition search :: "entry option list \<Rightarrow> string \<Rightarrow> nat option" where
  "search data k = find (\<lambda>i. holds (data ! i) k) (map (slot (length data) k) [0..<length data])"

lemma find_from_search:
  assumes "data \<noteq> []"
  shows "find_from data (length data) k (home (length data) k) (home (length data) k) =
    Some (search data k)"
proof -
  let ?n = "length data"
  have "0 < ?n" using assms by simp
  then show ?thesis
    using find_from_scan [of "home ?n k" ?n 0 data k]
    by (simp add: search_def find_map_gen slot_def [abs_def] comp_def)
qed

lemma find_SomeD: "find P xs = Some x \<Longrightarrow> x \<in> set xs \<and> P x"
  by (auto simp: find_Some_iff)

lemma slots_cover: "slot n k ` {0..<n} = {0..<n}"
proof (cases n)
  case (Suc m)
  have "\<exists>d \<in> {0..<n}. i = slot n k d" if "i < n" for i
    using slot_surj [OF that, of k] by force
  then show ?thesis using Suc by (auto simp: image_iff)
qed simp

lemma search_None: "search data k = None \<longleftrightarrow> tab_abs data k = None"
proof -
  have "search data k = None \<longleftrightarrow> (\<forall>i \<in> slot (length data) k ` {0..<length data}. \<not> holds (data ! i) k)"
    by (simp add: search_def find_None_iff)
  then show ?thesis unfolding slots_cover table_absent by (simp add: Ball_def)
qed

lemma search_Some:
  assumes "search data k = Some i"
  shows "i < length data" and "holds (data ! i) k"
proof -
  have "i \<in> slot (length data) k ` {0..<length data} \<and> holds (data ! i) k"
    using find_SomeD [OF assms [unfolded search_def]] by simp
  then show "i < length data" and "holds (data ! i) k" unfolding slots_cover by simp_all
qed

lemma home_empty_absent:
  assumes "table_ok data" "data ! home (length data) k = None"
  shows "tab_abs data k = None"
proof (rule ccontr)
  assume "tab_abs data k \<noteq> None"
  then obtain i e where i: "i < length data" "data ! i = Some e" "ekey e = k"
    by (auto simp: table_absent holds_iff)
  then obtain d where d: "d < length data" "i = slot (length data) k d"
      "\<forall>d' < d. data ! slot (length data) k d' \<noteq> None"
    using assms(1) by (auto simp: table_ok_def chained_def)
  have "0 < length data" using i(1) by auto
  then show False
    using d i(2) assms(2) by (cases d) auto
qed

lemma get_correct:
  assumes "hm_inv m"
  shows "get m k = Some (hm_abs m k)"
proof -
  let ?d = "hm_data m" and ?n = "length (hm_data m)"
  have ok: "table_ok ?d" and n: "arr_size m = ?n" and ne: "?d \<noteq> []"
    using assms by (auto simp: hm_inv_def table_ok_def)
  then have hl: "home ?n k < ?n" by simp
  show ?thesis
  proof (cases "?d ! home ?n k")
    case None
    then show ?thesis
      using home_empty_absent [OF ok None] by (simp add: get_def hm_abs_def n Let_def)
  next
    case (Some e)
    show ?thesis
    proof (cases "ekey e = k")
      case True
      then show ?thesis using table_lookup [OF ok hl Some] Some
        by (simp add: get_def hm_abs_def n Let_def ekey_def)
    next
      case False
      show ?thesis
      proof (cases "search ?d k")
        case None
        then have "hm_abs m k = None" by (simp add: search_None hm_abs_def)
        with None show ?thesis using Some False find_from_search [OF ne, of k]
          by (simp add: get_def n Let_def ekey_def)
      next
        case (Some i)
        note i = search_Some [OF this]
        then obtain e' where e': "?d ! i = Some e'" "ekey e' = k" by (auto simp: holds_iff)
        show ?thesis
          using Some \<open>?d ! home ?n k = Some e\<close> False find_from_search [OF ne, of k] e'
            table_lookup [OF ok i(1) e'(1)]
          by (simp add: get_def hm_abs_def n Let_def ekey_def)
      qed
    qed
  qed
qed

section \<open>Insertion and growth\<close>

text \<open>An entry that stays in its bucket stays chained when no taken bucket becomes free.\<close>

lemma chained_mono:
  assumes "chained data i e" "length data' = length data"
    and "\<And>j. j < length data \<Longrightarrow> data ! j \<noteq> None \<Longrightarrow> data' ! j \<noteq> None"
  shows "chained data' i e"
proof -
  obtain d where d: "d < length data" "i = slot (length data) (ekey e) d"
      "\<forall>d' < d. data ! slot (length data) (ekey e) d' \<noteq> None"
    using assms(1) by (auto simp: chained_def)
  have "slot (length data) (ekey e) d' < length data" for d'
    using d(1) by (rule slot_bound)
  then show ?thesis using d assms(2,3) unfolding chained_def by (intro exI [of _ d]) auto
qed

text \<open>The entry put at the first free bucket of its probe sequence keeps the table in order.\<close>

lemma table_put:
  assumes ok: "table_ok data" and n: "n = length data" and d: "d < n"
    and free: "data ! slot n (ekey e) d = None"
    and taken: "\<And>d'. d' < d \<Longrightarrow> data ! slot n (ekey e) d' \<noteq> None"
    and fresh: "tab_abs data (ekey e) = None"
  shows "table_ok (data[slot n (ekey e) d := Some e])" (is "table_ok ?data")
proof -
  let ?i = "slot n (ekey e) d"
  have i: "?i < length data" using n d by (simp add: slot_bound)
  have m: "mset (entries ?data) = add_mset e (mset (entries data))"
    using i free by (rule mset_entries_put)
  have dist: "distinct (map ekey (entries ?data))"
    using ok fresh by (intro tab_abs_add [OF m]) (auto simp: table_ok_def)
  have keep: "?data ! j \<noteq> None" if "j < length data" "data ! j \<noteq> None" for j
    using that i by (cases "j = ?i") auto
  have "chained ?data j e'" if j: "j < length ?data" "?data ! j = Some e'" for j e'
  proof (cases "j = ?i")
    case True
    then have e: "e' = e" using j i by simp
    have "?data ! slot n (ekey e) d' \<noteq> None" if "d' < d" for d'
      using taken [OF that] d n by (intro keep) (auto simp: slot_bound)
    then show ?thesis using d n True e unfolding chained_def by (intro exI [of _ d]) auto
  next
    case False
    then have "chained data j e'" using j ok by (auto simp: table_ok_def)
    then show ?thesis by (rule chained_mono) (use keep in auto)
  qed
  with ok dist show ?thesis by (auto simp: table_ok_def)
qed

text \<open>The first free bucket of a probe sequence, in a table with room.\<close>

lemma first_free:
  assumes "length (entries data) < length data"
  obtains d where "d < length data" "data ! slot (length data) k d = None"
    "\<And>d'. d' < d \<Longrightarrow> data ! slot (length data) k d' \<noteq> None"
proof -
  have "\<exists>i < length data. data ! i = None"
    using assms entries_full [of data] by (metis in_set_conv_nth less_irrefl)
  then have ex: "\<exists>d. d < length data \<and> data ! slot (length data) k d = None"
    using slot_surj [of _ "length data" k] by metis
  define d where "d = (LEAST d. d < length data \<and> data ! slot (length data) k d = None)"
  have "d < length data \<and> data ! slot (length data) k d = None"
    unfolding d_def using ex by (rule LeastI_ex)
  moreover have "data ! slot (length data) k d' \<noteq> None" if "d' < d" for d'
    using not_less_Least [OF that [unfolded d_def]] that calculation by auto
  ultimately show thesis using that by blast
qed

definition same_shape :: "hashmap \<Rightarrow> hashmap \<Rightarrow> bool" where
  "same_shape m m' \<longleftrightarrow> arr_size m' = arr_size m \<and> hm_limit m' = hm_limit m \<and>
     loadFactor m' = loadFactor m \<and> multiplier m' = multiplier m"

definition adds :: "hashmap \<Rightarrow> entry list \<Rightarrow> hashmap \<Rightarrow> bool" where
  "adds m es m' \<longleftrightarrow> hm_inv m' \<and> mset (entries (hm_data m')) = mset es + mset (entries (hm_data m))"

lemma adds_size: "hm_inv m \<Longrightarrow> adds m es m' \<Longrightarrow> hm_size m' = length es + hm_size m"
  unfolding adds_def hm_inv_def by (metis mset_append size_mset length_append)

text \<open>What the two branches of \<open>raw_put\<close> under the limit have in common.\<close>

lemma raw_put_probe:
  assumes "arr_size m = length (hm_data m)" "hm_size m \<le> hm_limit m" "d < arr_size m"
    and "hm_data m ! slot (arr_size m) (ekey e) d = None"
    and "\<And>d'. d' < d \<Longrightarrow> hm_data m ! slot (arr_size m) (ekey e) d' \<noteq> None"
  shows "raw_put (Suc fuel) m e =
    Some (Inr (m\<lparr>hm_data := (hm_data m)[slot (arr_size m) (ekey e) d := Some e],
                hm_size := Suc (hm_size m)\<rparr>))"
proof -
  let ?n = "arr_size m" and ?h = "home (arr_size m) (ekey e)"
  have h: "?h < ?n" using assms(3) by (intro home_less) simp
  have p: "probe_free (hm_data m) ?n ?h = Some (slot ?n (ekey e) d)"
    using probe_free_reaches [OF h, of "hm_data m" 0 d] assms(4,5) h by (simp add: slot_def)
  show ?thesis
  proof (cases "hm_data m ! ?h = None")
    case True
    then have "d = 0" using assms(5) [of 0] h by (cases d) auto
    then show ?thesis using True assms(2) h by (simp add: ekey_def)
  next
    case False
    then show ?thesis using p assms(2) by (auto simp: ekey_def Let_def)
  qed
qed

lemma raw_put_add:
  assumes "hm_inv m" "hm_size m \<le> hm_limit m" "hm_limit m < arr_size m"
    and "tab_abs (hm_data m) (ekey e) = None"
  shows "\<exists>m'. raw_put (Suc fuel) m e = Some (Inr m') \<and> adds m [e] m' \<and> same_shape m m'"
proof -
  let ?n = "length (hm_data m)"
  have n: "arr_size m = ?n" and ok: "table_ok (hm_data m)"
    and sz: "hm_size m = length (entries (hm_data m))" using assms(1) by (auto simp: hm_inv_def)
  then have "length (entries (hm_data m)) < ?n" using assms(2,3) by simp
  then obtain d where d: "d < ?n" "hm_data m ! slot ?n (ekey e) d = None"
      "\<And>d'. d' < d \<Longrightarrow> hm_data m ! slot ?n (ekey e) d' \<noteq> None"
    by (rule first_free [of _ "ekey e"]) blast
  let ?m = "m\<lparr>hm_data := (hm_data m)[slot ?n (ekey e) d := Some e], hm_size := Suc (hm_size m)\<rparr>"
  have i: "slot ?n (ekey e) d < ?n" using d(1) by (rule slot_bound)
  have ms: "mset (entries (hm_data ?m)) = add_mset e (mset (entries (hm_data m)))"
    using mset_entries_put [OF i d(2)] by simp
  have "table_ok (hm_data ?m)"
    using table_put [OF ok refl d(1,2) d(3) assms(4)] by simp
  moreover have "hm_size ?m = length (entries (hm_data ?m))"
    using arg_cong [OF ms, of size] sz by simp
  ultimately have "adds m [e] ?m" using ms n by (simp add: adds_def hm_inv_def)
  moreover have "raw_put (Suc fuel) m e = Some (Inr ?m)"
    using raw_put_probe [OF n assms(2), of d e fuel] d n by simp
  ultimately show ?thesis by (auto simp: same_shape_def)
qed

lemma put_all_adds:
  assumes "hm_inv m" "hm_size m + length (entries xs) \<le> Suc (hm_limit m)" "hm_limit m < arr_size m"
    and "distinct (map ekey (entries xs @ entries (hm_data m)))"
  shows "\<exists>m'. put_all (Suc fuel) m xs = Some (Inr m') \<and> adds m (entries xs) m' \<and> same_shape m m'"
  using assms
proof (induction xs arbitrary: m)
  case Nil
  then show ?case by (simp add: adds_def same_shape_def)
next
  case (Cons b xs)
  show ?case
  proof (cases b)
    case None
    then show ?thesis using Cons by simp
  next
    case (Some e)
    have "tab_abs (hm_data m) (ekey e) = None"
      using Cons.prems(4) Some by (auto simp: tab_abs_eq_None)
    then obtain m1 where m1: "raw_put (Suc fuel) m e = Some (Inr m1)" "adds m [e] m1"
        "same_shape m m1"
      using raw_put_add [OF Cons.prems(1) _ Cons.prems(3)] Cons.prems(2) Some by auto
    have ms: "mset (entries (hm_data m1)) = add_mset e (mset (entries (hm_data m)))"
      and inv: "hm_inv m1" using m1(2) by (simp_all add: adds_def)
    have "mset (entries xs @ entries (hm_data m1)) = mset (entries (b # xs) @ entries (hm_data m))"
      using ms Some by simp
    then have "distinct (map ekey (entries xs @ entries (hm_data m1)))"
      using Cons.prems(4) distinct_ekey_mset by blast
    moreover have "hm_size m1 + length (entries xs) \<le> Suc (hm_limit m1)"
      using adds_size [OF Cons.prems(1) m1(2)] Cons.prems(2) m1(3) Some by (simp add: same_shape_def)
    moreover have "hm_limit m1 < arr_size m1"
      using m1(3) Cons.prems(3) by (simp add: same_shape_def)
    ultimately obtain m2 where "put_all (Suc fuel) m1 xs = Some (Inr m2)"
        "adds m1 (entries xs) m2" "same_shape m1 m2"
      using Cons.IH [OF inv] by blast
    then show ?thesis using m1 ms Some by (auto simp: adds_def same_shape_def)
  qed
qed

text \<open>
  What the word counter keeps true of its map between two words. The bucket count grows only
  when the map is more than half full, which bounds it by the number of entries.
\<close>

definition good :: "hashmap \<Rightarrow> bool" where
  "good m \<longleftrightarrow> hm_inv m \<and> std_config m \<and> hm_size m \<le> Suc (hm_limit m) \<and>
     (arr_size m = 100 \<or> arr_size m \<le> 4 * hm_size m)"

lemma std_arr: "std_config m \<Longrightarrow> \<exists>j. arr_size m = 100 * 2 ^ j \<and> hm_limit m = 50 * 2 ^ j"
  unfolding std_config_def by (metis nat_mult_div_cancel_disj div_mult_self1_is_m
      mult.assoc mult_2 nonzero_mult_div_cancel_left numeral_Bit0 zero_neq_numeral)

definition empty_std :: "nat \<Rightarrow> hashmap" where
  "empty_std j = \<lparr>hm_data = replicate (100 * 2 ^ j) None, hm_size = 0, arr_size = 100 * 2 ^ j,
     hm_limit = 50 * 2 ^ j, loadFactor = (1, 1), multiplier = (2, 0)\<rparr>"

lemma empty_std_facts:
  "hm_inv (empty_std j)" "entries (hm_data (empty_std j)) = []" "hm_size (empty_std j) = 0"
  "arr_size (empty_std j) = 100 * 2 ^ j" "hm_limit (empty_std j) = 50 * 2 ^ j"
  "std_config (empty_std j)"
  by (simp_all add: empty_std_def hm_inv_def table_ok_def std_config_def)

lemma std_config_same: "std_config m \<Longrightarrow> same_shape m m' \<Longrightarrow> std_config m'"
  by (simp add: std_config_def same_shape_def)

lemma rehash_adds:
  assumes g: "good m" and full: "hm_size m = Suc (hm_limit m)" and small: "2 * arr_size m < 2 ^ 32"
    and fresh: "tab_abs (hm_data m) (ekey e) = None"
  shows "\<exists>m'. rehashUp (Suc fuel) m e = Some (Inr m') \<and> adds m [e] m' \<and> std_config m' \<and>
           hm_size m' \<le> Suc (hm_limit m') \<and> arr_size m' \<le> 4 * hm_size m'"
proof -
  have inv: "hm_inv m" and std: "std_config m" using g by (auto simp: good_def)
  obtain j where j: "arr_size m = 100 * 2 ^ j" "hm_limit m = 50 * 2 ^ j" using std_arr [OF std] by blast
  let ?n = "empty_std (Suc j)" and ?xs = "hm_data m"
  have "f32_trunc (f32_mul (f32_of_nat (arr_size m)) (multiplier m)) = 100 * 2 ^ Suc j"
    using std bucket_count_exact [of j] bucket_count_exact [of "Suc j"] j
    by (simp add: std_config_def f32_trunc_def f32_mul_def f32_of_nat_def mult.assoc mult.commute)
  moreover have b: "100 * 2 ^ Suc j < (2::nat) ^ 32" using small j by simp
  moreover have "createHashmap (100 * 2 ^ Suc j) (loadFactor m) (multiplier m) = Inr ?n"
    using std createHashmap_std [OF b] by (simp add: std_config_def empty_std_def)
  moreover have "\<not> 100 * 2 ^ Suc j \<ge> (2::nat) ^ 64"
    using b by (intro notI) (drule (1) order.strict_trans1 [rotated], simp)
  ultimately have eq: "rehashUp (Suc fuel) m e =
      bindR (put_all (Suc fuel) ?n ?xs) (\<lambda>newMap. raw_put (Suc fuel) newMap e)"
    by (simp add: Let_def)
  have sz: "length (entries ?xs) = Suc (50 * 2 ^ j)" using inv full j by (simp add: hm_inv_def)
  have p: "1 \<le> (2::nat) ^ j" by simp
  have dist: "distinct (map ekey (entries ?xs))" using inv by (simp add: hm_inv_def table_ok_def)
  have "\<exists>m1. put_all (Suc fuel) ?n ?xs = Some (Inr m1) \<and> adds ?n (entries ?xs) m1 \<and> same_shape ?n m1"
    using sz p dist by (intro put_all_adds) (simp_all add: empty_std_facts)
  then obtain m1 where m1: "put_all (Suc fuel) ?n ?xs = Some (Inr m1)" "adds ?n (entries ?xs) m1"
      "same_shape ?n m1" by blast
  have inv1: "hm_inv m1" and ms1: "mset (entries (hm_data m1)) = mset (entries ?xs)"
    using m1(2) by (auto simp: adds_def empty_std_facts)
  have shape1: "arr_size m1 = 200 * 2 ^ j" "hm_limit m1 = 100 * 2 ^ j" "std_config m1"
    using m1(3) empty_std_facts [of "Suc j"] std_config_same by (auto simp: same_shape_def)
  have sz1: "hm_size m1 = Suc (50 * 2 ^ j)"
    using adds_size [OF empty_std_facts(1) m1(2)] sz by (simp add: empty_std_facts)
  have fresh1: "tab_abs (hm_data m1) (ekey e) = None"
    using fresh mset_eq_setD [OF ms1] by (simp add: tab_abs_eq_None)
  obtain m2 where m2: "raw_put (Suc fuel) m1 e = Some (Inr m2)" "adds m1 [e] m2" "same_shape m1 m2"
    using raw_put_add [OF inv1 _ _ fresh1] sz1 shape1 p by auto
  have "hm_size m2 = Suc (Suc (50 * 2 ^ j))" using adds_size [OF inv1 m2(2)] sz1 by simp
  then show ?thesis
    using eq m1(1) m2 ms1 shape1 std_config_same [OF shape1(3) m2(3)] p
    by (auto simp: adds_def same_shape_def)
qed

text \<open>Insertion of a new key: it always returns, and adds exactly that key.\<close>

lemma put_adds:
  assumes g: "good m" and small: "hm_size m < 2 ^ 29" and fresh: "hm_abs m (kstr key) = None"
  shows "\<exists>m'. put m key val = Some (Inr m') \<and> good m' \<and> adds m [\<lparr>e_key = key, e_val = val\<rparr>] m'"
proof -
  let ?e = "\<lparr>e_key = key, e_val = val\<rparr>"
  have inv: "hm_inv m" and std: "std_config m" using g by (auto simp: good_def)
  obtain j where j: "arr_size m = 100 * 2 ^ j" "hm_limit m = 50 * 2 ^ j" using std_arr [OF std] by blast
  have fresh': "tab_abs (hm_data m) (ekey ?e) = None" using fresh by (simp add: hm_abs_def ekey_def)
  show ?thesis
  proof (cases "hm_size m \<le> hm_limit m")
    case True
    obtain m' where m': "raw_put (Suc 1) m ?e = Some (Inr m')" "adds m [?e] m'" "same_shape m m'"
      using raw_put_add [OF inv True _ fresh'] j by auto
    have "hm_size m' = Suc (hm_size m)" using adds_size [OF inv m'(2)] by simp
    then have "good m'"
      using m'(2,3) g True std_config_same [OF std m'(3)] by (auto simp: good_def adds_def same_shape_def)
    then show ?thesis using m' by (auto simp: put_def put_fuel_def numeral_2_eq_2 simp del: raw_put.simps)
  next
    case False
    then have full: "hm_size m = Suc (hm_limit m)" using g by (simp add: good_def)
    have "2 * arr_size m < 2 ^ 32" using full small j by simp
    then obtain m' where m': "rehashUp (Suc 0) m ?e = Some (Inr m')" "adds m [?e] m'" "std_config m'"
        "hm_size m' \<le> Suc (hm_limit m')" "arr_size m' \<le> 4 * hm_size m'"
      using rehash_adds [OF g full _ fresh', of 0] by auto
    have "put m key val = rehashUp (Suc 0) m ?e"
      using False by (simp add: put_def put_fuel_def numeral_2_eq_2 Let_def del: rehashUp.simps)
    then show ?thesis using m' by (auto simp: good_def adds_def simp del: rehashUp.simps)
  qed
qed

section \<open>Removal\<close>

text \<open>The bucket that \<open>xremove\<close> empties is the one of the key.\<close>

lemma xremove_takes:
  assumes inv: "hm_inv m" and abs: "hm_abs m k = Some v"
  shows "\<exists>i e. i < arr_size m \<and> hm_data m ! i = Some e \<and> ekey e = k \<and> e_val e = v \<and>
    xremove m k = Some (Some e, m\<lparr>hm_data := (hm_data m)[i := None], hm_size := hm_size m - 1\<rparr>)"
proof -
  let ?d = "hm_data m" and ?n = "length (hm_data m)"
  have n: "arr_size m = ?n" and ok: "table_ok ?d" and ne: "?d \<noteq> []"
    using inv by (auto simp: hm_inv_def table_ok_def)
  have "search ?d k \<noteq> None" using abs by (simp add: search_None hm_abs_def)
  then obtain i where i: "search ?d k = Some i" by blast
  note ii = search_Some [OF i]
  then obtain e where e: "?d ! i = Some e" "ekey e = k" by (auto simp: holds_iff)
  have v: "e_val e = v" using table_lookup [OF ok ii(1) e(1)] abs e(2) by (simp add: hm_abs_def)
  have "xremove m k = Some (take_entry m i)"
  proof (cases "holds (?d ! home ?n k) k")
    case True
    have "home ?n k = i" using ok ne ii True by (intro table_unique [of ?d _ _ k]) auto
    then show ?thesis using True by (simp add: xremove_def n Let_def)
  next
    case False
    then show ?thesis using find_from_search [OF ne, of k] i by (simp add: xremove_def n Let_def)
  qed
  then show ?thesis using ii(1) e v n by (auto simp: take_entry_def)
qed

lemma xremove_absent:
  assumes "hm_inv m" "hm_abs m k = None"
  shows "xremove m k = Some (None, m)"
proof -
  let ?d = "hm_data m" and ?n = "length (hm_data m)"
  have n: "arr_size m = ?n" and ne: "?d \<noteq> []"
    using assms(1) by (auto simp: hm_inv_def table_ok_def)
  have s: "search ?d k = None" using assms(2) by (simp add: search_None hm_abs_def)
  have "\<not> holds (?d ! home ?n k) k"
    using assms(2) ne by (auto simp: hm_abs_def table_absent)
  then show ?thesis using find_from_search [OF ne, of k] s by (simp add: xremove_def n Let_def)
qed

text \<open>
  Removing a key and putting it back at once: the new entry lands in the bucket of the old one,
  so the table stays in order. (Between the two calls it need not be: \<open>remove_loses_key\<close>.)
\<close>

lemma table_swap:
  assumes ok: "table_ok data" and i: "i < length data" "data ! i = Some e" and k: "ekey e' = ekey e"
  shows "table_ok (data[i := Some e'])"
    and "tab_abs (data[i := Some e']) = (tab_abs data)(ekey e \<mapsto> e_val e')"
    and "length (entries (data[i := Some e'])) = length (entries data)"
    and "add_mset e (mset (entries (data[i := Some e']))) = add_mset e' (mset (entries data))"
proof -
  let ?rest = "entries (data[i := None])" and ?data = "data[i := Some e']"
  have ms: "mset (entries data) = add_mset e (mset ?rest)"
    using i by (rule mset_entries_take)
  have "mset (entries (data[i := None, i := Some e'])) = add_mset e' (mset ?rest)"
    using i(1) by (intro mset_entries_put) simp_all
  then have ms': "mset (entries ?data) = add_mset e' (mset ?rest)" by simp
  have "distinct (map ekey (e # ?rest))"
    using ok ms distinct_ekey_mset [of "entries data" "e # ?rest"] by (simp add: table_ok_def)
  then have "distinct (map ekey (e' # ?rest))" using k by simp
  then have dist: "distinct (map ekey (entries ?data))"
    using ms' distinct_ekey_mset [of "entries ?data" "e' # ?rest"] by simp
  have "chained ?data j e''" if j: "j < length ?data" "?data ! j = Some e''" for j e''
  proof -
    obtain f where f: "data ! j = Some f" "ekey f = ekey e''"
      using j i k by (cases "j = i") auto
    then have "chained data j f" using ok j by (simp add: table_ok_def)
    then have "chained data j e''" using f(2) by (simp add: chained_def)
    then show ?thesis by (rule chained_mono) (use i in \<open>auto simp: nth_list_update\<close>)
  qed
  with ok dist show "table_ok ?data" by (auto simp: table_ok_def)
  show "length (entries ?data) = length (entries data)"
    using arg_cong [OF ms, of size] arg_cong [OF ms', of size] by simp
  show "add_mset e (mset (entries ?data)) = add_mset e' (mset (entries data))"
    using ms ms' by simp
  have dist0: "distinct (map ekey (entries data))" using ok by (simp add: table_ok_def)
  have "tab_abs data = (tab_abs (data[i := None]))(ekey e \<mapsto> e_val e)"
    using ms dist0 by (rule tab_abs_put)
  moreover have "tab_abs ?data = (tab_abs (data[i := None]))(ekey e' \<mapsto> e_val e')"
    using ms' dist by (rule tab_abs_put)
  ultimately show "tab_abs ?data = (tab_abs data)(ekey e \<mapsto> e_val e')" using k by simp
qed

lemma remove_put:
  assumes g: "good m" and abs: "hm_abs m k = Some v"
  shows "\<exists>e m1 m2. xremove m k = Some (Some e, m1) \<and> e_val e = v \<and> ekey e = k \<and>
    put m1 (Key a k) val = Some (Inr m2) \<and> good m2 \<and> hm_size m2 = hm_size m \<and>
    hm_abs m2 = (hm_abs m)(k \<mapsto> val) \<and>
    add_mset e (mset (entries (hm_data m2))) =
      add_mset \<lparr>e_key = Key a k, e_val = val\<rparr> (mset (entries (hm_data m)))"
proof -
  let ?d = "hm_data m" and ?n = "length (hm_data m)" and ?e = "\<lparr>e_key = Key a k, e_val = val\<rparr>"
  have inv: "hm_inv m" using g by (simp add: good_def)
  then have n: "arr_size m = ?n" and ok: "table_ok ?d" and sz: "hm_size m = length (entries ?d)"
    by (auto simp: hm_inv_def)
  obtain i e where i: "i < ?n" "?d ! i = Some e" "ekey e = k" "e_val e = v"
    and rem: "xremove m k = Some (Some e, m\<lparr>hm_data := ?d[i := None], hm_size := hm_size m - 1\<rparr>)"
    using xremove_takes [OF inv abs] n by auto
  let ?m1 = "m\<lparr>hm_data := ?d[i := None], hm_size := hm_size m - 1\<rparr>"
  let ?m2 = "m\<lparr>hm_data := ?d[i := Some ?e]\<rparr>"
  have "chained ?d i e" using ok i by (simp add: table_ok_def)
  then obtain d where d: "d < ?n" "i = slot ?n k d" "\<forall>d' < d. ?d ! slot ?n k d' \<noteq> None"
    using i(3) by (auto simp: chained_def)
  have pos: "0 < hm_size m" using i sz by (metis length_pos_if_in_set set_entries_nth)
  have ne: "i \<noteq> slot ?n k d'" if "d' < d" for d'
    using slot_inj [of d' ?n d k] d(1,2) that by auto
  have "raw_put (Suc 1) ?m1 ?e = Some (Inr (?m1\<lparr>hm_data := (hm_data ?m1)[slot (arr_size ?m1) (ekey ?e) d := Some ?e],
      hm_size := Suc (hm_size ?m1)\<rparr>))"
    using g d ne i(1) pos n by (intro raw_put_probe) (auto simp: good_def ekey_def)
  also have "?m1\<lparr>hm_data := (hm_data ?m1)[slot (arr_size ?m1) (ekey ?e) d := Some ?e],
      hm_size := Suc (hm_size ?m1)\<rparr> = ?m2"
    using pos d(2) n by (simp add: ekey_def)
  finally have put: "put ?m1 (Key a k) val = Some (Inr ?m2)"
    by (simp add: put_def put_fuel_def numeral_2_eq_2 del: raw_put.simps)
  have ke: "ekey ?e = ekey e" using i(3) by (simp add: ekey_def)
  note sw = table_swap [OF ok i(1,2) ke]
  have "good ?m2"
    using g sw(1,3) sz n by (simp add: good_def hm_inv_def std_config_def)
  then show ?thesis
    using rem put i sw(2,4) by (auto simp: hm_abs_def)
qed

section \<open>Teardown\<close>

lemma destroy_entries:
  "arr_size m = length (hm_data m) \<Longrightarrow>
   {a. KeyBlock a \<in> set (destroyHashmap m)} = kaddr ` e_key ` set (entries (hm_data m))"
  by (force simp: destroyHashmap_def set_entries_nth image_iff split: option.splits)

text \<open>The bucket array of an empty map is never freed.\<close>

lemma destroy_empty_leaks: "destroyHashmap (empty_std j) = [MapStruct]"
  by (simp add: destroyHashmap_def empty_std_def concat_eq_Nil_conv)

section \<open>What the operations promise\<close>

text \<open>
  Property C12. Inserting a key that is not in the map always returns without a fault, growing
  the table when it is more than half full; afterwards every lookup returns, the new key is
  found with its value and every other key is found as before. (Sizes below \<open>2 ^ 29\<close>: the
  limit of the grown table is converted to \<open>int\<close>.)
\<close>

theorem put_then_get:
  assumes "good m" and "hm_size m < 2 ^ 29" and "get m (kstr key) = Some None"
  shows "\<exists>m'. put m key val = Some (Inr m') \<and> good m' \<and> hm_size m' = Suc (hm_size m) \<and>
    (\<forall>k. get m' k = (if k = kstr key then Some (Some val) else get m k))"
proof -
  have inv: "hm_inv m" using assms(1) by (simp add: good_def)
  then have "hm_abs m (kstr key) = None" using assms(3) get_correct by simp
  then obtain m' where m': "put m key val = Some (Inr m')" "good m'"
      "adds m [\<lparr>e_key = key, e_val = val\<rparr>] m'"
    using put_adds [OF assms(1,2)] by blast
  have inv': "hm_inv m'" using m'(2) by (simp add: good_def)
  have "hm_abs m' = (hm_abs m)(kstr key \<mapsto> val)"
    using m'(3) inv' tab_abs_put [of "hm_data m'" "\<lparr>e_key = key, e_val = val\<rparr>" "hm_data m"]
    by (simp add: adds_def hm_abs_def hm_inv_def table_ok_def ekey_def)
  then show ?thesis
    using m' adds_size [OF inv m'(3)] get_correct [OF inv] get_correct [OF inv'] by auto
qed

lemma good_empty: "good (empty_std 0)"
  using empty_std_facts [of 0] by (simp add: good_def)

lemma get_empty: "get (empty_std 0) k = Some None"
  using get_correct [OF empty_std_facts(1)] by (simp add: hm_abs_def tab_abs_def empty_std_facts)

lemma put_then_get_witness:
  "\<exists>m'. put (empty_std 0) (Key 1 ''cat'') 7 = Some (Inr m') \<and>
     get m' ''cat'' = Some (Some 7) \<and> get m' ''dog'' = Some None"
  using put_then_get [OF good_empty, of "Key 1 ''cat''" 7] get_empty
  by (auto simp: empty_std_facts)

text \<open>
  Removing a key that is present and inserting it again with another value, as the
  word counter does, returns the old entry and leaves a map in which exactly the value of that
  key has changed; the map does not grow.
\<close>

theorem remove_then_put:
  assumes "good m" and "get m k = Some (Some v)"
  shows "\<exists>e m1 m2. xremove m k = Some (Some e, m1) \<and> kstr (e_key e) = k \<and> e_val e = v \<and>
    put m1 (Key a k) val = Some (Inr m2) \<and> good m2 \<and> hm_size m2 = hm_size m \<and>
    (\<forall>k'. get m2 k' = (if k' = k then Some (Some val) else get m k'))"
proof -
  have inv: "hm_inv m" using assms(1) by (simp add: good_def)
  then have "hm_abs m k = Some v" using assms(2) get_correct by simp
  then obtain e m1 m2 where r: "xremove m k = Some (Some e, m1)" "e_val e = v" "ekey e = k"
      "put m1 (Key a k) val = Some (Inr m2)" "good m2" "hm_size m2 = hm_size m"
      "hm_abs m2 = (hm_abs m)(k \<mapsto> val)"
    using remove_put [OF assms(1)] by blast
  have "get m2 k' = (if k' = k then Some (Some val) else get m k')" for k'
    using r(5,7) get_correct [OF inv] get_correct [of m2] by (simp add: good_def)
  then show ?thesis using r by (auto simp: ekey_def)
qed

lemma remove_then_put_witness:
  "\<exists>m e m1 m2. get m ''cat'' = Some (Some 7) \<and> xremove m ''cat'' = Some (Some e, m1) \<and>
     put m1 (Key 2 ''cat'') 8 = Some (Inr m2) \<and> get m2 ''cat'' = Some (Some 8)"
proof -
  obtain m where m: "good m" "adds (empty_std 0) [\<lparr>e_key = Key 1 ''cat'', e_val = 7\<rparr>] m"
    using put_adds [OF good_empty, of "Key 1 ''cat''" 7]
    by (auto simp: empty_std_facts hm_abs_def tab_abs_def)
  then have "hm_abs m ''cat'' = Some 7"
    by (simp add: adds_def empty_std_facts hm_abs_def tab_abs_def ekey_def)
  then have m: "good m" "get m ''cat'' = Some (Some 7)"
    using m(1) get_correct [of m] by (simp_all add: good_def)
  then show ?thesis using remove_then_put [OF m, of 2 8] by auto
qed

section \<open>Where the table breaks\<close>

text \<open>
  A removal on its own can cut a probe sequence: when two keys share their first bucket and the
  one that sits there is removed, the other is no longer found although it is still stored.
\<close>

lemma remove_loses_key:
  assumes inv: "hm_inv m" and k1: "holds (hm_data m ! home (arr_size m) k1) k1"
    and k2: "hm_abs m k2 = Some v" "k2 \<noteq> k1" "home (arr_size m) k2 = home (arr_size m) k1"
  shows "\<exists>e m1. xremove m k1 = Some (e, m1) \<and> get m k2 = Some (Some v) \<and> get m1 k2 = Some None \<and>
    (\<exists>e2 \<in> set (entries (hm_data m1)). ekey e2 = k2 \<and> e_val e2 = v)"
proof -
  let ?h = "home (arr_size m) k1"
  let ?m1 = "m\<lparr>hm_data := (hm_data m)[?h := None], hm_size := hm_size m - 1\<rparr>"
  have n: "arr_size m = length (hm_data m)" and ok: "table_ok (hm_data m)"
    using inv by (auto simp: hm_inv_def)
  then have h: "?h < length (hm_data m)" by (auto simp: table_ok_def)
  have "xremove m k1 = Some (hm_data m ! ?h, ?m1)"
    using k1 by (simp add: xremove_def take_entry_def Let_def)
  moreover have "get m k2 = Some (Some v)" using get_correct [OF inv] k2(1) by simp
  moreover have "get ?m1 k2 = Some None" using k2(3) h by (simp add: get_def)
  moreover have "\<exists>e2 \<in> set (entries (hm_data ?m1)). ekey e2 = k2 \<and> e_val e2 = v"
  proof -
    obtain j e2 where j: "j < length (hm_data m)" "hm_data m ! j = Some e2" "ekey e2 = k2"
      using k2(1) table_absent [of "hm_data m" k2] by (auto simp: hm_abs_def holds_iff)
    have "j \<noteq> ?h" using k1 k2(2) j by (auto simp: holds_iff)
    then have "e2 \<in> set (entries (hm_data ?m1))"
      using j by (auto simp: set_entries_nth intro!: exI [of _ j])
    then show ?thesis using table_lookup [OF ok j(1,2)] j(3) k2(1) by (auto simp: hm_abs_def)
  qed
  ultimately show ?thesis by blast
qed

lemma colliding_keys: "home 100 ''st'' = home 100 ''ab''"
  by (simp add: home_def hashcode_def schar64_def)

text \<open>
  With the load factor 1 that \<open>createHashmap\<close> accepts, the limit is the number of buckets, and
  the test \<open>size <= limit\<close> lets an insertion into a full table through: it never returns.
\<close>

lemma load_factor_one:
  "createHashmap 100 (1, 0) (2, 0) =
     Inr \<lparr>hm_data = replicate 100 None, hm_size = 0, arr_size = 100, hm_limit = 100,
          loadFactor = (1, 0), multiplier = (2, 0)\<rparr>"
proof -
  have r: "rnd24 100 = 100" by (simp add: rnd24_def)
  have "f32_trunc (f32_mul (1, 0) (f32_of_nat 100)) = 100"
    by (simp add: f32_mul_def f32_of_nat_def f32_trunc_def r)
  then show ?thesis
    by (simp add: createHashmap_def INITIAL_SIZE_def LOAD_FACTOR_def MULTIPLIER_def f32_le_def
        Let_def)
qed

lemma probe_stays_inside: "probe_free data n i = Some j \<Longrightarrow> i < n \<longrightarrow> j < n"
proof (rule probe_free.raw_induct [where P = "\<lambda>data n i j. i < n \<longrightarrow> j < n"])
  fix f :: "entry option list \<Rightarrow> nat \<Rightarrow> nat \<Rightarrow> nat option" and data n i j
  assume "\<And>data n i j. f data n i = Some j \<Longrightarrow> i < n \<longrightarrow> j < n"
    and "(if data ! i \<noteq> None then f data n (if i + 1 \<ge> n then 0 else i + 1) else Some i) = Some j"
  then show "i < n \<longrightarrow> j < n" by (auto split: if_splits)
qed

lemma full_table_hangs:
  assumes "arr_size m = length (hm_data m)" "hm_data m \<noteq> []" "\<forall>b \<in> set (hm_data m). b \<noteq> None"
    and "hm_size m \<le> hm_limit m"
  shows "put m key val = None"
proof -
  let ?h = "home (length (hm_data m)) (kstr key)"
  have h: "?h < length (hm_data m)" using assms(2) by simp
  have "probe_free (hm_data m) (length (hm_data m)) ?h = None"
  proof (rule ccontr)
    assume "probe_free (hm_data m) (length (hm_data m)) ?h \<noteq> None"
    then obtain j where j: "probe_free (hm_data m) (length (hm_data m)) ?h = Some j" by blast
    have "hm_data m ! j \<in> set (hm_data m)" using probe_stays_inside [OF j] h by simp
    then show False using probe_free_returns_free [OF j] assms(3) by auto
  qed
  moreover have "hm_data m ! ?h \<noteq> None" using h assms(3) by (meson nth_mem)
  ultimately show ?thesis using assms(1,4)
    by (simp add: put_def put_fuel_def numeral_2_eq_2 Let_def)
qed

end
