(* ===== verification/WordCount.thy ===== *)
theory WordCount
  imports Hashmap
begin

text \<open>
  The word-frequency program of 08_search_sort_homework/hashmap_open.c on top of the hash map:
  the scanner of \<open>countWords\<close> and the selection of \<open>printDescending\<close>. The input is the list of
  the characters \<open>read_file\<close> delivers (theory WordMain). The address of each key is a counter: the only thing the
  program does with addresses is to compare those of live keys.
\<close>

section \<open>The scanner\<close>

definition isSep :: "char \<Rightarrow> bool" where
  "isSep c \<longleftrightarrow> c \<in> set [CHR '' '', CHR 0x0A, CHR 0x09, CHR 0x00, CHR ''['', CHR ''{'', CHR ''('',
     CHR '']'', CHR ''}'', CHR '')'', CHR ''.'', CHR '','', CHR ''?'', CHR ''!'', CHR '';'',
     CHR ''+'', CHR ''='', CHR 0x5E, CHR ''*'', CHR ''|'', CHR 0x5C, CHR ''/'', CHR ''<'',
     CHR ''>'', CHR 0x27, CHR 0x22, CHR 0x60]"

definition MAX_WORD_LEN :: nat where "MAX_WORD_LEN = 128"

text \<open>The next key address and the map.\<close>

type_synonym counts = "nat \<times> hashmap"

record wc =
  in_word :: bool
  word :: string        \<comment> \<open>what is written of the buffer of \<open>MAX_WORD_LEN\<close> characters\<close>
  word_len :: nat
  counts :: counts

text \<open>One finished word: a new key and value, and the old entry of the word removed.\<close>

definition count_word :: "counts \<Rightarrow> string \<Rightarrow> counts run" where
  "count_word am w =
     (let key = Key (fst am) w; m = snd am; ret = (\<lambda>m'. Some (Inr (Suc (fst am), m')))
      in case get m w of
           None \<Rightarrow> None
         | Some (Some old_value) \<Rightarrow>
           (case xremove m w of
              None \<Rightarrow> None
            | Some (None, m1) \<Rightarrow> Some (Inl NullDeref)
            | Some (Some e, m1) \<Rightarrow> bindR (put m1 key (old_value + 1)) ret)
         | Some None \<Rightarrow> bindR (put m key 1) ret)"

text \<open>The write \<open>*word++ = c\<close> into the buffer.\<close>

definition push_char :: "string \<Rightarrow> char \<Rightarrow> string run" where
  "push_char w c = Some (if length w < MAX_WORD_LEN then Inr (w @ [c]) else Inl OutOfBounds)"

definition count_char :: "wc \<Rightarrow> char \<Rightarrow> wc run" where
  "count_char s c =
     (if isSep c then
        if in_word s then
          bindR (push_char (word s) (CHR 0x00)) (\<lambda>_.
          bindR (count_word (counts s) (word s)) (\<lambda>am.
          Some (Inr (s\<lparr>in_word := False, word := [], counts := am\<rparr>))))
        else Some (Inr s)
      else if \<not> in_word s then
        bindR (push_char (word s) c) (\<lambda>w. Some (Inr (s\<lparr>in_word := True, word := w, word_len := 1\<rparr>)))
      else
        let s = s\<lparr>word_len := Suc (word_len s)\<rparr>
        in if word_len s \<le> MAX_WORD_LEN - 1
           then bindR (push_char (word s) c) (\<lambda>w. Some (Inr (s\<lparr>word := w\<rparr>)))
           else Some (Inr s))"

fun count_chars :: "wc \<Rightarrow> string \<Rightarrow> wc run" where
  "count_chars s [] = Some (Inr s)"
| "count_chars s (c # cs) = bindR (count_char s c) (\<lambda>s. count_chars s cs)"

definition countWords :: "string \<Rightarrow> counts run" where
  "countWords input_data =
     (case createHashmap 2 (1, 1) (2, 0) of
        Inl f \<Rightarrow> Some (Inl f)
      | Inr hmap \<Rightarrow>
        bindR (count_chars \<lparr>in_word = False, word = [], word_len = 0, counts = (0, hmap)\<rparr> input_data)
          (\<lambda>s. Some (Inr (counts s))))"

section \<open>Printing\<close>

text \<open>
  One round of the selection: the last bucket whose value is not below those before it and whose
  key was not chosen in an earlier round. \<open>None\<close> leaves \<open>keysDesc[i]\<close> unwritten.
\<close>

definition pick_step :: "nat list \<Rightarrow> u64 \<times> ckey option \<Rightarrow> entry option \<Rightarrow> u64 \<times> ckey option" where
  "pick_step keysDesc acc b =
     (case b of
        None \<Rightarrow> acc
      | Some e \<Rightarrow>
        if e_val e \<ge> fst acc \<and> kaddr (e_key e) \<notin> set keysDesc then (e_val e, Some (e_key e)) else acc)"

fun print_rounds :: "entry option list \<Rightarrow> nat \<Rightarrow> nat list \<Rightarrow> (u64 \<times> string) list cres" where
  "print_rounds data 0 keysDesc = Inr []"
| "print_rounds data (Suc i) keysDesc =
     (case foldl (pick_step keysDesc) (0, None) data of
        (maxValue, None) \<Rightarrow> Inl Uninitialised
      | (maxValue, Some key) \<Rightarrow>
        bindE (print_rounds data i (keysDesc @ [kaddr key])) (\<lambda>out.
        Inr ((maxValue, kstr key) # out)))"

definition printDescending :: "hashmap \<Rightarrow> (u64 \<times> string) list cres" where
  "printDescending m = print_rounds (hm_data m) (hm_size m) []"

text \<open>The program on a file: what it prints, and what it frees at the end.\<close>

definition word_count_main :: "string \<Rightarrow> ((u64 \<times> string) list \<times> block list) run" where
  "word_count_main input_data =
     bindR (countWords input_data) (\<lambda>am.
     bindR (Some (printDescending (snd am))) (\<lambda>out.
     Some (Inr (out, destroyHashmap (snd am)))))"

section \<open>The words of a text\<close>

text \<open>
  A text is cut at every separator; the words are the non-empty pieces, without the last one
  (nothing ends it), cut to 127 characters.
\<close>

fun splits :: "string \<Rightarrow> string list" where
  "splits [] = [[]]"
| "splits (c # cs) =
     (if isSep c then [] # splits cs
      else case splits cs of [] \<Rightarrow> [[c]] | p # ps \<Rightarrow> (c # p) # ps)"

definition words_of :: "string \<Rightarrow> string list" where
  "words_of cs = map (take 127) (filter (\<lambda>w. w \<noteq> []) (butlast (splits cs)))"

lemma splits_ne [simp]: "splits cs \<noteq> []"
  by (cases cs) (auto split: list.split)

lemma splits_append:
  "\<forall>c \<in> set p. \<not> isSep c \<Longrightarrow> splits (p @ cs) = (p @ hd (splits cs)) # tl (splits cs)"
  by (induction p) (auto split: list.split)

lemma words_of_sep:
  assumes "\<forall>c \<in> set p. \<not> isSep c" "isSep c"
  shows "words_of (p @ c # cs) = (if p = [] then [] else [take 127 p]) @ words_of cs"
  using assms by (simp add: words_of_def splits_append)

lemma words_of_plain: "\<forall>c \<in> set p. \<not> isSep c \<Longrightarrow> words_of p = []"
  using splits_append [of p "[]"] by (simp add: words_of_def)

lemma length_words_of: "length (words_of cs) \<le> length cs"
proof -
  have "length (splits cs) \<le> Suc (length cs)" by (induction cs) (auto split: list.split)
  then have "length (butlast (splits cs)) \<le> length cs" by simp
  then show ?thesis unfolding words_of_def
    by (metis (no_types) length_filter_le length_map order.trans)
qed

section \<open>The scanner feeds the words to the map\<close>

definition scan_inv :: "wc \<Rightarrow> string \<Rightarrow> bool" where
  "scan_inv s p \<longleftrightarrow> (\<forall>c \<in> set p. \<not> isSep c) \<and> word s = take 127 p \<and>
     (in_word s \<longleftrightarrow> p \<noteq> []) \<and> (in_word s \<longrightarrow> word_len s = length p)"

lemma scan_step_in:
  assumes "scan_inv s p" "\<not> isSep c"
  shows "\<exists>s'. count_char s c = Some (Inr s') \<and> scan_inv s' (p @ [c]) \<and> counts s' = counts s"
proof (cases "in_word s")
  case False
  then show ?thesis using assms
    by (auto simp: count_char_def push_char_def scan_inv_def MAX_WORD_LEN_def)
next
  case True
  then show ?thesis using assms
    by (auto simp: count_char_def push_char_def scan_inv_def MAX_WORD_LEN_def Let_def take_Suc_conv_app_nth)
qed

lemma scan_step_sep:
  assumes "scan_inv s p" "isSep c"
  shows "p = [] \<Longrightarrow> count_char s c = Some (Inr s)"
    and "p \<noteq> [] \<Longrightarrow> count_char s c = bindR (count_word (counts s) (take 127 p)) (\<lambda>am.
      Some (Inr (s\<lparr>in_word := False, word := [], counts := am\<rparr>)))"
  using assms
  by (simp_all add: count_char_def push_char_def scan_inv_def MAX_WORD_LEN_def min_less_iff_disj)

lemma count_chars_words:
  assumes "scan_inv s p"
  shows "bindR (count_chars s cs) (\<lambda>s'. Some (Inr (counts s'))) =
    bump_all count_word (counts s) (words_of (p @ cs))"
  using assms
proof (induction cs arbitrary: s p)
  case Nil
  then show ?case by (simp add: scan_inv_def words_of_plain)
next
  case (Cons c cs)
  have p: "\<forall>c \<in> set p. \<not> isSep c" using Cons.prems by (simp add: scan_inv_def)
  show ?case
  proof (cases "isSep c")
    case False
    then obtain s' where s': "count_char s c = Some (Inr s')" "scan_inv s' (p @ [c])"
        "counts s' = counts s"
      using scan_step_in [OF Cons.prems] by blast
    then show ?thesis using Cons.IH [OF s'(2)] by simp
  next
    case True
    note w = words_of_sep [OF p True, of cs]
    show ?thesis
    proof (cases "p = []")
      case True
      then show ?thesis using Cons.prems Cons.IH scan_step_sep(1) [OF Cons.prems \<open>isSep c\<close>] w by simp
    next
      case False
      have "bindR (count_chars (s\<lparr>in_word := False, word := [], counts := am\<rparr>) cs)
          (\<lambda>s'. Some (Inr (counts s'))) = bump_all count_word am (words_of cs)" for am
        using Cons.IH [of "s\<lparr>in_word := False, word := [], counts := am\<rparr>" "[]"]
        by (simp add: scan_inv_def)
      then show ?thesis
        using False scan_step_sep(2) [OF Cons.prems \<open>isSep c\<close>] w by (simp add: bindR_assoc)
    qed
  qed
qed

section \<open>The map as a tally\<close>

text \<open>Between two words: a good map whose keys have distinct addresses that were handed out.\<close>

definition addrs :: "hashmap \<Rightarrow> nat list" where
  "addrs m = map (\<lambda>e. kaddr (e_key e)) (entries (hm_data m))"

definition counts_ok :: "counts \<Rightarrow> bool" where
  "counts_ok am \<longleftrightarrow> good (snd am) \<and> distinct (addrs (snd am)) \<and> (\<forall>a \<in> set (addrs (snd am)). a < fst am)"

lemma fresh_addr:
  assumes "counts_ok (a, m)" "good m'"
    and "mset (addrs m') = add_mset a (mset (addrs m)) \<or>
      add_mset b (mset (addrs m')) = add_mset a (mset (addrs m))"
  shows "counts_ok (Suc a, m')"
proof -
  have d: "distinct (a # addrs m)" using assms(1) by (auto simp: counts_ok_def)
  have "mset (addrs m') = mset (a # addrs m) \<or> mset (b # addrs m') = mset (a # addrs m)"
    using assms(3) by simp
  then have "distinct (addrs m') \<and> set (addrs m') \<subseteq> set (a # addrs m)"
  proof
    assume "mset (addrs m') = mset (a # addrs m)"
    then show ?thesis using d mset_eq_imp_distinct_iff mset_eq_setD by blast
  next
    assume eq: "mset (b # addrs m') = mset (a # addrs m)"
    then have "distinct (b # addrs m')" using d mset_eq_imp_distinct_iff by blast
    then show ?thesis using mset_eq_setD [OF eq] by auto
  qed
  then show ?thesis using assms(1,2) by (auto simp: counts_ok_def less_Suc_eq)
qed

lemma count_word_ok:
  assumes ok: "counts_ok (a, m)" and small: "hm_size m < 2 ^ 29"
  shows "\<exists>m'. count_word (a, m) w = Some (Inr (Suc a, m')) \<and> counts_ok (Suc a, m') \<and>
    hm_size m' \<le> Suc (hm_size m) \<and>
    hm_abs m' = (hm_abs m)(w \<mapsto> (case hm_abs m w of None \<Rightarrow> 1 | Some v \<Rightarrow> v + 1))"
proof -
  have g: "good m" using ok by (simp add: counts_ok_def)
  then have inv: "hm_inv m" by (simp add: good_def)
  have get: "get m w = Some (hm_abs m w)" using inv by (rule get_correct)
  show ?thesis
  proof (cases "hm_abs m w")
    case None
    let ?e = "\<lparr>e_key = Key a w, e_val = 1\<rparr>"
    obtain m' where m': "put m (Key a w) 1 = Some (Inr m')" "good m'" "adds m [?e] m'"
      using put_adds [OF g small, of "Key a w" 1] None by auto
    then have "counts_ok (Suc a, m')"
      by (intro fresh_addr [OF ok]) (simp_all add: addrs_def adds_def)
    moreover have "hm_abs m' = (hm_abs m)(w \<mapsto> 1)"
      using m'(2,3) tab_abs_put [of "hm_data m'" ?e "hm_data m"]
      by (simp add: adds_def hm_abs_def good_def hm_inv_def table_ok_def ekey_def)
    moreover have "count_word (a, m) w = Some (Inr (Suc a, m'))"
      using get None m'(1) by (simp add: count_word_def Let_def)
    ultimately show ?thesis using adds_size [OF inv m'(3)] None by auto
  next
    case (Some v)
    let ?e = "\<lparr>e_key = Key a w, e_val = v + 1\<rparr>"
    obtain e m1 m2 where r: "xremove m w = Some (Some e, m1)" "put m1 (Key a w) (v + 1) = Some (Inr m2)"
        "good m2" "hm_size m2 = hm_size m" "hm_abs m2 = (hm_abs m)(w \<mapsto> v + 1)"
        "add_mset e (mset (entries (hm_data m2))) = add_mset ?e (mset (entries (hm_data m)))"
      using remove_put [OF g Some] by blast
    have "add_mset (kaddr (e_key e)) (mset (addrs m2)) = add_mset a (mset (addrs m))"
      using arg_cong [OF r(6), of "image_mset (\<lambda>e. kaddr (e_key e))"] by (simp add: addrs_def)
    then have "counts_ok (Suc a, m2)" using r(3) by (intro fresh_addr [OF ok]) auto
    moreover have "count_word (a, m) w = Some (Inr (Suc a, m2))"
      using get Some r(1,2) by (simp add: count_word_def Let_def)
    ultimately show ?thesis using r(4,5) Some by auto
  qed
qed

interpretation words: tally counts_ok "\<lambda>am ws. hm_size (snd am) + length ws \<le> 2 ^ 29" count_word
  "\<lambda>am. hm_abs (snd am)" "\<lambda>w. w" "\<lambda>_. 1"
proof unfold_locales
  fix am :: counts and w :: string and ws :: "string list"
  assume "counts_ok am" and "hm_size (snd am) + length (w # ws) \<le> 2 ^ 29"
  then show "\<exists>am'. count_word am w = Some (Inr am') \<and> counts_ok am' \<and>
      hm_size (snd am') + length ws \<le> 2 ^ 29 \<and>
      hm_abs (snd am') = (hm_abs (snd am))(w \<mapsto> (case hm_abs (snd am) w of None \<Rightarrow> 1 | Some v \<Rightarrow> v + 1))"
    using count_word_ok [of "fst am" "snd am" w] by auto
qed

lemma countWords_counts:
  assumes "length cs < 2 ^ 29"
  shows "\<exists>a m. countWords cs = Some (Inr (a, m)) \<and> counts_ok (a, m) \<and>
    hm_abs m = (\<lambda>w. if w \<in> set (words_of cs) then Some (of_nat (count_list (words_of cs) w)) else None)"
proof -
  let ?s = "\<lparr>in_word = False, word = [], word_len = 0, counts = (0, empty_std 0)\<rparr>"
  have start: "counts_ok (0, empty_std 0)"
    using good_empty by (simp add: counts_ok_def addrs_def empty_std_facts)
  have "countWords cs = bindR (count_chars ?s cs) (\<lambda>s'. Some (Inr (counts s')))"
    unfolding countWords_def createHashmap_first by (simp add: empty_std_def)
  also have "\<dots> = bump_all count_word (0, empty_std 0) (words_of cs)"
    using count_chars_words [of ?s "[]" cs] by (simp add: scan_inv_def)
  finally have run: "countWords cs = bump_all count_word (0, empty_std 0) (words_of cs)" .
  have "\<exists>am. bump_all count_word (0, empty_std 0) (words_of cs) = Some (Inr am) \<and> counts_ok am \<and>
      hm_abs (snd am) = tally_of (\<lambda>w. w) (\<lambda>_. 1) (words_of cs)"
    using start length_words_of [of cs] assms
    by (intro words.tally_from_empty)
      (auto simp: empty_std_facts hm_abs_def tab_abs_def)
  then show ?thesis using run by (auto simp: tally_count fun_eq_iff)
qed

section \<open>The selection prints a descending permutation\<close>

definition left_over :: "entry option list \<Rightarrow> nat list \<Rightarrow> entry list" where
  "left_over data ch = filter (\<lambda>e. kaddr (e_key e) \<notin> set ch) (entries data)"

lemma left_over_simps [simp]:
  "left_over [] ch = []" "left_over (None # data) ch = left_over data ch"
  "left_over (Some e # data) ch =
    (if kaddr (e_key e) \<in> set ch then left_over data ch else e # left_over data ch)"
  by (simp_all add: left_over_def)

lemma pick_step_simps:
  "pick_step ch acc None = acc"
  "pick_step ch acc (Some e) =
    (if e_val e \<ge> fst acc \<and> kaddr (e_key e) \<notin> set ch then (e_val e, Some (e_key e)) else acc)"
  by (simp_all add: pick_step_def)

lemma pick_fold:
  "foldl (pick_step ch) acc data = (mx, best) \<Longrightarrow>
   fst acc \<le> mx \<and> (\<forall>e \<in> set (left_over data ch). e_val e \<le> mx) \<and>
   ((mx, best) = acc \<and> (\<forall>e \<in> set (left_over data ch). e_val e < fst acc) \<or>
    (\<exists>e \<in> set (left_over data ch). mx = e_val e \<and> best = Some (e_key e)))"
proof (induction data arbitrary: acc)
  case (Cons b data)
  show ?case
  proof (cases b)
    case None
    then show ?thesis using Cons by (simp add: pick_step_simps)
  next
    case (Some e)
    show ?thesis
    proof (cases "e_val e \<ge> fst acc \<and> kaddr (e_key e) \<notin> set ch")
      case True
      then have "foldl (pick_step ch) (e_val e, Some (e_key e)) data = (mx, best)"
        using Cons.prems Some by (simp add: pick_step_simps)
      from Cons.IH [OF this] show ?thesis using True Some by auto
    next
      case False
      then have "foldl (pick_step ch) acc data = (mx, best)"
        using Cons.prems Some by (auto simp: pick_step_simps split: if_splits)
      from Cons.IH [OF this] show ?thesis using False Some by auto
    qed
  qed
qed simp

lemma filter_out_one:
  "distinct (map g xs) \<Longrightarrow> x \<in> set xs \<Longrightarrow> mset xs = add_mset x (mset (filter (\<lambda>y. g y \<noteq> g x) xs))"
proof (induction xs)
  case (Cons y ys)
  show ?case
  proof (cases "x = y")
    case True
    then have "filter (\<lambda>z. g z \<noteq> g x) ys = ys"
      using Cons.prems(1) by (auto simp: filter_id_conv image_iff)
    then show ?thesis using True by simp
  next
    case False
    then have "g y \<noteq> g x" using Cons.prems by force
    then show ?thesis using Cons False by auto
  qed
qed simp

definition shown :: "entry \<Rightarrow> u64 \<times> string" where
  "shown e = (e_val e, kstr (e_key e))"

lemma print_rounds_sorts:
  assumes "distinct (map (\<lambda>e. kaddr (e_key e)) (entries data))"
    and "n = length (left_over data ch)"
  shows "\<exists>out. print_rounds data n ch = Inr out \<and>
    mset out = mset (map shown (left_over data ch)) \<and> sorted_wrt (\<ge>) (map fst out)"
  using assms(2)
proof (induction n arbitrary: ch)
  case 0
  then show ?case by simp
next
  case (Suc n)
  let ?xs = "left_over data ch"
  obtain mx best where pick: "foldl (pick_step ch) (0, None) data = (mx, best)" by fastforce
  have ne: "?xs \<noteq> []" using Suc.prems by auto
  then have "\<not> (\<forall>e \<in> set ?xs. e_val e < 0)" by (cases ?xs) auto
  then obtain e where e: "e \<in> set ?xs" "mx = e_val e" "best = Some (e_key e)"
    using pick_fold [OF pick] by auto
  have max: "\<forall>e' \<in> set ?xs. e_val e' \<le> mx" using pick_fold [OF pick] by blast
  have dist: "distinct (map (\<lambda>e. kaddr (e_key e)) ?xs)"
    using assms(1) by (simp add: left_over_def distinct_map_filter)
  have nxt: "left_over data (ch @ [kaddr (e_key e)]) =
      filter (\<lambda>e'. kaddr (e_key e') \<noteq> kaddr (e_key e)) ?xs"
    by (auto simp: left_over_def intro: filter_cong)
  have ms: "mset ?xs = add_mset e (mset (left_over data (ch @ [kaddr (e_key e)])))"
    unfolding nxt using dist e(1) by (rule filter_out_one)
  then have "n = length (left_over data (ch @ [kaddr (e_key e)]))"
    using Suc.prems by (metis size_add_mset size_mset Suc_inject)
  from Suc.IH [OF this] obtain out where out:
      "print_rounds data n (ch @ [kaddr (e_key e)]) = Inr out"
      "mset out = mset (map shown (left_over data (ch @ [kaddr (e_key e)])))"
      "sorted_wrt (\<ge>) (map fst out)" by blast
  have "set out = shown ` set (left_over data (ch @ [kaddr (e_key e)]))"
    using mset_eq_setD [OF out(2)] by simp
  then have "\<forall>v \<in> set (map fst out). v \<le> mx"
    using max by (auto simp: nxt shown_def)
  moreover have "print_rounds data (Suc n) ch = Inr ((mx, kstr (e_key e)) # out)"
    using pick e(3) out(1) by simp
  moreover have "mset ((mx, kstr (e_key e)) # out) = mset (map shown ?xs)"
    using out(2) ms e(2) by (simp add: shown_def)
  ultimately show ?case using out(3) by auto
qed

lemma printDescending_sorts:
  assumes "counts_ok (a, m)"
  shows "\<exists>out. printDescending m = Inr out \<and> mset out = mset (map shown (entries (hm_data m))) \<and>
    sorted_wrt (\<ge>) (map fst out)"
proof -
  have "left_over (hm_data m) [] = entries (hm_data m)" by (simp add: left_over_def)
  then show ?thesis
    using assms print_rounds_sorts [of "hm_data m" "hm_size m" "[]"]
    by (auto simp: counts_ok_def printDescending_def addrs_def good_def hm_inv_def)
qed

section \<open>What the program promises\<close>



text \<open>
  The whole program on a text below 512 MiB prints one line for every distinct word
  of the text with the number of its occurrences, in descending order of the numbers.
\<close>

theorem word_count_main_output:
  assumes "length cs < 2 ^ 29"
  shows "\<exists>out freed. word_count_main cs = Some (Inr (out, freed)) \<and>
    sorted_wrt (\<ge>) (map fst out) \<and> distinct (map snd out) \<and>
    set out = (\<lambda>w. (of_nat (count_list (words_of cs) w), w)) ` set (words_of cs)"
proof -
  obtain a m where m: "countWords cs = Some (Inr (a, m))" "counts_ok (a, m)"
      "hm_abs m = (\<lambda>w. if w \<in> set (words_of cs) then Some (of_nat (count_list (words_of cs) w)) else None)"
    using countWords_counts [OF assms] by blast
  obtain out where out: "printDescending m = Inr out" "mset out = mset (map shown (entries (hm_data m)))"
      "sorted_wrt (\<ge>) (map fst out)"
    using printDescending_sorts [OF m(2)] by blast
  have dist: "distinct (map ekey (entries (hm_data m)))"
    using m(2) by (simp add: counts_ok_def good_def hm_inv_def table_ok_def)
  have "mset (map snd out) = mset (map ekey (entries (hm_data m)))"
    using arg_cong [OF out(2), of "image_mset snd"] by (simp add: multiset.map_comp comp_def shown_def flip: ekey_def)
  then have "distinct (map snd out)" using dist mset_eq_imp_distinct_iff by blast
  moreover have "(v, w) \<in> set out \<longleftrightarrow> hm_abs m w = Some v" for v w
    using mset_eq_setD [OF out(2)] tab_abs_eq_Some [OF dist, of w v]
    by (auto simp: hm_abs_def shown_def ekey_def image_iff)
  then have "set out = (\<lambda>w. (of_nat (count_list (words_of cs) w), w)) ` set (words_of cs)"
    using m(3) by (auto split: if_splits)
  moreover have "word_count_main cs = Some (Inr (out, destroyHashmap m))"
    using m(1) out(1) by (simp add: word_count_main_def)
  ultimately show ?thesis using out(3) by blast
qed

lemma word_count_main_output_witness:
  "\<exists>out freed. word_count_main ''a b a '' = Some (Inr (out, freed)) \<and>
     set out = {(2, ''a''), (1, ''b'')}"
proof -
  have "words_of ''a b a '' = [''a'', ''b'', ''a'']" by (simp add: words_of_def isSep_def)
  then show ?thesis using word_count_main_output [of "''a b a ''"] by fastforce
qed

text \<open>A text that does not end in a separator loses its last word.\<close>

lemma last_word_dropped: "words_of ''one two'' = [''one'']"
  by (simp add: words_of_def isSep_def)

end
