(* ===== verification/ReadFile.thy ===== *)
theory ReadFile
  imports Prelude
begin

text \<open>
  \<open>read_file\<close>, which three programs have word for word (03_types_homework, 04_types_contd and
  08_search_sort_homework): a file is read into a buffer that doubles when it is full. What stdio
  and the allocator answer is a parameter; a regular file gives what is asked for up to its end,
  and the end is noticed when less is given.
\<close>

section \<open>The reader\<close>

text \<open>
  The contents are \<open>None\<close> when \<open>fopen\<close> fails. \<open>io_error n\<close>: the read at offset \<open>n\<close> fails.
\<close>

record stdio =
  io_file :: "string \<Rightarrow> byte list option"
  io_error :: "nat \<Rightarrow> bool"
  io_close :: bool
  io_alloc :: "nat \<Rightarrow> bool"

text \<open>The calls whose failure ends the program.\<close>

datatype io_call = Fopen | Malloc | Realloc | Fread | Fwrite | Fclose

text \<open>
  The loop: the capacity, and the number \<open>n\<close> of bytes in the buffer, which are the first of the file.
  The result is the call that failed, or the bytes and the capacity; \<open>None\<close> is a loop that does not end.
\<close>

partial_function (option) read_loop :: "stdio \<Rightarrow> byte list \<Rightarrow> nat \<Rightarrow> nat \<Rightarrow>
    (io_call + byte list \<times> nat) option" where
  "read_loop io bytes buf_cap n =
     (let cap = (if buf_cap - n = 0 then 2 * buf_cap else buf_cap)
      in if cap \<noteq> buf_cap \<and> \<not> io_alloc io cap then Some (Inl Realloc)
         else
           let wanted = cap - n; got = min wanted (length bytes - n)
           in if io_error io n then Some (Inl Fread)
              else if got < wanted then Some (Inr (take (n + got) bytes, cap))
              else read_loop io bytes cap (n + got))"

declare read_loop.simps [code]

definition read_file :: "stdio \<Rightarrow> string \<Rightarrow> (io_call + byte list \<times> nat) option" where
  "read_file io filename =
     (case io_file io filename of
        None \<Rightarrow> Some (Inl Fopen)
      | Some bytes \<Rightarrow>
          if \<not> io_alloc io 4096 then Some (Inl Malloc)
          else Option.bind (read_loop io bytes 4096 0) (\<lambda>res. case res of
                 Inl e \<Rightarrow> Some (Inl e)
               | Inr buf \<Rightarrow> if \<not> io_close io then Some (Inl Fclose) else Some (Inr buf)))"

text \<open>The name that \<open>perror\<close> prints.\<close>

primrec call_name :: "io_call \<Rightarrow> string" where
  "call_name Fopen = ''fopen''"
| "call_name Malloc = ''malloc''"
| "call_name Realloc = ''realloc''"
| "call_name Fread = ''fread''"
| "call_name Fwrite = ''fwrite''"
| "call_name Fclose = ''fclose''"

section \<open>The buffer is the file\<close>

text \<open>No call fails.\<close>

definition io_ok :: "stdio \<Rightarrow> bool" where
  "io_ok io \<longleftrightarrow> (\<forall>k. io_alloc io k) \<and> (\<forall>k. \<not> io_error io k) \<and> io_close io"

text \<open>
  What a reader answers of a file: the file, in a buffer that has room for more, or a failed call,
  and that only where one can fail.
\<close>

definition reads :: "stdio \<Rightarrow> byte list \<Rightarrow> io_call + byte list \<times> nat \<Rightarrow> bool" where
  "reads io bytes res \<longleftrightarrow>
     (case res of Inl _ \<Rightarrow> \<not> io_ok io | Inr (buf, cap) \<Rightarrow> buf = bytes \<and> length bytes < cap)"

lemma read_loop_ends:
  assumes "0 < cap" "n \<le> cap" "n \<le> length bytes"
  shows "\<exists>res. read_loop io bytes cap n = Some res \<and> reads io bytes res"
  using assms
proof (induction "length bytes - n" arbitrary: cap n rule: less_induct)
  case less
  define c where "c = (if cap - n = 0 then 2 * cap else cap)"
  have c: "n < c" using less.prems by (auto simp: c_def)
  have step: "read_loop io bytes cap n =
      (if c \<noteq> cap \<and> \<not> io_alloc io c then Some (Inl Realloc)
       else if io_error io n then Some (Inl Fread)
       else if min (c - n) (length bytes - n) < c - n
            then Some (Inr (take (n + min (c - n) (length bytes - n)) bytes, c))
            else read_loop io bytes c (n + min (c - n) (length bytes - n)))"
    by (subst read_loop.simps) (simp only: Let_def c_def)
  consider "c \<noteq> cap \<and> \<not> io_alloc io c" | "\<not> (c \<noteq> cap \<and> \<not> io_alloc io c)" "io_error io n"
    | "\<not> (c \<noteq> cap \<and> \<not> io_alloc io c)" "\<not> io_error io n" "length bytes - n < c - n"
    | "\<not> (c \<noteq> cap \<and> \<not> io_alloc io c)" "\<not> io_error io n" "c - n \<le> length bytes - n"
    by linarith
  then show ?case
  proof cases
    case 1
    then show ?thesis unfolding step if_P [OF 1] by (auto simp: reads_def io_ok_def)
  next
    case 2
    then show ?thesis unfolding step if_not_P [OF 2(1)] by (auto simp: reads_def io_ok_def)
  next
    case 3
    then show ?thesis using less.prems(3) c unfolding step if_not_P [OF 3(1)] by (simp add: reads_def) linarith
  next
    case 4
    then have "\<exists>res. read_loop io bytes c c = Some res \<and> reads io bytes res"
      using c less.prems(3) by (intro less.hyps) auto
    then show ?thesis
      using c 4(2,3) unfolding step if_not_P [OF 4(1)] by (simp add: min_def)
  qed
qed

lemma read_file_ends:
  "\<exists>res. read_file io filename = Some res \<and>
    (case io_file io filename of None \<Rightarrow> res = Inl Fopen | Some bytes \<Rightarrow> reads io bytes res)"
proof (cases "io_file io filename")
  case (Some bytes)
  obtain res where "read_loop io bytes 4096 0 = Some res" "reads io bytes res"
    using read_loop_ends [of 4096 0 bytes io] by auto
  then show ?thesis
    using Some by (cases res) (auto simp: read_file_def reads_def io_ok_def)
qed (simp add: read_file_def)

lemma read_file_cases:
  obtains (failed) call where "read_file io filename = Some (Inl call)" "\<not> (io_ok io \<and> io_file io filename \<noteq> None)"
  | (got) bytes cap where "read_file io filename = Some (Inr (bytes, cap))" "io_file io filename = Some bytes"
      "length bytes < cap"
proof -
  obtain res where res: "read_file io filename = Some res"
      "case io_file io filename of None \<Rightarrow> res = Inl Fopen | Some bytes \<Rightarrow> reads io bytes res"
    using read_file_ends by blast
  show thesis
  proof (cases res)
    case (Inl call)
    then show ?thesis using res by (intro failed [of call]) (auto simp: reads_def split: option.splits)
  next
    case (Inr buf)
    then show ?thesis
      using res by (intro got [of "fst buf" "snd buf"]) (auto simp: reads_def split: option.splits)
  qed
qed

lemma read_file_all:
  assumes "io_file io filename = Some bytes" "io_ok io"
  obtains cap where "read_file io filename = Some (Inr (bytes, cap))" "length bytes < cap"
  by (rule read_file_cases [of io filename]) (use assms that in auto)

end
