(* ===== verification/WordMain.thy ===== *)
theory WordMain
  imports WordCount ReadFile
begin

text \<open>
  The word counter of 08_search_sort_homework/hashmap_open.c from its command line: reading the
  file, where a failed call ends the program through \<open>perror_if\<close>, then counting and printing.
\<close>

section \<open>The program\<close>

text \<open>The call named by the message, and what \<open>perror_if\<close> frees; a failed \<open>realloc\<close> is called malloc.\<close>

datatype report =
    Counted "(u64 \<times> string) list" "block list"
  | Perror string "block list"
  | Usage string

definition print_usage :: "string \<Rightarrow> string" where
  "print_usage argv0 =
     ''Counts the frequency of words in a file'' @ [CHR 0x0A, CHR 0x0A] @
     ''Usage:'' @ [CHR 0x0A, CHR 0x0A] @ ''  '' @ argv0 @ '' <input_file>'' @ [CHR 0x0A, CHR 0x0A]"

definition read_failure :: "io_call \<Rightarrow> string" where
  "read_failure call = (if call = Realloc then ''malloc'' else call_name call)"

text \<open>The reader, with the map that a failure destroys.\<close>

definition read_text :: "stdio \<Rightarrow> string \<Rightarrow> hashmap \<Rightarrow> (report + string) run" where
  "read_text io filename m =
     (case read_file io filename of
        None \<Rightarrow> None
      | Some (Inl call) \<Rightarrow>
          bindR (Some (perror_if True (Some m))) (\<lambda>freed. case freed of
            None \<Rightarrow> None
          | Some blocks \<Rightarrow> Some (Inr (Inl (Perror (read_failure call) blocks))))
      | Some (Inr (bytes, _)) \<Rightarrow> Some (Inr (Inr (map (\<lambda>b. char_of (unat b)) bytes))))"

text \<open>The output and the exit status. \<open>countWords\<close> creates its map before it reads.\<close>

definition word_main :: "stdio \<Rightarrow> string list \<Rightarrow> (report \<times> int) run" where
  "word_main io argv =
     (if length argv = 2 then
        bindR (Some (createHashmap 2 (1, 1) (2, 0))) (\<lambda>m.
        bindR (read_text io (argv ! 1) m) (\<lambda>r. case r of
          Inl failure \<Rightarrow> Some (Inr (failure, 1))
        | Inr input_data \<Rightarrow>
            bindR (word_count_main input_data) (\<lambda>(out, freed). Some (Inr (Counted out freed, 0)))))
      else if argv = [] then Some (Inl NullDeref)
      else Some (Inr (Usage (print_usage (argv ! 0)), 1)))"

section \<open>What it prints\<close>

lemma std_map: "createHashmap 2 (1, 1) (2, 0) = Inr (empty_std 0)"
  unfolding createHashmap_first by (simp add: empty_std_def)

lemma empty_map_freed: "perror_if True (Some (empty_std 0)) = Inr (Some [MapStruct])"
  by (simp add: perror_if_def destroyHashmap_def empty_std_def)




text \<open>A missing file: the message names \<open>fopen\<close>, and the bucket array is not freed.\<close>

lemma word_main_no_file:
  "io_file io filename = None \<Longrightarrow>
   word_main io [prog, filename] = Some (Inr (Perror ''fopen'' [MapStruct], 1))"
  by (simp add: word_main_def read_text_def read_file_def read_failure_def std_map empty_map_freed del: One_nat_def)

end
