(* ===== verification/Crc32.thy ===== *)
theory Crc32
  imports Prelude
begin

text \<open>
  The CRC-32 program 16_crc32/main.c: the table, \<open>crc32_raw\<close>, and \<open>main\<close>, which maps the file
  into memory chunk by chunk. Opening, \<open>fstat\<close>, \<open>sysconf\<close>, \<open>mmap\<close> and \<open>munmap\<close> are parameters:
  whether each call succeeds, and the page size. The file is the list of its bytes and does not
  change during the run. The specification is the bit-serial division by the reflected
  polynomial; the table is proved to agree with it.
\<close>

section \<open>The program\<close>

definition crc32_tab :: "u32 list" where
  "crc32_tab = [
     0x00000000, 0x77073096, 0xee0e612c, 0x990951ba, 0x076dc419, 0x706af48f,
     0xe963a535, 0x9e6495a3, 0x0edb8832, 0x79dcb8a4, 0xe0d5e91e, 0x97d2d988,
     0x09b64c2b, 0x7eb17cbd, 0xe7b82d07, 0x90bf1d91, 0x1db71064, 0x6ab020f2,
     0xf3b97148, 0x84be41de, 0x1adad47d, 0x6ddde4eb, 0xf4d4b551, 0x83d385c7,
     0x136c9856, 0x646ba8c0, 0xfd62f97a, 0x8a65c9ec, 0x14015c4f, 0x63066cd9,
     0xfa0f3d63, 0x8d080df5, 0x3b6e20c8, 0x4c69105e, 0xd56041e4, 0xa2677172,
     0x3c03e4d1, 0x4b04d447, 0xd20d85fd, 0xa50ab56b, 0x35b5a8fa, 0x42b2986c,
     0xdbbbc9d6, 0xacbcf940, 0x32d86ce3, 0x45df5c75, 0xdcd60dcf, 0xabd13d59,
     0x26d930ac, 0x51de003a, 0xc8d75180, 0xbfd06116, 0x21b4f4b5, 0x56b3c423,
     0xcfba9599, 0xb8bda50f, 0x2802b89e, 0x5f058808, 0xc60cd9b2, 0xb10be924,
     0x2f6f7c87, 0x58684c11, 0xc1611dab, 0xb6662d3d, 0x76dc4190, 0x01db7106,
     0x98d220bc, 0xefd5102a, 0x71b18589, 0x06b6b51f, 0x9fbfe4a5, 0xe8b8d433,
     0x7807c9a2, 0x0f00f934, 0x9609a88e, 0xe10e9818, 0x7f6a0dbb, 0x086d3d2d,
     0x91646c97, 0xe6635c01, 0x6b6b51f4, 0x1c6c6162, 0x856530d8, 0xf262004e,
     0x6c0695ed, 0x1b01a57b, 0x8208f4c1, 0xf50fc457, 0x65b0d9c6, 0x12b7e950,
     0x8bbeb8ea, 0xfcb9887c, 0x62dd1ddf, 0x15da2d49, 0x8cd37cf3, 0xfbd44c65,
     0x4db26158, 0x3ab551ce, 0xa3bc0074, 0xd4bb30e2, 0x4adfa541, 0x3dd895d7,
     0xa4d1c46d, 0xd3d6f4fb, 0x4369e96a, 0x346ed9fc, 0xad678846, 0xda60b8d0,
     0x44042d73, 0x33031de5, 0xaa0a4c5f, 0xdd0d7cc9, 0x5005713c, 0x270241aa,
     0xbe0b1010, 0xc90c2086, 0x5768b525, 0x206f85b3, 0xb966d409, 0xce61e49f,
     0x5edef90e, 0x29d9c998, 0xb0d09822, 0xc7d7a8b4, 0x59b33d17, 0x2eb40d81,
     0xb7bd5c3b, 0xc0ba6cad, 0xedb88320, 0x9abfb3b6, 0x03b6e20c, 0x74b1d29a,
     0xead54739, 0x9dd277af, 0x04db2615, 0x73dc1683, 0xe3630b12, 0x94643b84,
     0x0d6d6a3e, 0x7a6a5aa8, 0xe40ecf0b, 0x9309ff9d, 0x0a00ae27, 0x7d079eb1,
     0xf00f9344, 0x8708a3d2, 0x1e01f268, 0x6906c2fe, 0xf762575d, 0x806567cb,
     0x196c3671, 0x6e6b06e7, 0xfed41b76, 0x89d32be0, 0x10da7a5a, 0x67dd4acc,
     0xf9b9df6f, 0x8ebeeff9, 0x17b7be43, 0x60b08ed5, 0xd6d6a3e8, 0xa1d1937e,
     0x38d8c2c4, 0x4fdff252, 0xd1bb67f1, 0xa6bc5767, 0x3fb506dd, 0x48b2364b,
     0xd80d2bda, 0xaf0a1b4c, 0x36034af6, 0x41047a60, 0xdf60efc3, 0xa867df55,
     0x316e8eef, 0x4669be79, 0xcb61b38c, 0xbc66831a, 0x256fd2a0, 0x5268e236,
     0xcc0c7795, 0xbb0b4703, 0x220216b9, 0x5505262f, 0xc5ba3bbe, 0xb2bd0b28,
     0x2bb45a92, 0x5cb36a04, 0xc2d7ffa7, 0xb5d0cf31, 0x2cd99e8b, 0x5bdeae1d,
     0x9b64c2b0, 0xec63f226, 0x756aa39c, 0x026d930a, 0x9c0906a9, 0xeb0e363f,
     0x72076785, 0x05005713, 0x95bf4a82, 0xe2b87a14, 0x7bb12bae, 0x0cb61b38,
     0x92d28e9b, 0xe5d5be0d, 0x7cdcefb7, 0x0bdbdf21, 0x86d3d2d4, 0xf1d4e242,
     0x68ddb3f8, 0x1fda836e, 0x81be16cd, 0xf6b9265b, 0x6fb077e1, 0x18b74777,
     0x88085ae6, 0xff0f6a70, 0x66063bca, 0x11010b5c, 0x8f659eff, 0xf862ae69,
     0x616bffd3, 0x166ccf45, 0xa00ae278, 0xd70dd2ee, 0x4e048354, 0x3903b3c2,
     0xa7672661, 0xd06016f7, 0x4969474d, 0x3e6e77db, 0xaed16a4a, 0xd9d65adc,
     0x40df0b66, 0x37d83bf0, 0xa9bcae53, 0xdebb9ec5, 0x47b2cf7f, 0x30b5ffe9,
     0xbdbdf21c, 0xcabac28a, 0x53b39330, 0x24b4a3a6, 0xbad03605, 0xcdd70693,
     0x54de5729, 0x23d967bf, 0xb3667a2e, 0xc4614ab8, 0x5d681b02, 0x2a6f2b94,
     0xb40bbe37, 0xc30c8ea1, 0x5a05df1b, 0x2d02ef8d]"

definition crc32_step :: "u32 \<Rightarrow> byte \<Rightarrow> u32" where
  "crc32_step crc b = crc32_tab ! unat ((crc XOR ucast b) AND 0xFF) XOR drop_bit 8 crc"

definition crc32_raw :: "byte list \<Rightarrow> u32 \<Rightarrow> u32" where
  "crc32_raw buf crc = foldl crc32_step crc buf"

definition chunk_size :: "int \<Rightarrow> nat" where
  "chunk_size sysconf_result =
     (let page_size = nat (if sysconf_result = -1 then 4096 else sysconf_result);
          sz = 64 * 1024 * 1024 div page_size * page_size
      in if sz = 0 then page_size else sz)"

text \<open>The loop over the chunks: \<open>None\<close> when \<open>mmap\<close> or \<open>munmap\<close> fails.\<close>

function crc_chunks ::
  "(nat \<Rightarrow> bool) \<Rightarrow> (nat \<Rightarrow> bool) \<Rightarrow> nat \<Rightarrow> byte list \<Rightarrow> nat \<Rightarrow> u32 \<Rightarrow> u32 option" where
  "crc_chunks mmap_ok munmap_ok chunk file offset crc =
     (if offset < length file \<and> 0 < chunk then
        let len = (if length file - offset > chunk then chunk else length file - offset)
        in if \<not> mmap_ok offset then None
           else let crc = crc32_raw (take len (drop offset file)) crc
                in if \<not> munmap_ok offset then None
                   else crc_chunks mmap_ok munmap_ok chunk file (offset + len) crc
      else Some crc)"
  by pat_completeness auto
termination
  by (relation "measure (\<lambda>(_, _, _, file, offset, _). length file - offset)") auto

declare crc_chunks.simps [simp del]

text \<open>The exit status and the number printed.\<close>

definition crc_main ::
  "nat \<Rightarrow> bool \<Rightarrow> bool \<Rightarrow> int \<Rightarrow> (nat \<Rightarrow> bool) \<Rightarrow> (nat \<Rightarrow> bool) \<Rightarrow> byte list \<Rightarrow> nat \<times> u32 option" where
  "crc_main argc open_ok fstat_ok sysconf_result mmap_ok munmap_ok file =
     (if argc \<noteq> 2 then (1, None)
      else if \<not> open_ok then (1, None)
      else if \<not> fstat_ok then (1, None)
      else case crc_chunks mmap_ok munmap_ok (chunk_size sysconf_result) file 0 (NOT 0) of
             None \<Rightarrow> (1, None)
           | Some crc \<Rightarrow> (0, Some (crc XOR NOT 0)))"

section \<open>Specification: bit-serial division\<close>

definition crc_shift :: "u32 \<Rightarrow> u32" where
  "crc_shift c = (if bit c 0 then drop_bit 1 c XOR 0xEDB88320 else drop_bit 1 c)"

definition crc_shift8 :: "u32 \<Rightarrow> u32" where
  "crc_shift8 c = (crc_shift ^^ 8) c"

definition crc_bitwise :: "byte list \<Rightarrow> u32 \<Rightarrow> u32" where
  "crc_bitwise data crc = foldl (\<lambda>crc b. crc_shift8 (crc XOR ucast b)) crc data"

definition crc32_of :: "byte list \<Rightarrow> u32" where
  "crc32_of data = crc_bitwise data (NOT 0) XOR NOT 0"

section \<open>The shift is linear and injective\<close>

lemma bit_poly31: "bit (0xEDB88320 :: u32) 31"
  by simp

lemma bit_drop1: "bit (drop_bit (Suc 0) (c :: u32)) n \<longleftrightarrow> bit c (Suc n)"
  by (simp add: bit_drop_bit_eq)

lemma bit_top: "\<not> bit (c :: u32) 32"
  by (rule impossible_bit) simp

lemma xor_eq_0: "(a :: u32) XOR b = 0 \<longleftrightarrow> a = b"
  by (metis xor.assoc xor.left_neutral xor_self_eq)

lemma xor_cancel [simp]: "(a :: u32) XOR b = a XOR c \<longleftrightarrow> b = c"
proof
  assume "a XOR b = a XOR c"
  then have "a XOR (a XOR b) = a XOR (a XOR c)" by simp
  then show "b = c" by (simp flip: xor.assoc)
qed simp

lemma xor_cancel_right [simp]: "(b :: u32) XOR a = c XOR a \<longleftrightarrow> b = c"
  using xor_cancel [of a b c] by (simp add: xor.commute)

lemma crc_shift_even: "\<not> bit c 0 \<Longrightarrow> crc_shift c = drop_bit 1 c"
  by (simp add: crc_shift_def)

lemma crc_shift_xor: "crc_shift (a XOR b) = crc_shift a XOR crc_shift b"
  by (rule bit_word_eqI) (auto simp: crc_shift_def bit_simps)

lemma crc_shift_0 [simp]: "crc_shift 0 = 0"
  by (simp add: crc_shift_def)

lemma crc_shift_eq_0: "crc_shift c = 0 \<longleftrightarrow> c = 0"
proof
  assume z: "crc_shift c = 0"
  have "bit (crc_shift c) 31 \<longleftrightarrow> bit c 0"
    by (simp add: crc_shift_def bit_xor_iff bit_drop1 bit_top)
  then have b0: "\<not> bit c 0" using z by simp
  then have d: "drop_bit 1 c = 0" using z by (simp add: crc_shift_def)
  show "c = 0"
  proof (rule bit_word_eqI)
    fix n
    show "bit c n = bit 0 n" using b0 d bit_drop1 [of c] by (cases n) auto
  qed
qed simp

lemma crc_shift_inj: "crc_shift a = crc_shift b \<longleftrightarrow> a = b"
proof -
  have "crc_shift a = crc_shift b \<longleftrightarrow> crc_shift (a XOR b) = 0"
    by (simp add: crc_shift_xor xor_eq_0)
  then show ?thesis by (simp add: crc_shift_eq_0 xor_eq_0)
qed

lemma crc_shifts_xor: "(crc_shift ^^ n) (a XOR b) = (crc_shift ^^ n) a XOR (crc_shift ^^ n) b"
  by (induction n) (simp_all add: crc_shift_xor)

lemma crc_shifts_inj: "(crc_shift ^^ n) a = (crc_shift ^^ n) b \<longleftrightarrow> a = b"
  by (induction n) (simp_all add: crc_shift_inj)

text \<open>Zero bits at the bottom are just shifted out.\<close>

lemma crc_shifts_low_zero:
  "(\<And>i. i < n \<Longrightarrow> \<not> bit c i) \<Longrightarrow> (crc_shift ^^ n) c = drop_bit n c"
proof (induction n)
  case (Suc n)
  then have "(crc_shift ^^ n) c = drop_bit n c" by simp
  moreover have "\<not> bit (drop_bit n c) 0" using Suc.prems [of n] by (simp add: bit_drop_bit_eq)
  ultimately show ?case by (simp add: crc_shift_even)
qed simp

lemma crc_shift8_xor: "crc_shift8 (a XOR b) = crc_shift8 a XOR crc_shift8 b"
  by (simp add: crc_shift8_def crc_shifts_xor)

lemma crc_shift8_inj: "crc_shift8 a = crc_shift8 b \<longleftrightarrow> a = b"
  by (simp add: crc_shift8_def crc_shifts_inj)

section \<open>The table\<close>

lemma crc_shift8_unfold: "crc_shift8 c = crc_shift (crc_shift (crc_shift (crc_shift
    (crc_shift (crc_shift (crc_shift (crc_shift c)))))))"
  by (simp add: crc_shift8_def eval_nat_numeral)

text \<open>
  Each block of \<open>2 ^ i\<close> entries is the previous entries changed by one basis value, as the
  shift is linear.
\<close>

lemma of_nat_xor_pow:
  assumes "j < 2 ^ i"
  shows "(of_nat (2 ^ i + j) :: u32) = 2 ^ i XOR of_nat j"
proof -
  have "take_bit i j = j" using assms by (simp add: take_bit_nat_eq_self)
  then have "\<not> bit j i" by (metis bit_take_bit_iff less_irrefl)
  then have "2 ^ i AND j = 0"
    by (intro bit_eqI) (auto simp: bit_and_iff bit_exp_iff)
  then have "(of_nat (2 ^ i + j) :: u32) = of_nat (2 ^ i XOR j)"
    by (simp add: disjunctive_add_eq_xor)
  then show ?thesis by (simp add: of_nat_xor_eq)
qed

definition tab_block :: "nat \<Rightarrow> bool" where
  "tab_block i \<longleftrightarrow> take (2 ^ i) (drop (2 ^ i) crc32_tab) =
     map (\<lambda>x. crc_shift8 (2 ^ i) XOR x) (take (2 ^ i) crc32_tab)"

lemma tab_blocks: "tab_block 0" "tab_block 1" "tab_block 2" "tab_block 3" "tab_block 4"
  "tab_block 5" "tab_block 6" "tab_block 7"
  by (simp_all add: tab_block_def crc32_tab_def crc_shift8_unfold crc_shift_def)

lemma length_tab: "length crc32_tab = 256"
  by (simp add: crc32_tab_def)

lemma tab_block_nth:
  assumes "tab_block i" "j < 2 ^ i" "2 ^ Suc i \<le> (2::nat) ^ 8"
  shows "crc32_tab ! (2 ^ i + j) = crc_shift8 (2 ^ i) XOR crc32_tab ! j"
proof -
  have "take (2 ^ i) (drop (2 ^ i) crc32_tab) ! j = crc32_tab ! (2 ^ i + j)"
    using assms(2,3) by (simp add: length_tab)
  moreover have "map (\<lambda>x. crc_shift8 (2 ^ i) XOR x) (take (2 ^ i) crc32_tab) ! j =
      crc_shift8 (2 ^ i) XOR crc32_tab ! j"
    using assms(2,3) by (simp add: length_tab)
  ultimately show ?thesis using assms(1) by (simp add: tab_block_def)
qed

lemma tab_upto: "i \<le> 8 \<Longrightarrow> n < 2 ^ i \<Longrightarrow> crc32_tab ! n = crc_shift8 (of_nat n)"
proof (induction i arbitrary: n)
  case 0
  then show ?case by (simp add: crc32_tab_def crc_shift8_def crc_shifts_low_zero)
next
  case (Suc i)
  show ?case
  proof (cases "n < 2 ^ i")
    case True
    then show ?thesis using Suc by simp
  next
    case False
    define j where "j = n - 2 ^ i"
    have j: "n = 2 ^ i + j" "j < 2 ^ i" using False Suc.prems(2) by (simp_all add: j_def)
    have "i < 8" using Suc.prems(1) by simp
    then have "i \<in> {0, 1, 2, 3, 4, 5, 6, 7}" by auto
    then have "tab_block i" using tab_blocks by auto
    moreover have "2 ^ Suc i \<le> (2::nat) ^ 8" using Suc.prems(1) by (intro power_increasing) auto
    ultimately have "crc32_tab ! n = crc_shift8 (2 ^ i) XOR crc32_tab ! j"
      unfolding j(1) using j(2) by (intro tab_block_nth) simp_all
    also have "crc32_tab ! j = crc_shift8 (of_nat j)" using Suc j by simp
    also have "crc_shift8 (2 ^ i) XOR crc_shift8 (of_nat j) = crc_shift8 (of_nat n)"
      unfolding j(1) of_nat_xor_pow [OF j(2)] by (simp add: crc_shift8_xor)
    finally show ?thesis .
  qed
qed

lemma crc32_tab_nth: "n < 256 \<Longrightarrow> crc32_tab ! n = crc_shift8 (of_nat n)"
  using tab_upto [of 8 n] by simp

section \<open>The table-driven step is eight bit-serial steps\<close>

lemma low_byte_split: "(c :: u32) = (c AND 0xFF) XOR push_bit 8 (drop_bit 8 c)"
proof -
  have "c AND 0xFF = take_bit 8 c" by (simp add: take_bit_eq_mask mask_eq_exp_minus_1)
  then show ?thesis by (intro bit_word_eqI) (auto simp: bit_simps)
qed

lemma byte_top: "\<not> bit (b :: byte) (8 + n)"
  by (rule impossible_bit) simp

lemma crc_shift8_high: "crc_shift8 (push_bit 8 z) = drop_bit 8 (push_bit 8 z)"
  unfolding crc_shift8_def by (rule crc_shifts_low_zero) (simp add: bit_push_bit_iff)

lemma crc32_step_shift: "crc32_step crc b = crc_shift8 (crc XOR ucast b)"
proof -
  let ?x = "crc XOR ucast b :: u32"
  have mask: "?x AND 0xFF = take_bit 8 ?x" by (simp add: take_bit_eq_mask mask_eq_exp_minus_1)
  have "unat (take_bit 8 ?x) = take_bit 8 (unat ?x)" by (rule unsigned_take_bit_eq)
  then have "unat (?x AND 0xFF) < 256"
    unfolding mask using take_bit_nat_less_exp [of 8 "unat ?x"] by (simp only:) simp
  then have t: "crc32_tab ! unat (?x AND 0xFF) = crc_shift8 (?x AND 0xFF)"
    by (simp add: crc32_tab_nth)
  have d: "drop_bit 8 ?x = drop_bit 8 crc"
    by (rule bit_word_eqI) (auto simp: bit_simps byte_top)
  have h: "crc_shift8 (push_bit 8 (drop_bit 8 ?x)) = drop_bit 8 crc"
    unfolding crc_shift8_high
    by (rule bit_word_eqI) (auto simp: bit_simps byte_top dest: bit_imp_le_length)
  have "crc_shift8 ?x = crc_shift8 ((?x AND 0xFF) XOR push_bit 8 (drop_bit 8 ?x))"
    by (subst (1) low_byte_split) simp
  also have "\<dots> = crc32_tab ! unat (?x AND 0xFF) XOR drop_bit 8 crc"
    unfolding crc_shift8_xor t h ..
  finally show ?thesis by (simp add: crc32_step_def)
qed

lemma crc32_raw_bitwise: "crc32_raw buf crc = crc_bitwise buf crc"
  by (simp add: crc32_raw_def crc_bitwise_def crc32_step_shift [abs_def])

section \<open>The chunk loop\<close>

lemma crc_bitwise_append: "crc_bitwise (xs @ ys) c = crc_bitwise ys (crc_bitwise xs c)"
  by (simp add: crc_bitwise_def)

lemma crc_chunks_result:
  assumes "0 < chunk"
  shows "crc_chunks mmap_ok munmap_ok chunk file (k * chunk) crc =
    (if \<forall>i \<ge> k. i * chunk < length file \<longrightarrow> mmap_ok (i * chunk) \<and> munmap_ok (i * chunk)
     then Some (crc_bitwise (drop (k * chunk) file) crc) else None)"
proof (induction "length file - k * chunk" arbitrary: k crc rule: less_induct)
  case less
  show ?case
  proof (cases "k * chunk < length file")
    case False
    then have "\<not> i * chunk < length file" if "i \<ge> k" for i
      using mult_le_mono1 [OF that, of chunk] by linarith
    moreover have r: "crc_bitwise (drop (k * chunk) file) crc = crc"
      using False by (simp add: crc_bitwise_def)
    ultimately show ?thesis unfolding r by (subst crc_chunks.simps) simp
  next
    case True
    let ?len = "if length file - k * chunk > chunk then chunk else length file - k * chunk"
    let ?rest = "crc_chunks mmap_ok munmap_ok chunk file (k * chunk + ?len)"
    have step: "crc_chunks mmap_ok munmap_ok chunk file (k * chunk) crc =
        (if mmap_ok (k * chunk) \<and> munmap_ok (k * chunk)
         then ?rest (crc_bitwise (take ?len (drop (k * chunk) file)) crc) else None)"
      using True assms by (subst crc_chunks.simps) (simp add: Let_def crc32_raw_bitwise)
    have all: "(\<forall>i \<ge> k. P i) \<longleftrightarrow> P k \<and> (\<forall>i \<ge> Suc k. P i)" for P :: "nat \<Rightarrow> bool"
      by (metis Suc_leD le_antisym not_less_eq_eq order_refl)
    have rest: "?rest c = (if \<forall>i \<ge> Suc k. i * chunk < length file \<longrightarrow> mmap_ok (i * chunk) \<and> munmap_ok (i * chunk)
        then Some (crc_bitwise (drop (Suc k * chunk) file) c) else None)" for c
    proof (cases "length file - k * chunk > chunk")
      case True
      have dec: "length file - Suc k * chunk < length file - k * chunk"
        using True \<open>k * chunk < length file\<close> assms by simp
      have "k * chunk + ?len = Suc k * chunk" using True by simp
      then show ?thesis using less(1) [of "Suc k" c] dec by (simp only:)
    next
      case False
      then have far: "length file \<le> Suc k * chunk" by simp
      then have "\<not> i * chunk < length file" if "i \<ge> Suc k" for i
        using mult_le_mono1 [OF that, of chunk] by linarith
      moreover have "drop (Suc k * chunk) file = []" using far by simp
      moreover have "k * chunk + ?len = length file" using False \<open>k * chunk < length file\<close> by simp
      ultimately show ?thesis
        by (simp only: crc_chunks.simps [of _ _ _ _ "length file"]) (simp add: crc_bitwise_def)
    qed
    have "crc_bitwise (drop (Suc k * chunk) file) (crc_bitwise (take ?len (drop (k * chunk) file)) crc) =
        crc_bitwise (drop (k * chunk) file) crc"
      using append_take_drop_id [of ?len "drop (k * chunk) file"]
      by (auto simp: crc_bitwise_append [symmetric] add.commute)
    then show ?thesis
      unfolding step rest using True by (subst all) auto
  qed
qed

lemma chunk_size_pos: "n = -1 \<or> 0 < n \<Longrightarrow> 0 < chunk_size n"
  by (auto simp: chunk_size_def Let_def)

section \<open>What the program promises\<close>

text \<open>
  Property C18. The program prints the CRC-32 of the whole file (the bit-serial definition with
  initial value and final complement), whatever the page size; it exits with status 1 and prints
  no number exactly when the file cannot be opened or one of the chunks cannot be mapped or
  unmapped.
\<close>

theorem crc_main_prints_crc:
  assumes "sysconf_result = -1 \<or> 0 < sysconf_result"
  shows "crc_main 2 open_ok fstat_ok sysconf_result mmap_ok munmap_ok file =
    (if open_ok \<and> fstat_ok \<and> (\<forall>k. k * chunk_size sysconf_result < length file \<longrightarrow>
          mmap_ok (k * chunk_size sysconf_result) \<and> munmap_ok (k * chunk_size sysconf_result))
     then (0, Some (crc32_of file)) else (1, None))"
  using crc_chunks_result [OF chunk_size_pos [OF assms], where k = 0 and crc = "NOT 0"]
  by (auto simp: crc_main_def crc32_of_def)

lemma check_steps:
  "crc_shift8 0xFFFFFFCE = 0x7C231048"
  "crc_shift8 0x7C23107A = 0xB0ACBB32"
  "crc_shift8 0xB0ACBB01 = 0x77B79C2D"
  "crc_shift8 0x77B79C19 = 0x641C1F5C"
  "crc_shift8 0x641C1F69 = 0x340AC5E3"
  "crc_shift8 0x340AC5D5 = 0xF68D2C9E"
  "crc_shift8 0xF68D2CA9 = 0xAFFC9660"
  "crc_shift8 0xAFFC9658 = 0x651F2550"
  "crc_shift8 0x651F2569 = 0x340BC6D9"
  by (simp_all add: crc_shift8_unfold crc_shift_def)

lemma check_value:
  "crc32_of [0x31, 0x32, 0x33, 0x34, 0x35, 0x36, 0x37, 0x38, 0x39] = 0xCBF43926"
proof -
  have start: "(NOT 0 :: u32) = 0xFFFFFFFF" by simp
  have "crc_bitwise [0x31, 0x32, 0x33, 0x34, 0x35, 0x36, 0x37, 0x38, 0x39] 0xFFFFFFFF = 0x340BC6D9"
    by (simp add: crc_bitwise_def check_steps)
  then show ?thesis unfolding crc32_of_def start by simp
qed

lemma crc_main_prints_crc_witness:
  "crc_main 2 True True 4096 (\<lambda>_. True) (\<lambda>_. True)
     [0x31, 0x32, 0x33, 0x34, 0x35, 0x36, 0x37, 0x38, 0x39] = (0, Some 0xCBF43926)"
  using crc_main_prints_crc [of 4096 True True "\<lambda>_. True" "\<lambda>_. True"
      "[0x31, 0x32, 0x33, 0x34, 0x35, 0x36, 0x37, 0x38, 0x39]"]
  by (simp add: check_value)

section \<open>Error detection\<close>

text \<open>The number that up to four bytes stand for, the first byte lowest.\<close>

fun le32 :: "byte list \<Rightarrow> u32" where
  "le32 [] = 0"
| "le32 (b # bs) = ucast b XOR push_bit 8 (le32 bs)"

lemma le32_bits: "bit (le32 w) i \<Longrightarrow> i < 8 * length w"
proof (induction w arbitrary: i)
  case (Cons b w)
  have "bit (ucast b :: u32) i \<or> bit (push_bit 8 (le32 w)) i"
    using Cons.prems by (auto simp: bit_xor_iff)
  then show ?case
  proof
    assume "bit (ucast b :: u32) i"
    then have "bit b i" by (simp add: bit_ucast_iff)
    then show ?thesis using bit_imp_le_length [of b i] by simp
  next
    assume "bit (push_bit 8 (le32 w)) i"
    then have "8 \<le> i" "bit (le32 w) (i - 8)" by (simp_all add: bit_push_bit_iff)
    then show ?thesis using Cons.IH [of "i - 8"] by simp
  qed
qed simp

lemma drop_push_le32:
  assumes "length w \<le> 3"
  shows "drop_bit 8 (push_bit 8 (le32 w)) = le32 w"
proof (rule bit_word_eqI)
  fix n
  have "n < 24" if "bit (le32 w) n" using le32_bits [OF that] assms by simp
  then show "bit (drop_bit 8 (push_bit 8 (le32 w))) n = bit (le32 w) n"
    by (auto simp: bit_drop_bit_eq bit_push_bit_iff)
qed

lemma crc_bitwise_word:
  "length w \<le> 4 \<Longrightarrow> crc_bitwise w c = (crc_shift8 ^^ length w) (c XOR le32 w)"
proof (induction w arbitrary: c)
  case Nil
  then show ?case by (simp add: crc_bitwise_def)
next
  case (Cons b w)
  have l: "le32 w = crc_shift8 (push_bit 8 (le32 w))"
    using Cons.prems by (simp add: crc_shift8_high drop_push_le32)
  have "crc_bitwise (b # w) c = crc_bitwise w (crc_shift8 (c XOR ucast b))"
    by (simp add: crc_bitwise_def)
  also have "\<dots> = (crc_shift8 ^^ length w) (crc_shift8 (c XOR ucast b) XOR le32 w)"
    using Cons by simp
  also have "crc_shift8 (c XOR ucast b) XOR le32 w = crc_shift8 (c XOR le32 (b # w))"
    by (subst l) (simp add: crc_shift8_xor xor.assoc)
  finally show ?case by (simp add: funpow_swap1)
qed

lemma le32_inj: "length w = length w' \<Longrightarrow> length w \<le> 4 \<Longrightarrow> le32 w = le32 w' \<Longrightarrow> w = w'"
proof (induction w w' rule: list_induct2)
  case (Cons b w b' w')
  have bits: "bit (ucast b XOR push_bit 8 (le32 w)) i = bit (ucast b' XOR push_bit 8 (le32 w') :: u32) i" for i
    using Cons.prems by simp
  have "b = b'"
  proof (rule bit_word_eqI)
    fix n assume "n < LENGTH(8)"
    then show "bit b n = bit b' n" using bits [of n] 
      by (simp add: bit_xor_iff bit_ucast_iff bit_push_bit_iff)
  qed
  then have "push_bit 8 (le32 w) = push_bit 8 (le32 w')" using Cons.prems by simp
  then have "drop_bit 8 (push_bit 8 (le32 w)) = drop_bit 8 (push_bit 8 (le32 w'))"
    by (rule arg_cong)
  moreover have "length w \<le> 3" "length w' \<le> 3" using Cons.prems Cons.hyps by auto
  ultimately have "le32 w = le32 w'" unfolding drop_push_le32 [OF \<open>length w \<le> 3\<close>]
      drop_push_le32 [OF \<open>length w' \<le> 3\<close>] by simp
  then show ?case using Cons.IH Cons.prems(1) \<open>b = b'\<close> by simp
qed simp

lemma crc_shift8_funpow_inj: "(crc_shift8 ^^ n) a = (crc_shift8 ^^ n) b \<longleftrightarrow> a = b"
  by (induction n) (simp_all add: crc_shift8_inj)

lemma crc_bitwise_inj: "crc_bitwise data a = crc_bitwise data b \<longleftrightarrow> a = b"
proof (induction data arbitrary: a b)
  case (Cons x data)
  show ?case using Cons.IH by (simp add: crc_bitwise_def crc_shift8_inj)
qed (simp add: crc_bitwise_def)

text \<open>
  Property C34. Any corruption confined to four consecutive bytes of a file changes the
  checksum that \<open>crc32_raw\<close> computes, from every initial value.
\<close>

theorem crc_detects_bursts:
  assumes "length w = length w'" and "length w \<le> 4" and "w \<noteq> w'"
  shows "crc32_raw (xs @ w @ ys) crc \<noteq> crc32_raw (xs @ w' @ ys) crc"
proof -
  have "crc_bitwise w c \<noteq> crc_bitwise w' c" for c
  proof -
    have "c XOR le32 w \<noteq> c XOR le32 w'"
      using le32_inj [OF assms(1,2)] assms(3) by auto
    then show ?thesis
      using assms by (simp add: crc_bitwise_word crc_shift8_funpow_inj)
  qed
  then show ?thesis by (simp add: crc32_raw_bitwise crc_bitwise_append crc_bitwise_inj)
qed

lemma crc_detects_bursts_witness:
  "crc32_raw ([1] @ [2, 3] @ [4]) 0 \<noteq> crc32_raw ([1] @ [3, 2] @ [4]) 0"
  using crc_detects_bursts [of "[2, 3]" "[3, 2]" "[1]" "[4]" 0] by simp

end
