(* ===== verification/Zip.thy ===== *)
theory Zip
  imports Prelude
begin

text \<open>
  The Zip lister 03_types_homework: it finds a Zip archive at the end of any file, checks its
  headers and prints the names of its members. The file is the list \<open>src\<close> of its bytes; a
  pointer into it is a position; every read of a byte outside it is the fault \<open>OutOfBounds\<close>, a
  failing \<open>assert\<close> the fault \<open>AssertFailed\<close>. Fields keep their width, and \<open>size_t\<close> arithmetic that
  can wrap is done on 64-bit words. \<open>mktime\<close> is a parameter.
\<close>

section \<open>Little-endian reads\<close>

definition byte_at :: "byte list \<Rightarrow> nat \<Rightarrow> byte cres" where
  "byte_at src p = (if p < length src then Inr (src ! p) else Inl OutOfBounds)"

definition read16le :: "byte list \<Rightarrow> nat \<Rightarrow> u16 cres" where
  "read16le src p =
     bindE (byte_at src p) (\<lambda>b0. bindE (byte_at src (p + 1)) (\<lambda>b1.
     Inr (ucast b0 OR push_bit 8 (ucast b1))))"

definition read32le :: "byte list \<Rightarrow> nat \<Rightarrow> u32 cres" where
  "read32le src p =
     bindE (byte_at src p) (\<lambda>b0. bindE (byte_at src (p + 1)) (\<lambda>b1.
     bindE (byte_at src (p + 2)) (\<lambda>b2. bindE (byte_at src (p + 3)) (\<lambda>b3.
     Inr (ucast b0 OR push_bit 8 (ucast b1) OR push_bit 16 (ucast b2) OR push_bit 24 (ucast b3))))))"

definition read64le :: "byte list \<Rightarrow> nat \<Rightarrow> u64 cres" where
  "read64le src p =
     bindE (byte_at src p) (\<lambda>b0. bindE (byte_at src (p + 1)) (\<lambda>b1.
     bindE (byte_at src (p + 2)) (\<lambda>b2. bindE (byte_at src (p + 3)) (\<lambda>b3.
     bindE (byte_at src (p + 4)) (\<lambda>b4. bindE (byte_at src (p + 5)) (\<lambda>b5.
     bindE (byte_at src (p + 6)) (\<lambda>b6. bindE (byte_at src (p + 7)) (\<lambda>b7.
     Inr (ucast b0 OR push_bit 8 (ucast b1) OR push_bit 16 (ucast b2) OR push_bit 24 (ucast b3) OR
          push_bit 32 (ucast b4) OR push_bit 40 (ucast b5) OR push_bit 48 (ucast b6) OR
          push_bit 56 (ucast b7))))))))))"

text \<open>\<open>READ16\<close> and \<open>READ32\<close> read at \<open>p\<close> and hand on the position behind.\<close>

definition READ16 :: "byte list \<Rightarrow> nat \<Rightarrow> (u16 \<Rightarrow> nat \<Rightarrow> 'a cres) \<Rightarrow> 'a cres" where
  "READ16 src p k = bindE (read16le src p) (\<lambda>v. k v (p + 2))"

definition READ32 :: "byte list \<Rightarrow> nat \<Rightarrow> (u32 \<Rightarrow> nat \<Rightarrow> 'a cres) \<Rightarrow> 'a cres" where
  "READ32 src p k = bindE (read32le src p) (\<lambda>v. k v (p + 4))"

definition c_assert :: "bool \<Rightarrow> 'a cres \<Rightarrow> 'a cres" where
  "c_assert b k = (if b then k else Inl AssertFailed)"

section \<open>Headers\<close>

record eocdr =
  disk_nbr :: u16
  cd_start_disk :: u16
  disk_cd_entries :: u16
  cd_entries :: u16
  cd_size :: u32
  cd_offset :: u32
  eo_comment_len :: u16
  eo_comment :: nat

definition EOCDR_BASE_SZ :: nat where "EOCDR_BASE_SZ = 22"
definition EOCDR_SIGNATURE :: u32 where "EOCDR_SIGNATURE = 0x06054b50"
definition EXT_ATTR_DIR :: u32 where "EXT_ATTR_DIR = push_bit 4 1"

record cfh =
  made_by_ver :: u16
  c_extract_ver :: u16
  c_gp_flag :: u16
  c_method :: u16
  c_mod_time :: u16
  c_mod_date :: u16
  c_crc32 :: u32
  c_comp_size :: u32
  c_uncomp_size :: u32
  c_name_len :: u16
  c_extra_len :: u16
  c_comment_len :: u16
  disk_nbr_start :: u16
  int_attrs :: u16
  ext_attrs :: u32
  lfh_offset :: u32
  c_name :: nat
  c_extra :: nat
  c_comment :: nat

definition CFH_BASE_SZ :: nat where "CFH_BASE_SZ = 46"
definition CFH_SIGNATURE :: u32 where "CFH_SIGNATURE = 0x02014b50"

definition read_cfh :: "byte list \<Rightarrow> nat \<Rightarrow> u64 \<Rightarrow> cfh option cres" where
  "read_cfh src offset zip_file_offset =
     (if offset > length src \<or> length src - offset < CFH_BASE_SZ then Inr None
      else READ32 src offset (\<lambda>signature p.
        if signature \<noteq> CFH_SIGNATURE then Inr None
        else
          READ16 src p (\<lambda>made p. READ16 src p (\<lambda>ver p. READ16 src p (\<lambda>flag p.
          READ16 src p (\<lambda>meth p. READ16 src p (\<lambda>mtime p. READ16 src p (\<lambda>mdate p.
          READ32 src p (\<lambda>crc p. READ32 src p (\<lambda>csize p. READ32 src p (\<lambda>usize p.
          READ16 src p (\<lambda>nlen p. READ16 src p (\<lambda>elen p. READ16 src p (\<lambda>clen p.
          READ16 src p (\<lambda>disk p. READ16 src p (\<lambda>iattr p. READ32 src p (\<lambda>eattr p.
          READ32 src p (\<lambda>lfh_off p.
          let name = p; extra = name + unat nlen; comment = extra + unat elen;
              h = \<lparr>made_by_ver = made, c_extract_ver = ver, c_gp_flag = flag, c_method = meth,
                   c_mod_time = mtime, c_mod_date = mdate, c_crc32 = crc, c_comp_size = csize,
                   c_uncomp_size = usize, c_name_len = nlen, c_extra_len = elen,
                   c_comment_len = clen, disk_nbr_start = disk, int_attrs = iattr,
                   ext_attrs = eattr, lfh_offset = ucast (ucast lfh_off + zip_file_offset),
                   c_name = name, c_extra = extra, c_comment = comment\<rparr>
          in c_assert (p = offset + CFH_BASE_SZ)
               (if length src - offset - CFH_BASE_SZ < unat nlen + unat elen + unat clen
                then Inr None else Inr (Some h))))))))))))))))))))"

text \<open>The fields of the \<open>struct tm\<close> that \<open>dos2ctime\<close> fills before it calls \<open>mktime\<close>.\<close>

record tm =
  tm_sec :: int
  tm_min :: int
  tm_hour :: int
  tm_mday :: int
  tm_mon :: int
  tm_year :: int

definition dos2tm :: "u16 \<Rightarrow> u16 \<Rightarrow> tm" where
  "dos2tm dos_date dos_time =
     \<lparr>tm_sec = uint (dos_time AND 0x1f) * 2,
      tm_min = uint (drop_bit 5 dos_time AND 0x3f),
      tm_hour = uint (drop_bit 11 dos_time),
      tm_mday = uint (dos_date AND 0x1f),
      tm_mon = uint (drop_bit 5 dos_date AND 0xf) - 1,
      tm_year = uint (drop_bit 9 dos_date) + 80\<rparr>"

definition dos2ctime :: "(tm \<Rightarrow> int) \<Rightarrow> u16 \<Rightarrow> u16 \<Rightarrow> int" where
  "dos2ctime mktime dos_date dos_time = mktime (dos2tm dos_date dos_time)"

text \<open>\<open>find_eocdr\<close>: the record and the directory offset stored in it.\<close>

function find_eocdr_from :: "byte list \<Rightarrow> nat \<Rightarrow> (eocdr \<times> u64) option cres" where
  "find_eocdr_from src comment_len =
     (if comment_len > 65535 then Inr None
      else if length src < EOCDR_BASE_SZ + comment_len then Inr None
      else READ32 src (length src - EOCDR_BASE_SZ - comment_len) (\<lambda>signature p.
        if signature = EOCDR_SIGNATURE then
          READ16 src p (\<lambda>disk p. READ16 src p (\<lambda>start p. READ16 src p (\<lambda>dentries p.
          READ16 src p (\<lambda>entries p. READ32 src p (\<lambda>size p. READ32 src p (\<lambda>stored p.
          READ16 src p (\<lambda>clen p.
          let r = \<lparr>disk_nbr = disk, cd_start_disk = start, disk_cd_entries = dentries,
                   cd_entries = entries, cd_size = size,
                   cd_offset = ucast (of_nat (length src) - ucast size - of_nat EOCDR_BASE_SZ
                     - of_nat comment_len :: u64),
                   eo_comment_len = clen, eo_comment = p\<rparr>
          in c_assert (p = length src - comment_len)
               (if unat clen = comment_len then Inr (Some (r, ucast stored))
                else find_eocdr_from src (Suc comment_len)))))))))
        else find_eocdr_from src (Suc comment_len)))"
  by pat_completeness auto
termination
  by (relation "measure (\<lambda>(src, n). 65536 - n)") auto

declare find_eocdr_from.simps [simp del]

definition find_eocdr :: "byte list \<Rightarrow> (eocdr \<times> u64) option cres" where
  "find_eocdr src = find_eocdr_from src 0"

record lfh =
  extract_ver :: u16
  gp_flag :: u16
  l_method :: u16
  mod_time :: u16
  mod_date :: u16
  crc32 :: u32
  comp_size :: u32
  uncomp_size :: u32
  name_len :: u16
  extra_len :: u16
  l_name :: nat
  l_extra :: nat

definition LFH_BASE_SZ :: nat where "LFH_BASE_SZ = 30"
definition LFH_SIGNATURE :: u32 where "LFH_SIGNATURE = 0x04034b50"

definition read_lfh :: "byte list \<Rightarrow> nat \<Rightarrow> lfh option cres" where
  "read_lfh src offset =
     (if offset > length src \<or> length src - offset < LFH_BASE_SZ then Inr None
      else READ32 src offset (\<lambda>signature p.
        if signature \<noteq> LFH_SIGNATURE then Inr None
        else
          READ16 src p (\<lambda>ver p. READ16 src p (\<lambda>flag p. READ16 src p (\<lambda>meth p.
          READ16 src p (\<lambda>mtime p. READ16 src p (\<lambda>mdate p. READ32 src p (\<lambda>crc p.
          READ32 src p (\<lambda>csize p. READ32 src p (\<lambda>usize p. READ16 src p (\<lambda>nlen p.
          READ16 src p (\<lambda>elen p.
          let h = \<lparr>extract_ver = ver, gp_flag = flag, l_method = meth, mod_time = mtime,
                   mod_date = mdate, crc32 = crc, comp_size = csize, uncomp_size = usize,
                   name_len = nlen, extra_len = elen, l_name = p, l_extra = p + unat nlen\<rparr>
          in c_assert (p = offset + LFH_BASE_SZ)
               (if length src - offset - LFH_BASE_SZ < unat nlen + unat elen
                then Inr None else Inr (Some h))))))))))))))"

section \<open>The archive\<close>

record zip_t =
  num_members :: u16
  z_comment :: nat
  z_comment_len :: u16
  members_begin :: nat
  members_end :: nat

definition ZIP_STORED :: u16 where "ZIP_STORED = 0"
definition ZIP_DEFLATED :: u16 where "ZIP_DEFLATED = 8"

text \<open>The bytes of \<open>src\<close> from \<open>p\<close>, \<open>n\<close> of them; reading any of them outside \<open>src\<close> is a fault.\<close>

definition bytes_at :: "byte list \<Rightarrow> nat \<Rightarrow> nat \<Rightarrow> byte list cres" where
  "bytes_at src p n = (if p + n \<le> length src then Inr (take n (drop p src)) else Inl OutOfBounds)"

text \<open>The checks of one member: \<open>None\<close> is \<open>return false\<close>, otherwise the offset of the next one.\<close>

definition check_member :: "byte list \<Rightarrow> u64 \<Rightarrow> nat \<Rightarrow> nat option cres" where
  "check_member src zip_file_offset offset =
     bindE (read_cfh src offset zip_file_offset) (\<lambda>r. case r of None \<Rightarrow> Inr None | Some h \<Rightarrow>
       if c_gp_flag h AND 1 \<noteq> 0 then Inr None
       else if c_method h \<noteq> ZIP_STORED \<and> c_method h \<noteq> ZIP_DEFLATED then Inr None
       else if c_method h = ZIP_STORED \<and> c_uncomp_size h \<noteq> c_comp_size h then Inr None
       else if disk_nbr_start h \<noteq> 0 then Inr None
       else bindE (bytes_at src (c_name h) (unat (c_name_len h))) (\<lambda>name.
         if 0 \<in> set name then Inr None
         else bindE (read_lfh src (unat (lfh_offset h))) (\<lambda>r. case r of None \<Rightarrow> Inr None | Some l \<Rightarrow>
           let comp_data = l_extra l + unat (extra_len l)
           in if unat (c_comp_size h) > length src - comp_data then Inr None
              else Inr (Some (offset + (CFH_BASE_SZ + unat (c_name_len h) + unat (c_extra_len h) +
                     unat (c_comment_len h)))))))"

fun check_members :: "byte list \<Rightarrow> u64 \<Rightarrow> nat \<Rightarrow> nat \<Rightarrow> nat option cres" where
  "check_members src zip_file_offset 0 offset = Inr (Some offset)"
| "check_members src zip_file_offset (Suc i) offset =
     bindE (check_member src zip_file_offset offset) (\<lambda>r. case r of None \<Rightarrow> Inr None
       | Some offset \<Rightarrow> check_members src zip_file_offset i offset)"

definition zip_read :: "byte list \<Rightarrow> (zip_t \<times> u64) option cres" where
  "zip_read src =
     bindE (find_eocdr src) (\<lambda>r. case r of None \<Rightarrow> Inr None | Some (e, stored) \<Rightarrow>
       let zip_file_offset = of_nat (length src)
             - (stored + ucast (cd_size e) + of_nat EOCDR_BASE_SZ + ucast (eo_comment_len e))
       in if disk_nbr e \<noteq> 0 \<or> cd_start_disk e \<noteq> 0 \<or> disk_cd_entries e \<noteq> cd_entries e then Inr None
          else
            let offset = unat (cd_offset e)
            in bindE (check_members src zip_file_offset (unat (cd_entries e)) offset) (\<lambda>r.
                 case r of None \<Rightarrow> Inr None
                 | Some end_offset \<Rightarrow>
                   Inr (Some (\<lparr>num_members = cd_entries e, z_comment = eo_comment e,
                               z_comment_len = eo_comment_len e, members_begin = offset,
                               members_end = end_offset\<rparr>, zip_file_offset))))"

record zipmemb =
  m_name :: nat
  m_name_len :: u16
  m_mtime :: int
  m_comp_size :: u32
  m_comp_data :: nat
  m_method :: u16
  m_uncomp_size :: u32
  m_crc32 :: u32
  m_comment :: nat
  m_comment_len :: u16
  m_is_dir :: bool
  m_next :: nat

definition zip_member :: "(tm \<Rightarrow> int) \<Rightarrow> byte list \<Rightarrow> zip_t \<Rightarrow> u64 \<Rightarrow> nat \<Rightarrow> zipmemb cres" where
  "zip_member mktime src z zip_file_offset it =
     c_assert (it \<ge> members_begin z \<and> it < members_end z)
       (bindE (read_cfh src it zip_file_offset) (\<lambda>r. case r of None \<Rightarrow> Inl AssertFailed | Some h \<Rightarrow>
         bindE (read_lfh src (unat (lfh_offset h))) (\<lambda>r. case r of None \<Rightarrow> Inl AssertFailed | Some l \<Rightarrow>
           let m = \<lparr>m_name = c_name h, m_name_len = c_name_len h,
                    m_mtime = dos2ctime mktime (c_mod_date h) (c_mod_time h),
                    m_comp_size = c_comp_size h, m_comp_data = l_extra l + unat (extra_len l),
                    m_method = c_method h, m_uncomp_size = c_uncomp_size h, m_crc32 = c_crc32 h,
                    m_comment = c_comment h, m_comment_len = c_comment_len h,
                    m_is_dir = (ext_attrs h AND EXT_ATTR_DIR \<noteq> 0),
                    m_next = it + CFH_BASE_SZ + unat (c_name_len h) + unat (c_extra_len h) +
                      unat (c_comment_len h)\<rparr>
           in c_assert (m_next m \<le> members_end z) (Inr m))))"

section \<open>The listing\<close>

text \<open>\<open>printf("%.*s")\<close>: the bytes up to the first null byte, \<open>n\<close> at most.\<close>

definition print_bytes :: "byte list \<Rightarrow> nat \<Rightarrow> u16 \<Rightarrow> byte list cres" where
  "print_bytes src p n = bindE (bytes_at src p (unat n)) (\<lambda>s. Inr (takeWhile (\<lambda>b. b \<noteq> 0) s))"

text \<open>The loop of \<open>list_zip\<close>; it does not return if the iterator misses the end.\<close>

partial_function (option) list_members ::
  "(tm \<Rightarrow> int) \<Rightarrow> byte list \<Rightarrow> zip_t \<Rightarrow> u64 \<Rightarrow> nat \<Rightarrow> byte list list cres option" where
  "list_members mktime src z zip_file_offset it =
     (if it = members_end z then Some (Inr [])
      else case zip_member mktime src z zip_file_offset it of
             Inl e \<Rightarrow> Some (Inl e)
           | Inr m \<Rightarrow>
             (case print_bytes src (m_name m) (m_name_len m) of
                Inl e \<Rightarrow> Some (Inl e)
              | Inr name \<Rightarrow>
                Option.bind (list_members mktime src z zip_file_offset (m_next m))
                  (\<lambda>r. Some (bindE r (\<lambda>names. Inr (name # names))))))"

text \<open>What \<open>list_zip\<close> prints: nothing when parsing fails, else the comment and the names.\<close>

definition list_zip :: "(tm \<Rightarrow> int) \<Rightarrow> byte list \<Rightarrow> (byte list \<times> byte list list) option run" where
  "list_zip mktime src =
     bindR (Some (zip_read src)) (\<lambda>r. case r of
       None \<Rightarrow> Some (Inr None)
     | Some (z, zip_file_offset) \<Rightarrow>
       bindR (Some (if z_comment_len z \<noteq> 0 then print_bytes src (z_comment z) (z_comment_len z)
                    else Inr [])) (\<lambda>comment.
       bindR (list_members mktime src z zip_file_offset (members_begin z)) (\<lambda>names.
       Some (Inr (Some (comment, names))))))"

section \<open>Reads inside the file\<close>

definition val16 :: "byte list \<Rightarrow> nat \<Rightarrow> u16" where
  "val16 src p = ucast (src ! p) OR push_bit 8 (ucast (src ! (p + 1)))"

definition val32 :: "byte list \<Rightarrow> nat \<Rightarrow> u32" where
  "val32 src p = ucast (src ! p) OR push_bit 8 (ucast (src ! (p + 1)))
     OR push_bit 16 (ucast (src ! (p + 2))) OR push_bit 24 (ucast (src ! (p + 3)))"

lemma READ16_inside [simp]: "p + 2 \<le> length src \<Longrightarrow> READ16 src p k = k (val16 src p) (2 + p)"
  by (simp add: READ16_def read16le_def byte_at_def val16_def add.commute)

lemma READ32_inside [simp]: "p + 4 \<le> length src \<Longrightarrow> READ32 src p k = k (val32 src p) (4 + p)"
  by (simp add: READ32_def read32le_def byte_at_def val32_def add.commute)

lemma c_assert_True [simp]: "c_assert True k = k"
  by (simp add: c_assert_def)

definition cfh_at :: "byte list \<Rightarrow> nat \<Rightarrow> u64 \<Rightarrow> cfh" where
  "cfh_at src p zfo =
     \<lparr>made_by_ver = val16 src (4 + p), c_extract_ver = val16 src (6 + p),
      c_gp_flag = val16 src (8 + p), c_method = val16 src (10 + p),
      c_mod_time = val16 src (12 + p), c_mod_date = val16 src (14 + p),
      c_crc32 = val32 src (16 + p), c_comp_size = val32 src (20 + p),
      c_uncomp_size = val32 src (24 + p), c_name_len = val16 src (28 + p),
      c_extra_len = val16 src (30 + p), c_comment_len = val16 src (32 + p),
      disk_nbr_start = val16 src (34 + p), int_attrs = val16 src (36 + p),
      ext_attrs = val32 src (38 + p), lfh_offset = ucast (ucast (val32 src (42 + p)) + zfo),
      c_name = p + 46, c_extra = p + 46 + unat (val16 src (28 + p)),
      c_comment = p + 46 + unat (val16 src (28 + p)) + unat (val16 src (30 + p))\<rparr>"

text \<open>The size of a central file header with its name, extra data and comment.\<close>

definition cfh_size :: "byte list \<Rightarrow> nat \<Rightarrow> nat" where
  "cfh_size src p = CFH_BASE_SZ + unat (val16 src (28 + p)) + unat (val16 src (30 + p)) +
     unat (val16 src (32 + p))"

lemma read_cfh_eq:
  "read_cfh src p zfo =
    Inr (if p + 46 \<le> length src \<and> val32 src p = CFH_SIGNATURE \<and> p + cfh_size src p \<le> length src
         then Some (cfh_at src p zfo) else None)"
proof (cases "p + 46 \<le> length src")
  case True
  then show ?thesis
    by (simp add: read_cfh_def CFH_BASE_SZ_def Let_def cfh_at_def cfh_size_def)
      (intro impI conjI; linarith)
next
  case False
  then show ?thesis by (auto simp: read_cfh_def CFH_BASE_SZ_def)
qed

definition cfh_ok :: "byte list \<Rightarrow> nat \<Rightarrow> bool" where
  "cfh_ok src p \<longleftrightarrow> p + 46 \<le> length src \<and> val32 src p = CFH_SIGNATURE \<and> p + cfh_size src p \<le> length src"

definition lfh_at :: "byte list \<Rightarrow> nat \<Rightarrow> lfh" where
  "lfh_at src p =
     \<lparr>extract_ver = val16 src (4 + p), gp_flag = val16 src (6 + p), l_method = val16 src (8 + p),
      mod_time = val16 src (10 + p), mod_date = val16 src (12 + p), crc32 = val32 src (14 + p),
      comp_size = val32 src (18 + p), uncomp_size = val32 src (22 + p),
      name_len = val16 src (26 + p), extra_len = val16 src (28 + p),
      l_name = 30 + p, l_extra = 30 + p + unat (val16 src (26 + p))\<rparr>"

definition lfh_ok :: "byte list \<Rightarrow> nat \<Rightarrow> bool" where
  "lfh_ok src p \<longleftrightarrow> p + 30 \<le> length src \<and> val32 src p = LFH_SIGNATURE \<and>
     p + 30 + unat (val16 src (26 + p)) + unat (val16 src (28 + p)) \<le> length src"

lemma read_lfh_eq: "read_lfh src p = Inr (if lfh_ok src p then Some (lfh_at src p) else None)"
proof (cases "p + 30 \<le> length src")
  case True
  then show ?thesis
    by (simp add: read_lfh_def LFH_BASE_SZ_def Let_def lfh_at_def lfh_ok_def)
      (intro impI conjI; linarith)
next
  case False
  then show ?thesis by (auto simp: read_lfh_def LFH_BASE_SZ_def lfh_ok_def)
qed

section \<open>Finding the end record\<close>

text \<open>A comment length \<open>c\<close> fits when an end record with exactly this length stands there.\<close>

definition eocdr_fits :: "byte list \<Rightarrow> nat \<Rightarrow> bool" where
  "eocdr_fits src c \<longleftrightarrow> 22 + c \<le> length src \<and>
     val32 src (length src - 22 - c) = EOCDR_SIGNATURE \<and>
     unat (val16 src (20 + (length src - 22 - c))) = c"

definition eocdr_for :: "byte list \<Rightarrow> nat \<Rightarrow> eocdr \<times> u64" where
  "eocdr_for src c =
     (let p = length src - 22 - c; size = val32 src (12 + p)
      in (\<lparr>disk_nbr = val16 src (4 + p), cd_start_disk = val16 src (6 + p),
           disk_cd_entries = val16 src (8 + p), cd_entries = val16 src (10 + p),
           cd_size = size,
           cd_offset = ucast (of_nat (length src) - ucast size - 22 - of_nat c :: u64),
           eo_comment_len = val16 src (20 + p), eo_comment = 22 + p\<rparr>,
          ucast (val32 src (16 + p))))"

lemma find_eocdr_step:
  assumes "c \<le> 65535" "22 + c \<le> length src"
  shows "find_eocdr_from src c =
    (if eocdr_fits src c then Inr (Some (eocdr_for src c)) else find_eocdr_from src (Suc c))"
proof -
  define p where "p = length src - 22 - c"
  have p: "p + 22 = length src - c" "p + 22 \<le> length src" using assms(2) by (simp_all add: p_def)
  have "find_eocdr_from src c = READ32 src p (\<lambda>signature p.
        if signature = EOCDR_SIGNATURE then
          READ16 src p (\<lambda>disk p. READ16 src p (\<lambda>start p. READ16 src p (\<lambda>dentries p.
          READ16 src p (\<lambda>entries p. READ32 src p (\<lambda>size p. READ32 src p (\<lambda>stored p.
          READ16 src p (\<lambda>clen p.
          let r = \<lparr>disk_nbr = disk, cd_start_disk = start, disk_cd_entries = dentries,
                   cd_entries = entries, cd_size = size,
                   cd_offset = ucast (of_nat (length src) - ucast size - of_nat EOCDR_BASE_SZ
                     - of_nat c :: u64),
                   eo_comment_len = clen, eo_comment = p\<rparr>
          in c_assert (p = length src - c)
               (if unat clen = c then Inr (Some (r, ucast stored))
                else find_eocdr_from src (Suc c)))))))))
        else find_eocdr_from src (Suc c))"
    using assms by (subst find_eocdr_from.simps) (simp add: EOCDR_BASE_SZ_def p_def)
  moreover have "eocdr_fits src c \<longleftrightarrow> val32 src p = EOCDR_SIGNATURE \<and> unat (val16 src (20 + p)) = c"
    unfolding eocdr_fits_def p_def [symmetric] using assms(2) by blast
  moreover note eocdr_for_def [of src c, folded p_def]
  ultimately show ?thesis
    using p by (simp add: Let_def EOCDR_BASE_SZ_def)
qed

lemma find_eocdr_from_find:
  "find_eocdr_from src c =
    Inr (map_option (eocdr_for src) (find (eocdr_fits src) [c..<65536]))"
proof (induction "65536 - c" arbitrary: c)
  case 0
  then show ?case by (subst find_eocdr_from.simps) simp
next
  case (Suc n)
  then have c: "c \<le> 65535" by simp
  then have up: "[c..<65536] = c # [Suc c..<65536]" by (simp add: upt_conv_Cons)
  show ?case
  proof (cases "22 + c \<le> length src")
    case True
    then show ?thesis using Suc c unfolding up by (simp add: find_eocdr_step)
  next
    case False
    then have "find (eocdr_fits src) [c..<65536] = None"
      by (auto simp: find_None_iff eocdr_fits_def)
    moreover have "find_eocdr_from src c = Inr None"
      using False c by (subst find_eocdr_from.simps) (simp add: EOCDR_BASE_SZ_def)
    ultimately show ?thesis by simp
  qed
qed

text \<open>
  The search for the end record never reads outside the file, whatever its bytes,
  and finds the end record with the shortest comment: the least length, up to 65535, at which
  the signature stands at the right distance from the end with exactly this length stored.
\<close>

theorem find_eocdr_shortest_comment:
  "find_eocdr src = Inr (map_option (eocdr_for src) (find (eocdr_fits src) [0..<65536]))"
  unfolding find_eocdr_def by (rule find_eocdr_from_find)

section \<open>Checked members\<close>

definition name_at :: "byte list \<Rightarrow> nat \<Rightarrow> byte list" where
  "name_at src p = take (unat (val16 src (28 + p))) (drop (46 + p) src)"

lemma name_inside:
  "cfh_ok src p \<Longrightarrow> bytes_at src (46 + p) (unat (val16 src (28 + p))) = Inr (name_at src p)"
  by (simp add: bytes_at_def name_at_def cfh_ok_def cfh_size_def CFH_BASE_SZ_def)

definition lfh_pos :: "byte list \<Rightarrow> u64 \<Rightarrow> nat \<Rightarrow> nat" where
  "lfh_pos src zfo p = unat (lfh_offset (cfh_at src p zfo))"

definition member_ok :: "byte list \<Rightarrow> u64 \<Rightarrow> nat \<Rightarrow> bool" where
  "member_ok src zfo p \<longleftrightarrow> cfh_ok src p \<and>
     c_gp_flag (cfh_at src p zfo) AND 1 = 0 \<and>
     c_method (cfh_at src p zfo) \<in> {ZIP_STORED, ZIP_DEFLATED} \<and>
     (c_method (cfh_at src p zfo) = ZIP_STORED \<longrightarrow>
        c_uncomp_size (cfh_at src p zfo) = c_comp_size (cfh_at src p zfo)) \<and>
     disk_nbr_start (cfh_at src p zfo) = 0 \<and> 0 \<notin> set (name_at src p) \<and>
     lfh_ok src (lfh_pos src zfo p) \<and>
     lfh_pos src zfo p + 30 + unat (name_len (lfh_at src (lfh_pos src zfo p))) +
       unat (extra_len (lfh_at src (lfh_pos src zfo p))) +
       unat (c_comp_size (cfh_at src p zfo)) \<le> length src"

lemma cfh_at_name: "c_name (cfh_at src p zfo) = 46 + p"
    "c_name_len (cfh_at src p zfo) = val16 src (28 + p)"
    "c_extra_len (cfh_at src p zfo) = val16 src (30 + p)"
    "c_comment_len (cfh_at src p zfo) = val16 src (32 + p)"
  by (simp_all add: cfh_at_def)

lemma lfh_at_extra: "l_extra (lfh_at src p) = 30 + p + unat (name_len (lfh_at src p))"
  by (simp add: lfh_at_def)

lemma lfh_ok_extra: "lfh_ok src p \<Longrightarrow>
    l_extra (lfh_at src p) + unat (extra_len (lfh_at src p)) \<le> length src"
  by (simp add: lfh_ok_def lfh_at_def)

lemma check_member_eq:
  "check_member src zfo p =
    Inr (if member_ok src zfo p then Some (p + cfh_size src p) else None)"
proof (cases "cfh_ok src p")
  case True
  let ?h = "cfh_at src p zfo" and ?q = "lfh_pos src zfo p"
  have r: "read_cfh src p zfo = Inr (Some ?h)"
    using True by (simp add: read_cfh_eq cfh_ok_def)
  have n: "bytes_at src (c_name ?h) (unat (c_name_len ?h)) = Inr (name_at src p)"
    using name_inside [OF True] by (simp add: cfh_at_name)
  have size: "p + (CFH_BASE_SZ + unat (c_name_len ?h) + unat (c_extra_len ?h) + unat (c_comment_len ?h)) =
      p + cfh_size src p"
    by (simp add: cfh_at_name cfh_size_def)
  show ?thesis
  proof (cases "lfh_ok src ?q")
    case True
    then have "unat (c_comp_size ?h) > length src - (l_extra (lfh_at src ?q) + unat (extra_len (lfh_at src ?q))) \<longleftrightarrow>
        \<not> ?q + 30 + unat (name_len (lfh_at src ?q)) + unat (extra_len (lfh_at src ?q)) +
          unat (c_comp_size ?h) \<le> length src"
      using lfh_ok_extra [OF True] by (auto simp: lfh_at_extra)
    then show ?thesis
      using \<open>cfh_ok src p\<close> True
      by (simp add: check_member_def r n size read_lfh_eq Let_def member_ok_def flip: lfh_pos_def)
  next
    case False
    then show ?thesis
      using \<open>cfh_ok src p\<close>
      by (simp add: check_member_def r n read_lfh_eq member_ok_def flip: lfh_pos_def)
  qed
next
  case False
  then show ?thesis by (simp add: check_member_def read_cfh_eq member_ok_def flip: cfh_ok_def)
qed

fun member_at :: "byte list \<Rightarrow> nat \<Rightarrow> nat \<Rightarrow> nat" where
  "member_at src p 0 = p"
| "member_at src p (Suc n) = member_at src (p + cfh_size src p) n"

fun member_names :: "byte list \<Rightarrow> nat \<Rightarrow> nat \<Rightarrow> byte list list" where
  "member_names src p 0 = []"
| "member_names src p (Suc n) = name_at src p # member_names src (p + cfh_size src p) n"

fun members_ok :: "byte list \<Rightarrow> u64 \<Rightarrow> nat \<Rightarrow> nat \<Rightarrow> bool" where
  "members_ok src zfo p 0 = True"
| "members_ok src zfo p (Suc n) \<longleftrightarrow> member_ok src zfo p \<and> members_ok src zfo (p + cfh_size src p) n"

lemma check_members_eq:
  "check_members src zfo n p = Inr (if members_ok src zfo p n then Some (member_at src p n) else None)"
  by (induction n arbitrary: p) (simp_all add: check_member_eq)

lemma member_at_ge: "p \<le> member_at src p n"
  by (induction n arbitrary: p) (auto intro: order.trans [OF le_add1])

lemma length_member_names [simp]: "length (member_names src p n) = n"
  by (induction n arbitrary: p) simp_all

section \<open>The listing of a checked archive\<close>

lemma zip_member_ok:
  assumes ok: "member_ok src zfo p" and rng: "members_begin z \<le> p" "p + cfh_size src p \<le> members_end z"
  shows "\<exists>m. zip_member mktime src z zfo p = Inr m \<and> m_name m = 46 + p \<and>
    m_name_len m = val16 src (28 + p) \<and> m_next m = p + cfh_size src p"
proof -
  have lt: "p < members_end z" using rng(2) by (simp add: cfh_size_def CFH_BASE_SZ_def)
  have c: "read_cfh src p zfo = Inr (Some (cfh_at src p zfo))"
    using ok by (simp add: read_cfh_eq member_ok_def cfh_ok_def)
  have l: "read_lfh src (unat (lfh_offset (cfh_at src p zfo))) =
      Inr (Some (lfh_at src (lfh_pos src zfo p)))"
    using ok by (simp add: read_lfh_eq member_ok_def lfh_pos_def)
  have n: "p + CFH_BASE_SZ + unat (val16 src (28 + p)) + unat (val16 src (30 + p)) +
      unat (val16 src (32 + p)) = p + cfh_size src p"
    by (simp add: cfh_size_def)
  show ?thesis using lt rng by (simp add: zip_member_def c l Let_def cfh_at_name n)
qed

lemma list_members_names:
  assumes "members_ok src zfo p n" "members_begin z \<le> p" "member_at src p n = members_end z"
  shows "list_members mktime src z zfo p = Some (Inr (member_names src p n))"
  using assms
proof (induction n arbitrary: p)
  case 0
  then show ?case by (subst list_members.simps) simp
next
  case (Suc n)
  let ?q = "p + cfh_size src p"
  have ok: "member_ok src zfo p" and rest: "members_ok src zfo ?q n" using Suc.prems(1) by simp_all
  have le: "?q \<le> members_end z" using Suc.prems(3) member_at_ge [of ?q src n] by simp
  have lt: "p < members_end z" using le by (simp add: cfh_size_def CFH_BASE_SZ_def)
  obtain m where m: "zip_member mktime src z zfo p = Inr m" "m_name m = 46 + p"
      "m_name_len m = val16 src (28 + p)" "m_next m = ?q"
    using zip_member_ok [OF ok Suc.prems(2) le] by blast
  have "takeWhile (\<lambda>b. b \<noteq> 0) (name_at src p) = name_at src p"
    using ok by (auto simp: takeWhile_eq_all_conv member_ok_def)
  then have "print_bytes src (m_name m) (m_name_len m) = Inr (name_at src p)"
    using ok name_inside [of src p] by (simp add: print_bytes_def m member_ok_def)
  moreover have "list_members mktime src z zfo ?q = Some (Inr (member_names src ?q n))"
    using Suc.IH [OF rest] Suc.prems(2,3) by simp
  ultimately show ?case using lt m by (subst list_members.simps) simp
qed

definition zip_offset :: "byte list \<Rightarrow> eocdr \<times> u64 \<Rightarrow> u64" where
  "zip_offset src es = of_nat (length src)
     - (snd es + ucast (cd_size (fst es)) + of_nat EOCDR_BASE_SZ + ucast (eo_comment_len (fst es)))"

lemma zip_read_eq:
  "zip_read src = Inr (case find (eocdr_fits src) [0..<65536] of None \<Rightarrow> None
     | Some c \<Rightarrow>
       let es = eocdr_for src c; e = fst es; n = unat (cd_entries e); p = unat (cd_offset e)
       in if disk_nbr e = 0 \<and> cd_start_disk e = 0 \<and> disk_cd_entries e = cd_entries e \<and>
             members_ok src (zip_offset src es) p n
          then Some (\<lparr>num_members = cd_entries e, z_comment = eo_comment e,
                     z_comment_len = eo_comment_len e, members_begin = p,
                     members_end = member_at src p n\<rparr>, zip_offset src es)
          else None)"
proof (cases "find (eocdr_fits src) [0..<65536]")
  case None
  then show ?thesis by (simp add: zip_read_def find_eocdr_def find_eocdr_from_find del: set_upt)
next
  case (Some c)
  then show ?thesis
    by (simp add: zip_read_def find_eocdr_def find_eocdr_from_find Let_def check_members_eq
        zip_offset_def split: prod.split del: upt_rec_numeral)
qed

lemma eocdr_comment_inside:
  "eocdr_fits src c \<Longrightarrow> bytes_at src (eo_comment (fst (eocdr_for src c))) (unat (eo_comment_len (fst (eocdr_for src c)))) =
    Inr (drop (length src - c) src)"
proof -
  assume fits: "eocdr_fits src c"
  define p where "p = length src - 22 - c"
  have p: "22 + p + c = length src" using fits by (simp add: p_def eocdr_fits_def)
  have "eo_comment (fst (eocdr_for src c)) = 22 + p"
      "eo_comment_len (fst (eocdr_for src c)) = val16 src (20 + p)"
    unfolding eocdr_for_def p_def [symmetric] by (simp_all add: Let_def)
  moreover have "unat (val16 src (20 + p)) = c"
    using fits unfolding eocdr_fits_def p_def [symmetric] by blast
  moreover have "length src - c = 22 + p" using p by simp
  ultimately show ?thesis using p by (simp add: bytes_at_def)
qed

text \<open>
  On every file the lister returns without reading outside the file and without
  failing an assertion. It reports a parse failure exactly when the header checks fail;
  otherwise it prints exactly as many names as the end record says.
\<close>

theorem list_zip_safe:
  "case zip_read src of
     Inl f \<Rightarrow> False
   | Inr None \<Rightarrow> list_zip mktime src = Some (Inr None)
   | Inr (Some (z, zfo)) \<Rightarrow>
     (\<exists>comment names. list_zip mktime src = Some (Inr (Some (comment, names))) \<and>
        length names = unat (num_members z) \<and>
        names = member_names src (members_begin z) (unat (num_members z)))"
proof (cases "zip_read src")
  case (Inl f)
  then show ?thesis by (simp add: zip_read_eq)
next
  case (Inr r)
  show ?thesis
  proof (cases r)
    case None
    then show ?thesis using Inr by (simp add: list_zip_def)
  next
    case (Some zz)
    obtain z zfo where zz: "zz = (z, zfo)" by fastforce
    obtain c where c: "find (eocdr_fits src) [0..<65536] = Some c"
      using Inr Some unfolding zip_read_eq by (cases "find (eocdr_fits src) [0..<65536]") auto
    let ?es = "eocdr_for src c" and ?e = "fst (eocdr_for src c)"
    have fits: "eocdr_fits src c" using c by (auto simp: find_Some_iff)
    have z: "z = \<lparr>num_members = cd_entries ?e, z_comment = eo_comment ?e,
          z_comment_len = eo_comment_len ?e, members_begin = unat (cd_offset ?e),
          members_end = member_at src (unat (cd_offset ?e)) (unat (cd_entries ?e))\<rparr>"
        "members_ok src zfo (unat (cd_offset ?e)) (unat (cd_entries ?e))"
      using Inr Some zz c unfolding zip_read_eq by (auto simp: Let_def split: if_splits)
    have "list_members mktime src z zfo (members_begin z) =
        Some (Inr (member_names src (members_begin z) (unat (num_members z))))"
      using z by (intro list_members_names) simp_all
    moreover have "print_bytes src (z_comment z) (z_comment_len z) =
        Inr (takeWhile (\<lambda>b. b \<noteq> 0) (drop (length src - c) src))"
      using eocdr_comment_inside [OF fits] z(1) by (simp add: print_bytes_def)
    ultimately show ?thesis using Inr Some zz by (simp add: list_zip_def)
  qed
qed

section \<open>Archives and the round trip\<close>

definition le16 :: "u16 \<Rightarrow> byte list" where
  "le16 v = [ucast v, ucast (drop_bit 8 v)]"

definition le32 :: "u32 \<Rightarrow> byte list" where
  "le32 v = [ucast v, ucast (drop_bit 8 v), ucast (drop_bit 16 v), ucast (drop_bit 24 v)]"

text \<open>A member to store: what its headers say and its bytes.\<close>

record memb =
  mb_name :: "byte list"
  mb_data :: "byte list"
  mb_lextra :: "byte list"
  mb_cextra :: "byte list"
  mb_comment :: "byte list"
  mb_deflated :: bool
  mb_usize :: u32       \<comment> \<open>uncompressed size of a deflated member\<close>
  mb_time :: u16
  mb_date :: u16
  mb_crc :: u32
  mb_attrs :: u32

definition mb_method :: "memb \<Rightarrow> u16" where
  "mb_method m = (if mb_deflated m then 8 else 0)"

definition mb_uncomp :: "memb \<Rightarrow> u32" where
  "mb_uncomp m = (if mb_deflated m then mb_usize m else of_nat (length (mb_data m)))"

definition mk_lfh :: "memb \<Rightarrow> byte list" where
  "mk_lfh m = le32 LFH_SIGNATURE @ le16 20 @ le16 0 @ le16 (mb_method m) @ le16 (mb_time m) @
     le16 (mb_date m) @ le32 (mb_crc m) @ le32 (of_nat (length (mb_data m))) @ le32 (mb_uncomp m) @
     le16 (of_nat (length (mb_name m))) @ le16 (of_nat (length (mb_lextra m))) @
     mb_name m @ mb_lextra m @ mb_data m"

definition mk_cfh :: "nat \<Rightarrow> memb \<Rightarrow> byte list" where
  "mk_cfh off m = le32 CFH_SIGNATURE @ le16 20 @ le16 20 @ le16 0 @ le16 (mb_method m) @
     le16 (mb_time m) @ le16 (mb_date m) @ le32 (mb_crc m) @ le32 (of_nat (length (mb_data m))) @
     le32 (mb_uncomp m) @ le16 (of_nat (length (mb_name m))) @ le16 (of_nat (length (mb_cextra m))) @
     le16 (of_nat (length (mb_comment m))) @ le16 0 @ le16 0 @ le32 (mb_attrs m) @ le32 (of_nat off) @
     mb_name m @ mb_cextra m @ mb_comment m"

definition mk_locals :: "memb list \<Rightarrow> byte list" where
  "mk_locals ms = concat (map mk_lfh ms)"

fun mk_central :: "nat \<Rightarrow> memb list \<Rightarrow> byte list" where
  "mk_central off [] = []"
| "mk_central off (m # ms) = mk_cfh off m @ mk_central (off + length (mk_lfh m)) ms"

definition mk_eocdr :: "nat \<Rightarrow> nat \<Rightarrow> nat \<Rightarrow> byte list" where
  "mk_eocdr n sz off = le32 EOCDR_SIGNATURE @ le16 0 @ le16 0 @ le16 (of_nat n) @ le16 (of_nat n) @
     le32 (of_nat sz) @ le32 (of_nat off) @ le16 0"

definition mk_zip :: "memb list \<Rightarrow> byte list" where
  "mk_zip ms = mk_locals ms @ mk_central 0 ms @
     mk_eocdr (length ms) (length (mk_central 0 ms)) (length (mk_locals ms))"

definition memb_wf :: "memb \<Rightarrow> bool" where
  "memb_wf m \<longleftrightarrow> 0 \<notin> set (mb_name m) \<and> length (mb_name m) < 2 ^ 16 \<and>
     length (mb_lextra m) < 2 ^ 16 \<and> length (mb_cextra m) < 2 ^ 16 \<and> length (mb_comment m) < 2 ^ 16"

lemma join16: "ucast (ucast v :: byte) OR push_bit 8 (ucast (ucast (drop_bit 8 v) :: byte)) = (v :: u16)"
proof (rule bit_word_eqI)
  fix n assume "n < LENGTH(16)"
  then show "bit (ucast (ucast v :: byte) OR push_bit 8 (ucast (ucast (drop_bit 8 v) :: byte)) :: u16) n = bit v n"
    by (cases "n < 8") (auto simp: bit_simps)
qed

lemma join32: "ucast (ucast v :: byte) OR push_bit 8 (ucast (ucast (drop_bit 8 v) :: byte)) OR
    push_bit 16 (ucast (ucast (drop_bit 16 v) :: byte)) OR
    push_bit 24 (ucast (ucast (drop_bit 24 v) :: byte)) = (v :: u32)"
proof (rule bit_word_eqI)
  fix n assume "n < LENGTH(32)"
  then consider "n < 8" | "8 \<le> n" "n < 16" | "16 \<le> n" "n < 24" | "24 \<le> n" "n < 32" by fastforce
  then show "bit (ucast (ucast v :: byte) OR push_bit 8 (ucast (ucast (drop_bit 8 v) :: byte)) OR
    push_bit 16 (ucast (ucast (drop_bit 16 v) :: byte)) OR
    push_bit 24 (ucast (ucast (drop_bit 24 v) :: byte)) :: u32) n = bit v n"
    by cases (auto simp: bit_simps)
qed

lemma val_shift_k:
  "val16 (A @ xs) (k + length A) = val16 xs k" "val32 (A @ xs) (k + length A) = val32 xs k"
  by (simp_all add: val16_def val32_def nth_append)

lemmas val_shift = val_shift_k val_shift_k(2) [where k = 0, unfolded add_0]

lemma length_le [simp]: "length (le16 v) = 2" "length (le32 w) = 4"
  by (simp_all add: le16_def le32_def)

lemma length_mk:
  "length (mk_cfh off m) = 46 + length (mb_name m) + length (mb_cextra m) + length (mb_comment m)"
  "length (mk_lfh m) = 30 + length (mb_name m) + length (mb_lextra m) + length (mb_data m)"
  by (simp_all add: mk_cfh_def mk_lfh_def)

lemma unat_len16: "n < 2 ^ 16 \<Longrightarrow> unat (of_nat n :: u16) = n"
  by (simp add: unat_of_nat take_bit_nat_eq_self)

lemma unat_len32: "n < 2 ^ 32 \<Longrightarrow> unat (of_nat n :: u32) = n"
  by (simp add: unat_of_nat take_bit_nat_eq_self)

lemma cfh_fields:
  fixes A R :: "byte list" and m :: memb and off :: nat
  defines "src \<equiv> A @ mk_cfh off m @ R"
  shows "val32 src (length A) = CFH_SIGNATURE"
    "val16 src (8 + length A) = 0" "val16 src (10 + length A) = mb_method m"
    "val32 src (20 + length A) = of_nat (length (mb_data m))"
    "val32 src (24 + length A) = mb_uncomp m"
    "val16 src (28 + length A) = of_nat (length (mb_name m))"
    "val16 src (30 + length A) = of_nat (length (mb_cextra m))"
    "val16 src (32 + length A) = of_nat (length (mb_comment m))"
    "val16 src (34 + length A) = 0" "val32 src (42 + length A) = of_nat off"
  unfolding src_def val_shift
  unfolding mk_cfh_def le16_def le32_def val16_def val32_def
  by (simp_all add: join16 join32)

lemma lfh_fields:
  fixes A R :: "byte list" and m :: memb
  defines "src \<equiv> A @ mk_lfh m @ R"
  shows "val32 src (length A) = LFH_SIGNATURE"
    "val16 src (26 + length A) = of_nat (length (mb_name m))"
    "val16 src (28 + length A) = of_nat (length (mb_lextra m))"
  unfolding src_def val_shift
  unfolding mk_lfh_def le16_def le32_def val16_def val32_def
  by (simp_all add: join16 join32)

lemma lfh_offset_value:
  assumes "n0 + off < 2 ^ 32"
  shows "unat (ucast (ucast (of_nat off :: u32) + of_nat n0 :: u64) :: u32) = n0 + off"
proof -
  have "ucast (of_nat off :: u32) = (of_nat off :: u64)"
    using assms by (simp add: unsigned_of_nat take_bit_nat_eq_self)
  then have "ucast (of_nat off :: u32) + of_nat n0 = (of_nat (n0 + off) :: u64)" by simp
  moreover have "take_bit 64 (n0 + off) = n0 + off" using assms by (simp add: take_bit_nat_eq_self)
  ultimately show ?thesis using assms
    by (simp only: unsigned_of_nat, simp add: unat_of_nat take_bit_nat_eq_self)
qed

lemma member_stored:
  assumes wf: "memb_wf m" and src: "src = A @ mk_cfh off m @ R" "src = B @ mk_lfh m @ R'"
    and B: "length B = n0 + off" and len: "length src < 2 ^ 32"
  shows "member_ok src (of_nat n0) (length A)" and "cfh_size src (length A) = length (mk_cfh off m)"
    and "name_at src (length A) = mb_name m"
proof -
  let ?p = "length A"
  note f = cfh_fields [of A off m R, folded src(1)]
  note g = lfh_fields [of B m R', folded src(2), unfolded B]
  have lens: "length (mb_name m) < 2 ^ 16" "length (mb_cextra m) < 2 ^ 16"
      "length (mb_lextra m) < 2 ^ 16" "length (mb_comment m) < 2 ^ 16"
    using wf by (simp_all add: memb_wf_def)
  note u = lens [THEN unat_len16]
  have l1: "length src = ?p + 46 + length (mb_name m) + length (mb_cextra m) + length (mb_comment m) + length R"
    unfolding src(1) by (simp add: length_mk)
  have l2: "length src = n0 + off + 30 + length (mb_name m) + length (mb_lextra m) + length (mb_data m) + length R'"
    unfolding src(2) by (simp add: length_mk B)
  have data: "unat (of_nat (length (mb_data m)) :: u32) = length (mb_data m)"
    using l2 len by (intro unat_len32) simp
  have pos: "lfh_pos src (of_nat n0) ?p = n0 + off"
    using l2 len by (simp add: lfh_pos_def cfh_at_def f lfh_offset_value)
  show size: "cfh_size src ?p = length (mk_cfh off m)"
    by (simp add: cfh_size_def CFH_BASE_SZ_def f u length_mk)
  have cok: "cfh_ok src ?p"
    using l1 by (simp add: cfh_ok_def size length_mk f)
  have "name_at src ?p = take (length (mb_name m)) (drop (46 + ?p) src)"
    by (simp add: name_at_def f u)
  also have "\<dots> = mb_name m" unfolding src(1) by (simp add: mk_cfh_def)
  finally show name: "name_at src ?p = mb_name m" .
  have lok: "lfh_ok src (n0 + off)"
    using l2 by (simp add: lfh_ok_def g u)
  show "member_ok src (of_nat n0) ?p"
    using cok lok wf l2
    by (simp add: member_ok_def pos name memb_wf_def cfh_at_def lfh_at_def f g u data
        mb_method_def mb_uncomp_def ZIP_STORED_def ZIP_DEFLATED_def)
qed

lemma members_stored:
  assumes "\<forall>m \<in> set ms. memb_wf m" and "src = A @ mk_central off ms @ R"
    and "src = B @ mk_locals ms @ R'" and "length B = n0 + off" and "length src < 2 ^ 32"
  shows "members_ok src (of_nat n0) (length A) (length ms)"
    and "member_names src (length A) (length ms) = map mb_name ms"
    and "member_at src (length A) (length ms) = length A + length (mk_central off ms)"
proof -
  have "members_ok src (of_nat n0) (length A) (length ms) \<and>
    member_names src (length A) (length ms) = map mb_name ms \<and>
    member_at src (length A) (length ms) = length A + length (mk_central off ms)"
    using assms
  proof (induction ms arbitrary: A B off)
    case (Cons m ms)
    let ?C = "mk_cfh off m" and ?L = "mk_lfh m"
    have src: "src = A @ ?C @ mk_central (off + length ?L) ms @ R" "src = B @ ?L @ mk_locals ms @ R'"
      using Cons.prems(2,3) by (simp_all add: mk_locals_def)
    note st = member_stored [OF _ src Cons.prems(4,5)]
    have "members_ok src (of_nat n0) (length (A @ ?C)) (length ms) \<and>
        member_names src (length (A @ ?C)) (length ms) = map mb_name ms \<and>
        member_at src (length (A @ ?C)) (length ms) = length (A @ ?C) + length (mk_central (off + length ?L) ms)"
      using Cons.prems src by (intro Cons.IH [of "A @ ?C" "off + length ?L" "B @ ?L"]) simp_all
    then show ?case using Cons.prems(1) st by simp
  qed simp
  then show "members_ok src (of_nat n0) (length A) (length ms)"
    "member_names src (length A) (length ms) = map mb_name ms"
    "member_at src (length A) (length ms) = length A + length (mk_central off ms)" by simp_all
qed

lemma find_first: "P 0 \<Longrightarrow> 0 < n \<Longrightarrow> find P [0..<n] = Some 0"
  by (simp add: upt_conv_Cons)

lemma eocdr_stored:
  fixes n sz off :: nat
  assumes "src = A @ mk_eocdr n sz off" "sz + off + 22 \<le> length src" "length src < 2 ^ 32" "n < 2 ^ 16"
    "length src = n0 + off + sz + 22"
  shows "find (eocdr_fits src) [0..<65536] = Some 0"
    and "fst (eocdr_for src 0) = \<lparr>disk_nbr = 0, cd_start_disk = 0, disk_cd_entries = of_nat n,
      cd_entries = of_nat n, cd_size = of_nat sz, cd_offset = of_nat (n0 + off),
      eo_comment_len = 0, eo_comment = length src\<rparr>"
    and "zip_offset src (eocdr_for src 0) = of_nat n0"
proof -
  have len: "length src = 22 + length A" by (simp add: assms(1) mk_eocdr_def)
  then have p: "length src - 22 - 0 = length A" by simp
  have f: "val32 src (length A) = EOCDR_SIGNATURE" "val16 src (4 + length A) = 0"
      "val16 src (6 + length A) = 0" "val16 src (8 + length A) = of_nat n"
      "val16 src (10 + length A) = of_nat n" "val32 src (12 + length A) = of_nat sz"
      "val32 src (16 + length A) = of_nat off" "val16 src (20 + length A) = 0"
    unfolding assms(1) val_shift
    unfolding mk_eocdr_def le16_def le32_def val16_def val32_def
    by (simp_all add: join16 join32)
  have fits: "eocdr_fits src 0" unfolding eocdr_fits_def p using len by (simp add: f)
  then show "find (eocdr_fits src) [0..<65536] = Some 0" by (rule find_first) simp
  have szv: "ucast (of_nat sz :: u32) = (of_nat sz :: u64)" "ucast (of_nat off :: u32) = (of_nat off :: u64)"
    using assms(2,3) by (simp_all add: unsigned_of_nat take_bit_nat_eq_self)
  have l64: "(of_nat (length src) :: u64) = of_nat (n0 + off) + of_nat sz + 22"
    unfolding assms(5) by simp
  have cd: "ucast (of_nat (length src) - of_nat sz - 22 :: u64) = (of_nat (n0 + off) :: u32)"
  proof -
    have "(of_nat (length src) - of_nat sz - 22 :: u64) = of_nat (n0 + off)" unfolding l64 by simp
    moreover have "n0 + off < 2 ^ 32" using assms(3,5) by simp
    ultimately show ?thesis
      by (simp only:) (simp add: unsigned_of_nat take_bit_nat_eq_self del: of_nat_add)
  qed
  show "fst (eocdr_for src 0) = \<lparr>disk_nbr = 0, cd_start_disk = 0, disk_cd_entries = of_nat n,
      cd_entries = of_nat n, cd_size = of_nat sz, cd_offset = of_nat (n0 + off),
      eo_comment_len = 0, eo_comment = length src\<rparr>"
    unfolding eocdr_for_def p Let_def f szv using cd len by simp
  show "zip_offset src (eocdr_for src 0) = of_nat n0"
    unfolding zip_offset_def eocdr_for_def p Let_def f l64 by (simp add: szv EOCDR_BASE_SZ_def)
qed

text \<open>What is read of an archive written behind any data.\<close>

lemma zip_read_stored:
  assumes "\<forall>m \<in> set ms. memb_wf m" and "length ms < 2 ^ 16"
    and "length (picture @ mk_zip ms) < 2 ^ 32"
  shows "\<exists>z zfo. zip_read (picture @ mk_zip ms) = Inr (Some (z, zfo)) \<and> z_comment_len z = 0 \<and>
    list_members mktime (picture @ mk_zip ms) z zfo (members_begin z) = Some (Inr (map mb_name ms))"
proof -
  define src where "src = picture @ mk_zip ms"
  let ?L = "mk_locals ms" and ?C = "mk_central 0 ms" and ?n0 = "length picture"
  let ?E = "mk_eocdr (length ms) (length ?C) (length ?L)"
  have src: "src = (picture @ ?L @ ?C) @ ?E" "src = (picture @ ?L) @ ?C @ ?E"
      "src = picture @ ?L @ (?C @ ?E)"
    by (simp_all add: src_def mk_zip_def)
  have len: "length src < 2 ^ 32" "length src = ?n0 + length ?L + length ?C + 22"
    using assms(3) by (simp_all add: src_def mk_zip_def mk_eocdr_def)
  have e: "find (eocdr_fits src) [0..<65536] = Some 0"
      "fst (eocdr_for src 0) = \<lparr>disk_nbr = 0, cd_start_disk = 0, disk_cd_entries = of_nat (length ms),
        cd_entries = of_nat (length ms), cd_size = of_nat (length ?C),
        cd_offset = of_nat (?n0 + length ?L), eo_comment_len = 0, eo_comment = length src\<rparr>"
      "zip_offset src (eocdr_for src 0) = of_nat ?n0"
    using eocdr_stored [OF src(1) _ len(1) assms(2) len(2)] len by simp_all
  have m: "members_ok src (of_nat ?n0) (?n0 + length ?L) (length ms)"
      "member_names src (?n0 + length ?L) (length ms) = map mb_name ms"
    using members_stored [OF assms(1) src(2,3) _ len(1)] by simp_all
  have off: "unat (of_nat (?n0 + length ?L) :: u32) = ?n0 + length ?L"
    using len by (intro unat_len32) simp
  have n: "unat (of_nat (length ms) :: u16) = length ms" using assms(2) by (rule unat_len16)
  let ?z = "\<lparr>num_members = of_nat (length ms), z_comment = length src, z_comment_len = 0,
      members_begin = ?n0 + length ?L, members_end = member_at src (?n0 + length ?L) (length ms)\<rparr>"
  have "zip_read src = Inr (Some (?z, of_nat ?n0))"
    unfolding zip_read_eq e(1) option.case Let_def e(2,3) using m(1) by (simp add: off n del: of_nat_add)
  moreover have "list_members mktime src ?z (of_nat ?n0) (?n0 + length ?L) = Some (Inr (map mb_name ms))"
    using list_members_names [of src "of_nat ?n0" "?n0 + length ?L" "length ms" ?z] m by simp
  ultimately show ?thesis
    unfolding src_def [symmetric] by (intro exI [of _ ?z] exI [of _ "of_nat ?n0 :: u32"]) simp
qed

text \<open>
  Listing round trip: for every list of well-formed members (names without null
  bytes, lengths that fit their header fields), writing the local headers, the central
  directory and the end record behind any other data - a picture, say - and listing the file
  prints exactly the member names, in order.
\<close>

theorem list_zip_roundtrip:
  assumes "\<forall>m \<in> set ms. memb_wf m" and "length ms < 2 ^ 16"
    and "length (picture @ mk_zip ms) < 2 ^ 32"
  shows "list_zip mktime (picture @ mk_zip ms) = Some (Inr (Some ([], map mb_name ms)))"
  using zip_read_stored [OF assms, of mktime] by (auto simp: list_zip_def)

lemma list_zip_roundtrip_witness:
  "list_zip (\<lambda>_. 0) ([0xFF, 0xD8] @ mk_zip
     [\<lparr>mb_name = [0x61], mb_data = [1, 2], mb_lextra = [], mb_cextra = [], mb_comment = [7],
       mb_deflated = False, mb_usize = 0, mb_time = 0, mb_date = 0, mb_crc = 0, mb_attrs = 0\<rparr>])
   = Some (Inr (Some ([], [[0x61]])))"
  using list_zip_roundtrip [of "[\<lparr>mb_name = [0x61], mb_data = [1, 2], mb_lextra = [], mb_cextra = [],
      mb_comment = [7], mb_deflated = False, mb_usize = 0, mb_time = 0, mb_date = 0, mb_crc = 0,
      mb_attrs = 0\<rparr>]" "[0xFF, 0xD8]" "\<lambda>_. 0"]
  by (simp add: memb_wf_def mk_zip_def mk_locals_def mk_eocdr_def length_mk)

end
