(* ===== verification/ZipMain.thy ===== *)
theory ZipMain
  imports Zip ReadFile
begin

text \<open>
  The program around the lister of 03_types_homework/main.c: the file is read with the reader of
  ReadFile, then listed.
\<close>

section \<open>The program\<close>

text \<open>A line of output; \<open>Perror\<close> is the message before an exit with 1.\<close>

datatype out_line =
    Listing string
  | ParseFailed
  | Comment "byte list"
  | Name "byte list"
  | Usage string
  | Perror string

definition print_usage :: "string \<Rightarrow> string" where
  "print_usage argv0 =
     ''Usage:'' @ [CHR 0x0A, CHR 0x0A] @ ''  '' @ argv0 @ '' list <zipfile>'' @ [CHR 0x0A, CHR 0x0A]"

text \<open>Whether the comment is printed: its length is not 0.\<close>

definition has_comment :: "byte list \<Rightarrow> bool" where
  "has_comment src = (case zip_read src of Inr (Some (z, _)) \<Rightarrow> z_comment_len z \<noteq> 0 | _ \<Rightarrow> False)"

text \<open>The output and the exit status.\<close>

definition zip_main :: "(tm \<Rightarrow> int) \<Rightarrow> stdio \<Rightarrow> string list \<Rightarrow> (out_line list \<times> int) run" where
  "zip_main mktime io argv =
     (if length argv = 3 \<and> argv ! 1 = ''list'' then
        (case read_file io (argv ! 2) of
           None \<Rightarrow> None
         | Some (Inl call) \<Rightarrow> Some (Inr ([Listing (argv ! 2), Perror (call_name call)], 1))
         | Some (Inr (src, _)) \<Rightarrow>
             bindR (list_zip mktime src) (\<lambda>r. case r of
               None \<Rightarrow> Some (Inr ([Listing (argv ! 2), ParseFailed], 1))
             | Some (comment, names) \<Rightarrow>
                 Some (Inr (Listing (argv ! 2) # (if has_comment src then [Comment comment] else []) @ map Name names, 0))))
      else if argv = [] then Some (Inl NullDeref)
      else Some (Inr ([Usage (print_usage (argv ! 0))], 1)))"

section \<open>Properties\<close>

text \<open>The members that the output names.\<close>

definition names_in :: "out_line list \<Rightarrow> byte list list" where
  "names_in ls = List.map_filter (\<lambda>l. case l of Name bs \<Rightarrow> Some bs | _ \<Rightarrow> None) ls"

lemma names_in_simps [simp]:
  "names_in [] = []" "names_in (Name bs # ls) = bs # names_in ls" "names_in (Listing f # ls) = names_in ls"
  "names_in (Comment bs # ls) = names_in ls" "names_in (map Name bss) = bss"
  by (induction bss) (simp_all add: names_in_def map_filter_simps)

text \<open>
  Property C1. The program ends for every file, whatever stdio and the allocator answer; it reads no
  byte outside the file, never fails an assertion, and when it ends with success it has printed as
  many member names as the end record of the file says, read from the central directory.
\<close>

theorem zip_main_safe:
  assumes "argv \<noteq> []"
  shows "\<exists>out status. zip_main mktime io argv = Some (Inr (out, status)) \<and>
    (status = 0 \<longrightarrow> (\<exists>bytes z zfo. io_file io (argv ! 2) = Some bytes \<and> zip_read bytes = Inr (Some (z, zfo)) \<and>
       length (names_in out) = unat (num_members z) \<and>
       names_in out = member_names bytes (members_begin z) (unat (num_members z))))"
proof (cases "length argv = 3 \<and> argv ! 1 = ''list''")
  case False
  then have "zip_main mktime io argv = Some (Inr ([Usage (print_usage (argv ! 0))], 1))"
    unfolding zip_main_def if_not_P [OF False] using assms by simp
  then show ?thesis by simp
next
  case True
  show ?thesis
  proof (cases rule: read_file_cases [of io "argv ! 2"])
    case (failed call)
    then show ?thesis using True by (simp add: zip_main_def)
  next
    case (got bytes cap)
    note list = list_zip_safe [where src = bytes and mktime = mktime]
    consider f where "zip_read bytes = Inl f" | "zip_read bytes = Inr None"
      | z zfo where "zip_read bytes = Inr (Some (z, zfo))"
      by (metis not_None_eq obj_sumE surj_pair)
    then show ?thesis
    proof cases
      case 1
      then show ?thesis using list by simp
    next
      case 2
      then show ?thesis using True got list by (simp add: zip_main_def)
    next
      case 3
      then show ?thesis using True got list by (auto simp: zip_main_def)
    qed
  qed
qed

lemma zip_main_safe_witness:
  "\<exists>out status. zip_main (\<lambda>_. 0) \<lparr>io_file = (\<lambda>_. Some [0x50, 0x4B]), io_error = (\<lambda>_. False), io_close = True,
    io_alloc = (\<lambda>_. True)\<rparr> [''zip'', ''list'', ''a.zip''] = Some (Inr (out, status))"
  using zip_main_safe [of "[''zip'', ''list'', ''a.zip'']" "\<lambda>_. 0"
      "\<lparr>io_file = (\<lambda>_. Some [0x50, 0x4B]), io_error = (\<lambda>_. False), io_close = True, io_alloc = (\<lambda>_. True)\<rparr>"] by blast

text \<open>
  Property C2. On a file that holds an archive written behind any data, below four gigabytes, the
  program prints the names of the members in their order and ends with success.
\<close>

theorem zip_main_lists_members:
  assumes "\<forall>m \<in> set ms. memb_wf m" "length ms < 2 ^ 16" "length (picture @ mk_zip ms) < 2 ^ 32"
    and "io_file io filename = Some (picture @ mk_zip ms)" "io_ok io"
  shows "zip_main mktime io [prog, ''list'', filename] =
    Some (Inr (Listing filename # map (\<lambda>m. Name (mb_name m)) ms, 0))"
proof -
  let ?bytes = "picture @ mk_zip ms"
  obtain cap where bytes: "read_file io filename = Some (Inr (?bytes, cap))"
    using assms(4,5) by (rule read_file_all)
  have names: "list_zip mktime ?bytes = Some (Inr (Some ([], map mb_name ms)))"
    using assms(1-3) by (rule list_zip_roundtrip)
  have "\<not> has_comment ?bytes"
    using zip_read_stored [OF assms(1-3), of "\<lambda>_. 0"] by (auto simp: has_comment_def)
  then show ?thesis using bytes names by (simp add: zip_main_def comp_def)
qed

lemma zip_main_lists_members_witness:
  "zip_main (\<lambda>_. 0) \<lparr>io_file = (\<lambda>_. Some ([0xFF, 0xD8] @ mk_zip
     [\<lparr>mb_name = [0x61], mb_data = [1, 2], mb_lextra = [], mb_cextra = [], mb_comment = [7],
       mb_deflated = False, mb_usize = 0, mb_time = 0, mb_date = 0, mb_crc = 0, mb_attrs = 0\<rparr>])),
     io_error = (\<lambda>_. False), io_close = True, io_alloc = (\<lambda>_. True)\<rparr> [''zip'', ''list'', ''a.zip'']
   = Some (Inr ([Listing ''a.zip'', Name [0x61]], 0))"
  by (subst zip_main_lists_members [of "[\<lparr>mb_name = [0x61], mb_data = [1, 2], mb_lextra = [], mb_cextra = [],
      mb_comment = [7], mb_deflated = False, mb_usize = 0, mb_time = 0, mb_date = 0, mb_crc = 0,
      mb_attrs = 0\<rparr>]" "[0xFF, 0xD8]"])
    (simp_all add: memb_wf_def mk_zip_def mk_locals_def mk_eocdr_def length_mk io_ok_def)

end
