(* ===== verification/Codepage.thy ===== *)
theory Codepage
  imports Prelude
begin

text \<open>
  The code page converter 04_types_contd: three single-byte code pages to UTF-8. A memory cell is
  a \<open>byte option\<close>, \<open>None\<close> when nothing was written to it; reading such a cell is the fault
  \<open>Uninitialised\<close>, an access outside the object \<open>OutOfBounds\<close>. A file is the list of its bytes;
  \<open>fread\<close> delivers as many bytes as are left and fit, and reports the end when it delivers fewer
  than asked for.
\<close>

section \<open>The tables\<close>

definition cp1251_to_utf8_table :: "u32 list" where
  "cp1251_to_utf8_table = [
     0x402, 0x403, 0x20a1, 0x453, 0x201e, 0x2026, 0x2020, 0x2021, 0x20ac,
     0x2030, 0x409, 0x2039, 0x40a, 0x40c, 0x40b, 0x40f, 0x452, 0x2018,
     0x2019, 0x201c, 0x201d, 0x2022, 0x2013, 0x2014, 0, 0x2122, 0x459,
     0x203a, 0x45a, 0x45c, 0x45b, 0x45f, 0xa0, 0x40e, 0x45e, 0x408,
     0xa4, 0x490, 0xa6, 0xa7, 0x401, 0xa9, 0x404, 0xab, 0xac,
     0xad, 0xae, 0x407, 0xb0, 0xb1, 0x406, 0x456, 0x491, 0xb5,
     0xb6, 0xb7, 0x451, 0x2116, 0x454, 0xbb, 0x458, 0x405, 0x455,
     0x457, 0x410, 0x411, 0x412, 0x413, 0x414, 0x415, 0x416, 0x417,
     0x418, 0x419, 0x41a, 0x41b, 0x41c, 0x41d, 0x41e, 0x41f, 0x420,
     0x421, 0x422, 0x423, 0x424, 0x425, 0x426, 0x427, 0x428, 0x429,
     0x42a, 0x42b, 0x42c, 0x42d, 0x42e, 0x42f, 0x430, 0x431, 0x432,
     0x433, 0x434, 0x435, 0x436, 0x437, 0x438, 0x439, 0x43a, 0x43b,
     0x43c, 0x43d, 0x43e, 0x43f, 0x440, 0x441, 0x442, 0x443, 0x444,
     0x445, 0x446, 0x447, 0x448, 0x449, 0x44a, 0x44b, 0x44c, 0x44d,
     0x44e, 0x44f]"

definition koi8r_to_utf_table :: "u32 list" where
  "koi8r_to_utf_table = [
     0x2500, 0x2502, 0x250c, 0x2510, 0x2514, 0x2518, 0x251c, 0x2524, 0x252c,
     0x2534, 0x253c, 0x2580, 0x2584, 0x2588, 0x258c, 0x2590, 0x2591, 0x2592,
     0x2593, 0x2320, 0x25a0, 0x2219, 0x221a, 0x2248, 0x2264, 0x2265, 0xa0,
     0x2321, 0xb0, 0xb2, 0xb7, 0xf7, 0x2550, 0x2551, 0x2552, 0x451,
     0x2553, 0x2554, 0x2555, 0x2556, 0x2557, 0x2558, 0x2559, 0x255a, 0x255b,
     0x255c, 0x255d, 0x255e, 0x255f, 0x2560, 0x2561, 0x401, 0x2562, 0x2563,
     0x2564, 0x2565, 0x2566, 0x2567, 0x2568, 0x2569, 0x256a, 0x256b, 0x256c,
     0xa9, 0x44e, 0x430, 0x431, 0x446, 0x434, 0x435, 0x444, 0x433,
     0x445, 0x438, 0x439, 0x43a, 0x43b, 0x43c, 0x43d, 0x43e, 0x43f,
     0x44f, 0x440, 0x441, 0x442, 0x443, 0x436, 0x432, 0x44c, 0x44b,
     0x437, 0x448, 0x44d, 0x449, 0x447, 0x44a, 0x42e, 0x410, 0x411,
     0x426, 0x414, 0x415, 0x424, 0x413, 0x425, 0x418, 0x419, 0x41a,
     0x41b, 0x41c, 0x41d, 0x41e, 0x41f, 0x42f, 0x420, 0x421, 0x422,
     0x423, 0x416, 0x412, 0x42c, 0x42b, 0x417, 0x428, 0x42d, 0x429,
     0x427, 0x42a]"

definition iso_8859_5_to_utf_table :: "u32 list" where
  "iso_8859_5_to_utf_table = [
     0x80, 0x81, 0x82, 0x83, 0x84, 0x85, 0x86, 0x87, 0x88,
     0x89, 0x8a, 0x8b, 0x8c, 0x8d, 0x8e, 0x8f, 0x90, 0x91,
     0x92, 0x93, 0x94, 0x95, 0x96, 0x97, 0x98, 0x99, 0x9a,
     0x9b, 0x9c, 0x9d, 0x9e, 0x9f, 0xa0, 0x401, 0x402, 0x403,
     0x404, 0x405, 0x406, 0x407, 0x408, 0x409, 0x40a, 0x40b, 0x40c,
     0xad, 0x40e, 0x40f, 0x410, 0x411, 0x412, 0x413, 0x414, 0x415,
     0x416, 0x417, 0x418, 0x419, 0x41a, 0x41b, 0x41c, 0x41d, 0x41e,
     0x41f, 0x420, 0x421, 0x422, 0x423, 0x424, 0x425, 0x426, 0x427,
     0x428, 0x429, 0x42a, 0x42b, 0x42c, 0x42d, 0x42e, 0x42f, 0x430,
     0x431, 0x432, 0x433, 0x434, 0x435, 0x436, 0x437, 0x438, 0x439,
     0x43a, 0x43b, 0x43c, 0x43d, 0x43e, 0x43f, 0x440, 0x441, 0x442,
     0x443, 0x444, 0x445, 0x446, 0x447, 0x448, 0x449, 0x44a, 0x44b,
     0x44c, 0x44d, 0x44e, 0x44f, 0x2116, 0x451, 0x452, 0x453, 0x454,
     0x455, 0x456, 0x457, 0x458, 0x459, 0x45a, 0x45b, 0x45c, 0xa7,
     0x45e, 0x45f]"

text \<open>\<open>None\<close> is the exit for an unsupported code page.\<close>

definition code_table :: "string \<Rightarrow> u32 list option" where
  "code_table codepage =
     (if codepage = ''cp1251'' then Some cp1251_to_utf8_table
      else if codepage = ''koi8-r'' then Some koi8r_to_utf_table
      else if codepage = ''iso-8859-5'' then Some iso_8859_5_to_utf_table
      else None)"

section \<open>Encoding\<close>

text \<open>The bytes written to \<open>out\<close> without the null byte behind them, and the length returned.\<close>

definition utf8_encode :: "u32 \<Rightarrow> byte list \<times> nat" where
  "utf8_encode utf =
     (if utf \<le> 0x7F then ([ucast utf], 1)
      else if utf \<le> 0x07FF then
        ([ucast ((drop_bit 6 utf AND 0x1F) OR 0xC0),
          ucast ((drop_bit 0 utf AND 0x3F) OR 0x80)], 2)
      else if utf \<le> 0xFFFF then
        ([ucast ((drop_bit 12 utf AND 0x0F) OR 0xE0),
          ucast ((drop_bit 6 utf AND 0x3F) OR 0x80),
          ucast ((drop_bit 0 utf AND 0x3F) OR 0x80)], 3)
      else if utf \<le> 0x10FFFF then
        ([ucast ((drop_bit 18 utf AND 0x07) OR 0xF0),
          ucast ((drop_bit 12 utf AND 0x3F) OR 0x80),
          ucast ((drop_bit 6 utf AND 0x3F) OR 0x80),
          ucast ((drop_bit 0 utf AND 0x3F) OR 0x80)], 4)
      else ([0xEF, 0xBF, 0xBD], 0))"

text \<open>Appending to the output buffer of \<open>cap\<close> bytes.\<close>

definition emit :: "nat \<Rightarrow> byte list \<Rightarrow> byte list \<Rightarrow> byte list cres" where
  "emit cap out bs = (if length out + length bs \<le> cap then Inr (out @ bs) else Inl OutOfBounds)"

fun convert_loop :: "u32 list \<Rightarrow> nat \<Rightarrow> byte option list \<Rightarrow> byte list \<Rightarrow> byte list cres" where
  "convert_loop table cap [] out = Inl OutOfBounds"
| "convert_loop table cap (None # cells) out = Inl Uninitialised"
| "convert_loop table cap (Some b # cells) out =
     (if b = 0 then bindE (emit cap out [0]) (\<lambda>_. Inr out)
      else if b AND 0x80 \<noteq> 0 then
        (case utf8_encode (table ! unat (0x7F AND b)) of (utf8_byte_array, len) \<Rightarrow>
          bindE (emit cap out (take len utf8_byte_array)) (\<lambda>out.
          convert_loop table cap cells out))
      else bindE (emit cap out [b]) (\<lambda>out. convert_loop table cap cells out))"

text \<open>The converted bytes, whose number is what the function returns.\<close>

definition codepage_to_utf8 :: "byte option list \<Rightarrow> nat \<Rightarrow> string \<Rightarrow> byte list option cres" where
  "codepage_to_utf8 cells cap codepage =
     (case code_table codepage of
        None \<Rightarrow> Inr None
      | Some table \<Rightarrow> bindE (convert_loop table cap cells []) (\<lambda>out. Inr (Some out)))"

section \<open>What the tables hold\<close>

definition table_ok :: "u32 list \<Rightarrow> bool" where
  "table_ok table \<longleftrightarrow> length table = 128 \<and> (\<forall>u \<in> set table. u \<le> 0xFFFF)"

lemma tables_ok: "table_ok cp1251_to_utf8_table" "table_ok koi8r_to_utf_table"
    "table_ok iso_8859_5_to_utf_table"
  by (simp_all add: table_ok_def cp1251_to_utf8_table_def koi8r_to_utf_table_def
      iso_8859_5_to_utf_table_def)

lemma code_table_ok: "code_table codepage = Some table \<Longrightarrow> table_ok table"
  using tables_ok by (auto simp: code_table_def split: if_splits)

text \<open>The letters of the Russian alphabet in cp1251 and ISO 8859-5.\<close>

lemma cp1251_letters: "take 64 (drop 64 cp1251_to_utf8_table) = map of_nat [0x410..<0x450]"
  by (simp add: cp1251_to_utf8_table_def upt_rec_numeral)

lemma iso_letters: "take 64 (drop 48 iso_8859_5_to_utf_table) = map of_nat [0x410..<0x450]"
  by (simp add: iso_8859_5_to_utf_table_def upt_rec_numeral)

text \<open>
  Two entries of cp1251 are wrong: 0x82, the low quotation mark U+201A, is given as U+20A1, and
  the undefined 0x98 as U+0000, which puts a null byte into the output.
\<close>

lemma cp1251_wrong_entries:
  "cp1251_to_utf8_table ! (0x82 - 0x80) = 0x20A1" "cp1251_to_utf8_table ! (0x98 - 0x80) = 0"
  by (simp_all add: cp1251_to_utf8_table_def)

section \<open>The loop\<close>

definition code_point :: "u32 list \<Rightarrow> byte \<Rightarrow> u32" where
  "code_point table b = (if b AND 0x80 \<noteq> 0 then table ! unat (0x7F AND b) else ucast b)"

definition encoded :: "u32 list \<Rightarrow> byte list \<Rightarrow> byte list" where
  "encoded table xs = concat (map (\<lambda>b. fst (utf8_encode (code_point table b))) xs)"

lemma bit_80_8: "bit (0x80 :: byte) n \<longleftrightarrow> n = 7"
proof -
  have "(0x80 :: byte) = 2 ^ 7" by simp
  then show ?thesis by (simp only: bit_exp_iff) auto
qed

lemma bit_80_int: "bit (0x80 :: int) n \<longleftrightarrow> n = 7"
proof -
  have "(0x80 :: int) = 2 ^ 7" by simp
  then show ?thesis by (simp only: bit_exp_iff) auto
qed

lemma byte_bit_lt: "bit (b :: byte) n \<Longrightarrow> \<not> bit b 7 \<Longrightarrow> n < 7"
proof -
  assume "bit b n" "\<not> bit b 7"
  then have "n < 8" "n \<noteq> 7" by (auto dest: bit_imp_le_length)
  then show "n < 7" by simp
qed

lemma byte_cases:
  fixes b :: byte
  shows "b AND 0x80 \<noteq> 0 \<longleftrightarrow> bit b 7" and "b AND 0x80 = 0 \<Longrightarrow> b \<le> 0x7F"
    and "unat (0x7F AND b) < 128"
proof -
  have m: "0x7F AND b = take_bit 7 b"
    by (simp add: take_bit_eq_mask mask_eq_exp_minus_1 and.commute)
  have "unat (take_bit 7 b) = take_bit 7 (unat b)" by (rule unsigned_take_bit_eq)
  then show "unat (0x7F AND b) < 128" unfolding m
    using take_bit_nat_less_exp [of 7 "unat b"] by (simp only:) simp
  have bits: "bit (b AND 0x80) n \<longleftrightarrow> n = 7 \<and> bit b 7" for n
    unfolding bit_and_iff bit_80_8 by auto
  then show hi: "b AND 0x80 \<noteq> 0 \<longleftrightarrow> bit b 7"
    by (metis bit_0_eq bot_apply bot_bool_def bit_word_eqI)
  assume "b AND 0x80 = 0"
  then have "\<not> bit b 7" using hi by blast
  then have "take_bit 7 b = b"
    using byte_bit_lt [of b] by (intro bit_word_eqI) (simp add: bit_take_bit_iff, blast)
  then have "b = 0x7F AND b" using m by simp
  then show "b \<le> 0x7F" by (metis word_and_le1 and.commute)
qed

lemma unat_ucast_byte: "unat (ucast (b :: byte) :: u32) = unat b"
proof -
  have "unat b < 2 ^ 8" using unsigned_less [of b] by simp
  then show ?thesis by (simp add: unsigned_ucast_eq take_bit_nat_eq_self)
qed

lemma ucast_ucast_byte: "ucast (ucast (b :: byte) :: u32) = b"
  by (rule bit_word_eqI) (auto simp: bit_ucast_iff dest: bit_imp_le_length)

lemma code_point_le: "table_ok table \<Longrightarrow> code_point table b \<le> 0xFFFF"
proof (cases "b AND 0x80 = 0")
  case True
  then have "unat b \<le> 0x7F" using byte_cases(2) [of b] by (simp add: word_le_nat_alt)
  then show ?thesis using True by (simp add: code_point_def word_le_nat_alt unat_ucast_byte)
next
  case False
  assume "table_ok table"
  then have "table ! unat (0x7F AND b) \<in> set table"
    using byte_cases(3) [of b] by (intro nth_mem) (simp add: table_ok_def)
  then show ?thesis using \<open>table_ok table\<close> False by (auto simp: code_point_def table_ok_def)
qed

lemma utf8_length: "u \<le> 0x10FFFF \<Longrightarrow> snd (utf8_encode u) = length (fst (utf8_encode u))"
  by (simp add: utf8_encode_def)

lemma utf8_short: "u \<le> 0xFFFF \<Longrightarrow> length (fst (utf8_encode u)) \<in> {1, 2, 3}"
  by (simp add: utf8_encode_def)

lemma convert_loop_step:
  assumes "table_ok table" "b \<noteq> 0"
  shows "convert_loop table cap (Some b # cells) out =
    bindE (emit cap out (fst (utf8_encode (code_point table b)))) (convert_loop table cap cells)"
proof (cases "b AND 0x80 = 0")
  case True
  then have "b \<le> 0x7F" by (rule byte_cases(2))
  then have "(ucast b :: u32) \<le> 0x7F" by (simp add: word_le_nat_alt unat_ucast_byte)
  then have "fst (utf8_encode (ucast b)) = [b]" by (simp add: utf8_encode_def ucast_ucast_byte)
  then show ?thesis using True assms(2) by (simp add: code_point_def)
next
  case False
  have "code_point table b \<le> 0x10FFFF"
    using code_point_le [OF assms(1), of b] by (rule order.trans) simp
  then show ?thesis using False assms(2) utf8_length [of "code_point table b"]
    by (cases "utf8_encode (table ! unat (0x7F AND b))") (simp add: code_point_def)
qed

lemma convert_loop_text:
  assumes "table_ok table" "0 \<notin> set xs" "length out \<le> cap"
  shows "convert_loop table cap (map Some xs @ cells) out =
    bindE (emit cap out (encoded table xs)) (convert_loop table cap cells)"
  using assms(2,3)
proof (induction xs arbitrary: out)
  case Nil
  then show ?case by (simp add: emit_def encoded_def)
next
  case (Cons b xs)
  then show ?case using convert_loop_step [OF assms(1), of b]
    by (auto simp: emit_def encoded_def)
qed

section \<open>Decoding UTF-8\<close>

definition cont :: "u32 \<Rightarrow> byte \<Rightarrow> u32" where
  "cont acc b = push_bit 6 acc OR (ucast b AND 0x3F)"

fun utf8_decode :: "byte list \<Rightarrow> u32 list option" where
  "utf8_decode [] = Some []"
| "utf8_decode (b0 # bs) =
     (if b0 < 0x80 then map_option ((#) (ucast b0)) (utf8_decode bs)
      else if b0 AND 0xE0 = 0xC0 then
        (case bs of b1 # bs \<Rightarrow> map_option ((#) (cont (ucast b0 AND 0x1F) b1)) (utf8_decode bs)
         | _ \<Rightarrow> None)
      else if b0 AND 0xF0 = 0xE0 then
        (case bs of b1 # b2 # bs \<Rightarrow>
           map_option ((#) (cont (cont (ucast b0 AND 0x0F) b1) b2)) (utf8_decode bs)
         | _ \<Rightarrow> None)
      else if b0 AND 0xF8 = 0xF0 then
        (case bs of b1 # b2 # b3 # bs \<Rightarrow>
           map_option ((#) (cont (cont (cont (ucast b0 AND 0x07) b1) b2) b3)) (utf8_decode bs)
         | _ \<Rightarrow> None)
      else None)"

lemma masks32: "(0x1F :: u32) = mask 5" "(0x3F :: u32) = mask 6" "(0x0F :: u32) = mask 4"
    "(0x07 :: u32) = mask 3" "(0xC0 :: u32) = push_bit 6 (mask 2)" "(0x80 :: u32) = push_bit 7 (mask 1)"
    "(0xE0 :: u32) = push_bit 5 (mask 3)" "(0xF0 :: u32) = push_bit 4 (mask 4)"
  by (simp_all add: mask_eq_exp_minus_1)

lemma masks8: "(0xC0 :: byte) = push_bit 6 (mask 2)" "(0x80 :: byte) = push_bit 7 (mask 1)"
    "(0xE0 :: byte) = push_bit 5 (mask 3)" "(0xF0 :: byte) = push_bit 4 (mask 4)"
    "(0xF8 :: byte) = push_bit 3 (mask 5)"
  by (simp_all add: mask_eq_exp_minus_1)

lemma bit_bound:
  fixes u :: u32
  assumes "bit u n" "unat u < 2 ^ k"
  shows "n < k"
proof -
  have "bit (unat u) n" using assms(1) by (simp add: bit_unsigned_iff)
  then have "0 < unat u div 2 ^ n" by (auto simp: bit_nat_def elim: oddE)
  then have "2 ^ n \<le> unat u" by (simp add: div_greater_zero_iff)
  then have "2 ^ n < (2::nat) ^ k" using assms(2) by (rule order.strict_trans1)
  then show ?thesis using power_less_imp_less_exp [of "2::nat" n k] by simp
qed

lemma high_bit: "bit (b :: byte) 7 \<Longrightarrow> \<not> b < 0x80"
proof -
  assume "bit b 7"
  then have "bit (unat b) 7" by (simp add: bit_unsigned_iff)
  then have "0 < unat b div 2 ^ 7" by (auto simp: bit_nat_def elim: oddE)
  then have "2 ^ 7 \<le> unat b" by (simp add: div_greater_zero_iff)
  then show ?thesis by (simp add: word_less_nat_alt)
qed

lemma lead2:
  fixes u :: u32
  defines "b \<equiv> ucast ((drop_bit 6 u AND 0x1F) OR 0xC0) :: byte"
  shows "\<not> b < 0x80" "b AND 0xE0 = 0xC0"
proof -
  show "\<not> b < 0x80" by (rule high_bit) (auto simp: b_def masks32 bit_simps)
  show "b AND 0xE0 = 0xC0"
    by (rule bit_word_eqI) (auto simp: b_def masks32 masks8 bit_simps)
qed

lemma lead3:
  fixes u :: u32
  defines "b \<equiv> ucast ((drop_bit 12 u AND 0x0F) OR 0xE0) :: byte"
  shows "\<not> b < 0x80" "b AND 0xE0 \<noteq> 0xC0" "b AND 0xF0 = 0xE0"
proof -
  show "\<not> b < 0x80" by (rule high_bit) (auto simp: b_def masks32 bit_simps)
  have "bit (b AND 0xE0) 5" "\<not> bit (0xC0 :: byte) 5"
    by (auto simp: b_def masks32 masks8 bit_simps)
  then show "b AND 0xE0 \<noteq> 0xC0" by metis
  show "b AND 0xF0 = 0xE0"
    by (rule bit_word_eqI) (auto simp: b_def masks32 masks8 bit_simps)
qed

lemma lead4:
  fixes u :: u32
  defines "b \<equiv> ucast ((drop_bit 18 u AND 0x07) OR 0xF0) :: byte"
  shows "\<not> b < 0x80" "b AND 0xE0 \<noteq> 0xC0" "b AND 0xF0 \<noteq> 0xE0" "b AND 0xF8 = 0xF0"
proof -
  show "\<not> b < 0x80" by (rule high_bit) (auto simp: b_def masks32 bit_simps)
  have "bit (b AND 0xE0) 5" "\<not> bit (0xC0 :: byte) 5"
    by (auto simp: b_def masks32 masks8 bit_simps)
  then show "b AND 0xE0 \<noteq> 0xC0" by metis
  have "bit (b AND 0xF0) 4" "\<not> bit (0xE0 :: byte) 4"
    by (auto simp: b_def masks32 masks8 bit_simps)
  then show "b AND 0xF0 \<noteq> 0xE0" by metis
  show "b AND 0xF8 = 0xF0"
    by (rule bit_word_eqI) (auto simp: b_def masks32 masks8 bit_simps)
qed

lemma cont_bits: "bit (cont acc (ucast (((d :: u32) AND 0x3F) OR 0x80))) n \<longleftrightarrow>
    n < 32 \<and> (if n < 6 then bit d n else bit acc (n - 6))"
  unfolding cont_def masks32(2)
  by (cases "n < 6") (auto simp: bit_and_iff bit_or_iff bit_mask_iff bit_ucast_iff bit_push_bit_iff bit_80_int)

lemma cont_step:
  fixes u :: u32
  assumes "acc = drop_bit (k + 6) u"
  shows "cont acc (ucast ((drop_bit k u AND 0x3F) OR 0x80)) = drop_bit k u"
proof (rule bit_word_eqI)
  fix n assume "n < LENGTH(32)"
  then show "bit (cont acc (ucast ((drop_bit k u AND 0x3F) OR 0x80))) n = bit (drop_bit k u) n"
    unfolding cont_bits by (simp add: assms bit_drop_bit_eq)
qed

lemma lead_bits2:
  "bit (ucast (ucast (((d :: u32) AND 0x1F) OR 0xC0) :: byte) AND 0x1F :: u32) n \<longleftrightarrow> n < 5 \<and> bit d n"
  unfolding masks32
  by (auto simp: bit_and_iff bit_or_iff bit_mask_iff bit_ucast_iff bit_push_bit_iff)

lemma lead_bits3:
  "bit (ucast (ucast (((d :: u32) AND 0x0F) OR 0xE0) :: byte) AND 0x0F :: u32) n \<longleftrightarrow> n < 4 \<and> bit d n"
  unfolding masks32
  by (auto simp: bit_and_iff bit_or_iff bit_mask_iff bit_ucast_iff bit_push_bit_iff)

lemma lead_bits4:
  "bit (ucast (ucast (((d :: u32) AND 0x07) OR 0xF0) :: byte) AND 0x07 :: u32) n \<longleftrightarrow> n < 3 \<and> bit d n"
  unfolding masks32
  by (auto simp: bit_and_iff bit_or_iff bit_mask_iff bit_ucast_iff bit_push_bit_iff)

lemma lead_value:
  fixes u :: u32
  shows "unat u < 2 ^ 11 \<Longrightarrow> ucast (ucast ((drop_bit 6 u AND 0x1F) OR 0xC0) :: byte) AND 0x1F = drop_bit 6 u"
    and "unat u < 2 ^ 16 \<Longrightarrow> ucast (ucast ((drop_bit 12 u AND 0x0F) OR 0xE0) :: byte) AND 0x0F = drop_bit 12 u"
    and "unat u < 2 ^ 21 \<Longrightarrow> ucast (ucast ((drop_bit 18 u AND 0x07) OR 0xF0) :: byte) AND 0x07 = drop_bit 18 u"
proof -
  have drop: "i + n < k" if "bit (drop_bit i u) n" "unat u < 2 ^ k" for i n k
    using that bit_bound [of u "i + n" k] by (simp add: bit_drop_bit_eq)
  show "ucast (ucast ((drop_bit 6 u AND 0x1F) OR 0xC0) :: byte) AND 0x1F = drop_bit 6 u"
    if "unat u < 2 ^ 11"
  proof (rule bit_word_eqI)
    fix n
    have "n < 5" if "bit (drop_bit 6 u) n"
      using drop [OF that \<open>unat u < 2 ^ 11\<close>] by simp
    then show "bit (ucast (ucast ((drop_bit 6 u AND 0x1F) OR 0xC0) :: byte) AND 0x1F :: u32) n = bit (drop_bit 6 u) n"
      unfolding lead_bits2 by blast
  qed
  show "ucast (ucast ((drop_bit 12 u AND 0x0F) OR 0xE0) :: byte) AND 0x0F = drop_bit 12 u"
    if "unat u < 2 ^ 16"
  proof (rule bit_word_eqI)
    fix n
    have "n < 4" if "bit (drop_bit 12 u) n"
      using drop [OF that \<open>unat u < 2 ^ 16\<close>] by simp
    then show "bit (ucast (ucast ((drop_bit 12 u AND 0x0F) OR 0xE0) :: byte) AND 0x0F :: u32) n = bit (drop_bit 12 u) n"
      unfolding lead_bits3 by blast
  qed
  show "ucast (ucast ((drop_bit 18 u AND 0x07) OR 0xF0) :: byte) AND 0x07 = drop_bit 18 u"
    if "unat u < 2 ^ 21"
  proof (rule bit_word_eqI)
    fix n
    have "n < 3" if "bit (drop_bit 18 u) n"
      using drop [OF that \<open>unat u < 2 ^ 21\<close>] by simp
    then show "bit (ucast (ucast ((drop_bit 18 u AND 0x07) OR 0xF0) :: byte) AND 0x07 :: u32) n = bit (drop_bit 18 u) n"
      unfolding lead_bits4 by blast
  qed
qed

lemma utf8_decode_encode:
  assumes "u \<le> 0x10FFFF"
  shows "utf8_decode (fst (utf8_encode u) @ rest) = map_option ((#) u) (utf8_decode rest)"
proof -
  consider (1) "u \<le> 0x7F" | (2) "\<not> u \<le> 0x7F" "u \<le> 0x7FF" | (3) "\<not> u \<le> 0x7F" "\<not> u \<le> 0x7FF" "u \<le> 0xFFFF"
    | (4) "\<not> u \<le> 0x7F" "\<not> u \<le> 0x7FF" "\<not> u \<le> 0xFFFF" by blast
  then show ?thesis
  proof cases
    case 1
    then have u: "unat u \<le> 127" by (simp add: word_le_nat_alt)
    then have b: "unat (ucast u :: byte) = unat u"
      by (simp add: unsigned_ucast_eq take_bit_nat_eq_self)
    then have "(ucast u :: byte) < 0x80" using u by (simp add: word_less_nat_alt)
    moreover have "(ucast (ucast u :: byte) :: u32) = u"
      by (simp add: word_unat_eq_iff unat_ucast_byte b)
    ultimately show ?thesis using 1 by (simp add: utf8_encode_def)
  next
    case 2
    then have "unat u < 2 ^ 11" by (simp add: word_le_nat_alt)
    then show ?thesis using 2 lead2 [of u] lead_value(1) [of u] cont_step [of _ 0 u]
      by (simp add: utf8_encode_def)
  next
    case 3
    then have "unat u < 2 ^ 16" by (simp add: word_le_nat_alt)
    then show ?thesis using 3 lead3 [of u] lead_value(2) [of u] cont_step [of _ 0 u] cont_step [of _ 6 u]
      by (simp add: utf8_encode_def)
  next
    case 4
    then have "unat u < 2 ^ 21" using assms by (simp add: word_le_nat_alt)
    then show ?thesis using 4 assms lead4 [of u] lead_value(3) [of u] cont_step [of _ 0 u]
        cont_step [of _ 6 u] cont_step [of _ 12 u]
      by (simp add: utf8_encode_def)
  qed
qed

lemma utf8_decode_encoded:
  assumes "table_ok table"
  shows "utf8_decode (encoded table xs) = Some (map (code_point table) xs)"
proof (induction xs)
  case (Cons b xs)
  have "code_point table b \<le> 0x10FFFF"
    using code_point_le [OF assms, of b] by (rule order.trans) simp
  then show ?case using Cons by (simp add: encoded_def utf8_decode_encode)
qed (simp add: encoded_def)

section \<open>What the converter promises\<close>

text \<open>
  On a null-terminated text in a supported code page, with room for the result and
  its terminator, the converter writes exactly the UTF-8 encoding of the text: decoding what it
  wrote gives the code points of the bytes, in order. Without that room it writes outside the
  output buffer.
\<close>

theorem codepage_to_utf8_roundtrip:
  assumes "code_table codepage = Some table" and "0 \<notin> set text"
  shows "codepage_to_utf8 (map Some text @ Some 0 # cells) cap codepage =
      (if length (encoded table text) < cap then Inr (Some (encoded table text)) else Inl OutOfBounds) \<and>
    utf8_decode (encoded table text) = Some (map (code_point table) text)"
proof
  have ok: "table_ok table" using assms(1) by (rule code_table_ok)
  show "codepage_to_utf8 (map Some text @ Some 0 # cells) cap codepage =
      (if length (encoded table text) < cap then Inr (Some (encoded table text)) else Inl OutOfBounds)"
    using convert_loop_text [OF ok assms(2), of "[]" cap "Some 0 # cells"] assms(1)
    by (simp add: codepage_to_utf8_def emit_def)
  show "utf8_decode (encoded table text) = Some (map (code_point table) text)"
    using ok by (rule utf8_decode_encoded)
qed

lemma codepage_to_utf8_roundtrip_witness:
  "\<exists>table. code_table ''koi8-r'' = Some table \<and>
     codepage_to_utf8 [Some 0x41, Some 0xC1, Some 0] 4 ''koi8-r'' = Inr (Some (encoded table [0x41, 0xC1])) \<and>
     utf8_decode (encoded table [0x41, 0xC1]) = Some [0x41, 0x430]"
proof -
  have t: "code_table ''koi8-r'' = Some koi8r_to_utf_table" by (simp add: code_table_def)
  have c: "map (code_point koi8r_to_utf_table) [0x41, 0xC1] = [0x41, 0x430]"
    by (simp add: code_point_def koi8r_to_utf_table_def)
  have l: "length (encoded koi8r_to_utf_table [0x41, 0xC1]) < 4"
    by (simp add: encoded_def code_point_def koi8r_to_utf_table_def utf8_encode_def)
  show ?thesis
    using codepage_to_utf8_roundtrip [OF t, of "[0x41, 0xC1]" "[]" 4] t l unfolding c by simp
qed

end
