(* ===== verification/CodepageMain.thy ===== *)
theory CodepageMain
  imports Codepage ReadFile
begin

text \<open>
  The program around the converter of 04_types_contd/main.c: reading the input, the buffers, writing
  the output. The buffer of the input has cells that were never written behind the file.
\<close>

section \<open>The program\<close>

text \<open>The output file: whether it opens, how many bytes can be written, whether it closes.\<close>

record out_file =
  o_open :: bool
  o_room :: nat
  o_close :: bool

datatype line = Converting string string | Failed string | Help string

text \<open>What is left in the output file, and the failed call.\<close>

definition write_file :: "out_file \<Rightarrow> byte list \<Rightarrow> byte list option \<times> io_call option" where
  "write_file f data =
     (if \<not> o_open f then (None, Some Fopen)
      else if o_room f < length data then (Some (take (o_room f) data), Some Fwrite)
      else if \<not> o_close f then (Some data, Some Fclose)
      else (Some data, None))"

text \<open>The lines printed, the contents of the output file if it was opened, and the exit status.\<close>

type_synonym outcome = "line list \<times> byte list option \<times> int"

text \<open>The end of \<open>convert\<close>, with what the converter returned; it exits itself for an unknown code page.\<close>

definition finish :: "out_file \<Rightarrow> line \<Rightarrow> byte list option \<Rightarrow> outcome run" where
  "finish f heading res =
     (case res of
        None \<Rightarrow> Some (Inr ([heading, Failed ''Unsupported codepage''], None, 1))
      | Some utf8 \<Rightarrow> (case write_file f utf8 of
            (contents, None) \<Rightarrow> Some (Inr ([heading], contents, 0))
          | (contents, Some call) \<Rightarrow> Some (Inr ([heading, Failed (call_name call)], contents, 1))))"

text \<open>The input: its cells, those behind the file without a value, and its size.\<close>

definition read_input :: "stdio \<Rightarrow> string \<Rightarrow> (io_call + byte option list \<times> nat) option" where
  "read_input io filename =
     map_option (map_sum id (\<lambda>(bytes, buf_cap).
       (map Some bytes @ replicate (buf_cap - length bytes) None, length bytes))) (read_file io filename)"

definition convert :: "stdio \<Rightarrow> out_file \<Rightarrow> string \<Rightarrow> string \<Rightarrow> outcome run" where
  "convert io f input_file codepage =
     (let heading = Converting input_file codepage
      in case read_input io input_file of
           None \<Rightarrow> None
         | Some (Inl call) \<Rightarrow> Some (Inr ([heading, Failed (call_name call)], None, 1))
         | Some (Inr (cells, file_size)) \<Rightarrow>
             if \<not> io_alloc io (file_size * 2) then Some (Inr ([heading, Failed ''malloc''], None, 1))
             else
               bindR (Some (codepage_to_utf8 cells (file_size * 2) codepage)) (finish f heading))"

definition print_usage :: "string \<Rightarrow> string" where
  "print_usage argv0 =
     ''Converts cp1251|koi8-r|iso-8859-5 text to utf-8'' @ [CHR 0x0A, CHR 0x0A] @
     ''Usage:'' @ [CHR 0x0A, CHR 0x0A] @
     ''  '' @ argv0 @ '' <input_file> <codepage: cp1251|koi8-r|iso-8859-5> <output_file>'' @ [CHR 0x0A, CHR 0x0A]"

definition codepage_main :: "stdio \<Rightarrow> (string \<Rightarrow> out_file) \<Rightarrow> string list \<Rightarrow> outcome run" where
  "codepage_main io files argv =
     (if length argv = 4 \<and> (argv ! 2 = ''cp1251'' \<or> argv ! 2 = ''koi8-r'' \<or> argv ! 2 = ''iso-8859-5'')
      then convert io (files (argv ! 3)) (argv ! 1) (argv ! 2)
      else if argv = [] then Some (Inl NullDeref)
      else Some (Inr ([Help (print_usage (argv ! 0))], None, 1)))"

section \<open>What the program does\<close>

lemma codepage_main_convert:
  "code_table codepage = Some table \<Longrightarrow>
   codepage_main io files [prog, input, codepage, output] = convert io (files output) input codepage"
  by (auto simp: codepage_main_def code_table_def split: if_splits)

text \<open>An argument that is no code page, or a wrong number of them: nothing is read or written.\<close>

lemma codepage_main_usage:
  "length (prog # args) \<noteq> 4 \<or> code_table (args ! 1) = None \<Longrightarrow>
   codepage_main io files (prog # args) = Some (Inr ([Help (print_usage prog)], None, 1))"
  by (auto simp: codepage_main_def code_table_def split: if_splits)

text \<open>The call of the converter, when nothing fails before.\<close>

lemma convert_ok:
  assumes "io_file io input = Some bytes" "io_ok io"
  obtains k where "convert io f input codepage =
    bindR (Some (codepage_to_utf8 (map Some bytes @ None # replicate k None) (length bytes * 2) codepage))
      (finish f (Converting input codepage))"
proof -
  obtain cap where r: "read_file io input = Some (Inr (bytes, cap))" "length bytes < cap"
    using assms by (rule read_file_all)
  have i: "read_input io input =
      Some (Inr (map Some bytes @ replicate (cap - length bytes) None, length bytes))"
    by (simp add: read_input_def r(1))
  have "cap - length bytes = Suc (cap - length bytes - 1)" using r(2) by simp
  then have "map Some bytes @ replicate (cap - length bytes) None =
      map Some bytes @ None # replicate (cap - length bytes - 1) None"
    by (metis replicate_Suc)
  moreover have "io_alloc io (length bytes * 2)" using assms(2) by (simp add: io_ok_def)
  ultimately show ?thesis
    using i
    by (intro that [of "cap - length bytes - 1"])
      (simp only: convert_def Let_def option.case sum.case prod.case if_False not_True_eq_False)
qed

text \<open>
  Property C19. On a file whose text is closed by a null byte, in a supported code page and when no
  call fails, the program writes exactly the UTF-8 encoding of the text, which decodes to the code
  points of its bytes, and succeeds; without room for the result in twice the size of the file it
  writes outside its buffer.
\<close>

theorem codepage_main_converts:
  assumes "code_table codepage = Some table" "0 \<notin> set txt"
    and "io_file io input = Some (txt @ 0 # rest)" "io_ok io"
    and "o_open (files output)" "length (encoded table txt) \<le> o_room (files output)" "o_close (files output)"
  shows "codepage_main io files [prog, input, codepage, output] =
      (if length (encoded table txt) < 2 * length (txt @ 0 # rest)
       then Some (Inr ([Converting input codepage], Some (encoded table txt), 0))
       else Some (Inl OutOfBounds)) \<and>
    utf8_decode (encoded table txt) = Some (map (code_point table) txt)"
proof -
  obtain k where k: "convert io (files output) input codepage =
      bindR (Some (codepage_to_utf8 (map Some (txt @ 0 # rest) @ None # replicate k None)
        (length (txt @ 0 # rest) * 2) codepage)) (finish (files output) (Converting input codepage))"
    using assms(3,4) by (rule convert_ok)
  have "write_file (files output) (encoded table txt) = (Some (encoded table txt), None)"
    using assms(5-7) by (simp add: write_file_def)
  then show ?thesis
    using codepage_to_utf8_roundtrip [OF assms(1,2), of "map Some rest @ None # replicate k None"
        "length (txt @ 0 # rest) * 2"]
    unfolding codepage_main_convert [OF assms(1)] k by (auto simp: finish_def mult.commute)
qed

text \<open>
  Property C37. The program does not close its input itself: on every file without null bytes,
  when nothing fails, the conversion runs past what was read into memory that was never written -
  unless it overruns the output buffer of twice the size of the file first.
\<close>

theorem codepage_main_runs_past_the_file:
  assumes "code_table codepage = Some table" "0 \<notin> set txt"
    and "io_file io input = Some txt" "io_ok io"
  shows "codepage_main io files [prog, input, codepage, output] =
    Some (Inl (if length (encoded table txt) \<le> 2 * length txt then Uninitialised else OutOfBounds))"
proof -
  obtain k where k: "convert io (files output) input codepage =
      bindR (Some (codepage_to_utf8 (map Some txt @ None # replicate k None) (length txt * 2) codepage)) (finish (files output) (Converting input codepage))"
    using assms(3,4) by (rule convert_ok)
  show ?thesis
    using convert_loop_text [OF code_table_ok [OF assms(1)] assms(2), of "[]" "length txt * 2"
        "None # replicate k None"] assms(1)
    unfolding codepage_main_convert [OF assms(1)] k
    by (simp add: codepage_to_utf8_def emit_def mult.commute)
qed

section \<open>Concrete files\<close>

text \<open>A disk with one file, and an output that takes everything.\<close>

definition one_file :: "byte list \<Rightarrow> stdio" where
  "one_file bytes = \<lparr>io_file = (\<lambda>_. Some bytes), io_error = (\<lambda>_. False), io_close = True, io_alloc = (\<lambda>_. True)\<rparr>"

lemma one_file_ok [simp]: "io_ok (one_file bytes)" "io_file (one_file bytes) name = Some bytes"
  by (simp_all add: one_file_def io_ok_def)

lemma koi8r: "code_table ''koi8-r'' = Some koi8r_to_utf_table"
    "encoded koi8r_to_utf_table [0x41, 0xC1] = [0x41, 0xD0, 0xB0]"
    "encoded koi8r_to_utf_table [0x80] = [0xE2, 0x94, 0x80]"
  by (simp_all add: code_table_def encoded_def code_point_def koi8r_to_utf_table_def utf8_encode_def)

lemma codepage_main_converts_witness:
  "codepage_main (one_file [0x41, 0xC1, 0]) (\<lambda>_. \<lparr>o_open = True, o_room = 9, o_close = True\<rparr>)
     [''cp'', ''in'', ''koi8-r'', ''out''] =
   Some (Inr ([Converting ''in'' ''koi8-r''], Some [0x41, 0xD0, 0xB0], 0))"
  using codepage_main_converts [OF koi8r(1), of "[0x41, 0xC1]" "one_file [0x41, 0xC1, 0]" "''in''" "[]"
      "\<lambda>_. \<lparr>o_open = True, o_room = 9, o_close = True\<rparr>" "''out''" "''cp''"]
  by (simp add: koi8r(2))

lemma codepage_main_runs_past_the_file_witness:
  "codepage_main (one_file [0x80]) (\<lambda>_. \<lparr>o_open = True, o_room = 9, o_close = True\<rparr>)
     [''cp'', ''in'', ''koi8-r'', ''out''] = Some (Inl OutOfBounds) \<and>
   codepage_main (one_file [0x41, 0xC1]) (\<lambda>_. \<lparr>o_open = True, o_room = 9, o_close = True\<rparr>)
     [''cp'', ''in'', ''koi8-r'', ''out''] = Some (Inl Uninitialised)"
  using codepage_main_runs_past_the_file [OF koi8r(1), of "[0x80]" "one_file [0x80]" "''in''"
      "\<lambda>_. \<lparr>o_open = True, o_room = 9, o_close = True\<rparr>" "''cp''" "''out''"]
    codepage_main_runs_past_the_file [OF koi8r(1), of "[0x41, 0xC1]" "one_file [0x41, 0xC1]" "''in''"
      "\<lambda>_. \<lparr>o_open = True, o_room = 9, o_close = True\<rparr>" "''cp''" "''out''"]
  by (simp add: koi8r(2,3))

end
