(* ===== verification/CString.thy ===== *)
theory CString
  imports Prelude
begin

text \<open>
  What the programs use of the C string library, on strings without the closing NUL: character
  classes, searching, number parsing and printing, and the lines \<open>fgets\<close> cuts a file into.
\<close>

section \<open>Characters\<close>

definition is_space :: "char \<Rightarrow> bool" where
  "is_space c \<longleftrightarrow> c \<in> set [CHR '' '', CHR 0x09, CHR 0x0A, CHR 0x0B, CHR 0x0C, CHR 0x0D]"

definition is_digit :: "char \<Rightarrow> bool" where
  "is_digit c \<longleftrightarrow> 48 \<le> (of_char c :: nat) \<and> (of_char c :: nat) \<le> 57"

definition is_alpha :: "char \<Rightarrow> bool" where
  "is_alpha c \<longleftrightarrow> (let n = of_char c :: nat in 65 \<le> n \<and> n \<le> 90 \<or> 97 \<le> n \<and> n \<le> 122)"

definition lower :: "char \<Rightarrow> char" where
  "lower c = (if 65 \<le> (of_char c :: nat) \<and> (of_char c :: nat) \<le> 90 then char_of (of_char c + 32 :: nat) else c)"

definition strcasecmp_eq :: "string \<Rightarrow> string \<Rightarrow> bool" where
  "strcasecmp_eq a b \<longleftrightarrow> map lower a = map lower b"

text \<open>The value of a hexadecimal digit, when the character is one (\<open>isxdigit\<close>).\<close>

definition hex_val :: "char \<Rightarrow> nat option" where
  "hex_val c = (let n = of_char c :: nat in
     if 48 \<le> n \<and> n \<le> 57 then Some (n - 48)
     else if 65 \<le> n \<and> n \<le> 70 then Some (n - 55)
     else if 97 \<le> n \<and> n \<le> 102 then Some (n - 87) else None)"

definition hex_digit :: "nat \<Rightarrow> char" where
  "hex_digit n = (if n < 10 then char_of (48 + n) else char_of (55 + n))"

lemma of_char_char_of: "n < 256 \<Longrightarrow> of_char (char_of (n :: nat)) = n"
  by simp

lemma hex_val_hex_digit [simp]: "n < 16 \<Longrightarrow> hex_val (hex_digit n) = Some n"
  by (auto simp: hex_val_def hex_digit_def Let_def)

lemma hex_val_less: "hex_val c = Some n \<Longrightarrow> n < 16"
  by (auto simp: hex_val_def Let_def split: if_splits)

lemma char_of_div_mod: "char_of (16 * (of_char c div 16) + of_char c mod 16 :: nat) = (c :: char)"
  by simp

lemma of_char_less: "(of_char c :: nat) < 256"
  by simp

section \<open>Searching\<close>

definition c_str :: "string \<Rightarrow> string" where
  "c_str s = takeWhile (\<lambda>c. c \<noteq> CHR 0x00) s"

definition strchr :: "char \<Rightarrow> string \<Rightarrow> string option" where
  "strchr c s = (case dropWhile (\<lambda>d. d \<noteq> c) s of [] \<Rightarrow> None | t \<Rightarrow> Some t)"

text \<open>\<open>strrchr\<close>: the suffix that begins with the last occurrence.\<close>

fun strrchr :: "char \<Rightarrow> string \<Rightarrow> string option" where
  "strrchr c [] = None"
| "strrchr c (d # s) =
     (case strrchr c s of Some t \<Rightarrow> Some t | None \<Rightarrow> if d = c then Some (d # s) else None)"

fun strstr :: "string \<Rightarrow> string \<Rightarrow> string option" where
  "strstr needle s =
     (if take (length needle) s = needle then Some s
      else case s of [] \<Rightarrow> None | _ # s' \<Rightarrow> strstr needle s')"

declare strstr.simps [simp del]

lemma c_str_plain: "CHR 0x00 \<notin> set s \<Longrightarrow> c_str s = s"
  by (auto simp: c_str_def takeWhile_eq_all_conv)

lemma strstr_None_iff: "strstr n s = None \<longleftrightarrow> (\<nexists>p r. s = p @ n @ r)"
proof (induction s)
  case Nil
  then show ?case by (simp add: strstr.simps [of n])
next
  case (Cons c s)
  have "(\<exists>p r. c # s = p @ n @ r) \<longleftrightarrow> take (length n) (c # s) = n \<or> (\<exists>p r. s = p @ n @ r)"
  proof
    assume "\<exists>p r. c # s = p @ n @ r"
    then obtain p r where pr: "c # s = p @ n @ r" by blast
    show "take (length n) (c # s) = n \<or> (\<exists>p r. s = p @ n @ r)"
    proof (cases p)
      case Nil
      then show ?thesis using pr by simp
    next
      case (Cons d p')
      then show ?thesis using pr by auto
    qed
  next
    assume "take (length n) (c # s) = n \<or> (\<exists>p r. s = p @ n @ r)"
    then show "\<exists>p r. c # s = p @ n @ r"
      by (metis append_Cons append_Nil append_take_drop_id)
  qed
  then show ?case using Cons by (simp add: strstr.simps [of n "c # s"])
qed

lemma strchr_simps [simp]:
  "strchr c [] = None"
  "strchr c (d # s) = (if d = c then Some (c # s) else strchr c s)"
  by (simp_all add: strchr_def)

lemma strchr_skip [simp]: "c \<notin> set p \<Longrightarrow> strchr c (p @ s) = strchr c s"
  by (induction p) auto

lemma strchr_None_iff: "strchr c s = None \<longleftrightarrow> c \<notin> set s"
  by (induction s) auto

lemma strchr_SomeD: "strchr c s = Some t \<Longrightarrow> \<exists>p. s = p @ t \<and> c \<notin> set p \<and> t \<noteq> [] \<and> hd t = c"
proof (induction s)
  case (Cons d s)
  then show ?case by (cases "d = c") (auto intro: exI [of _ "[]"] exI [of _ "d # _"])
qed simp

section \<open>Numbers\<close>

definition digits_val :: "string \<Rightarrow> int" where
  "digits_val ds = foldl (\<lambda>n c. 10 * n + (of_char c - 48)) 0 ds"

definition clamp_long :: "int \<Rightarrow> int" where
  "clamp_long n = max (- (2 ^ 63)) (min (2 ^ 63 - 1) n)"

text \<open>\<open>strtol\<close> in base 10: the value, clamped to \<open>long\<close>, and the rest of the string.\<close>

definition strtol10 :: "string \<Rightarrow> int \<times> string" where
  "strtol10 str =
     (let s = dropWhile is_space str;
          neg = (s \<noteq> [] \<and> hd s = CHR ''-'');
          s = (if s \<noteq> [] \<and> (hd s = CHR ''-'' \<or> hd s = CHR ''+'') then tl s else s);
          ds = takeWhile is_digit s
      in if ds = [] then (0, str)
         else (clamp_long (if neg then - digits_val ds else digits_val ds), dropWhile is_digit s))"

text \<open>Whether \<open>strtol\<close> sets \<open>errno\<close>: the number is out of the range of \<open>long\<close>.\<close>

definition strtol_erange :: "string \<Rightarrow> bool" where
  "strtol_erange str =
     (let s = dropWhile is_space str;
          neg = (s \<noteq> [] \<and> hd s = CHR ''-'');
          s = (if s \<noteq> [] \<and> (hd s = CHR ''-'' \<or> hd s = CHR ''+'') then tl s else s);
          n = digits_val (takeWhile is_digit s)
      in if neg then n > 2 ^ 63 else n \<ge> 2 ^ 63)"

text \<open>The conversion of \<open>long\<close> to \<open>int\<close> keeps the low 32 bits.\<close>

definition to_int32 :: "int \<Rightarrow> int" where
  "to_int32 n = sint (word_of_int n :: u32)"

text \<open>\<open>%d\<close> of a number that is not negative.\<close>

fun dec :: "nat \<Rightarrow> string" where
  "dec n = (if n < 10 then [char_of (48 + n)] else dec (n div 10) @ [char_of (48 + n mod 10)])"

declare dec.simps [simp del]

definition dec_int :: "int \<Rightarrow> string" where
  "dec_int n = (if n < 0 then CHR ''-'' # dec (nat (- n)) else dec (nat n))"

lemma is_digit_char [simp]: "d < 10 \<Longrightarrow> is_digit (char_of (48 + d :: nat))"
  by (simp add: is_digit_def)

lemma of_char_digit [simp]: "d < 10 \<Longrightarrow> (of_char (char_of (48 + d :: nat)) :: int) = 48 + int d"
  by (subst of_nat_of_char [symmetric]) simp

lemma dec_digits: "list_all is_digit (dec n)"
proof (induction n rule: dec.induct)
  case (1 n)
  then show ?case
    by (cases "n < 10") (simp_all add: dec.simps [of n])
qed

lemma dec_ne: "dec n \<noteq> []"
  by (simp add: dec.simps [of n])

lemma length_dec: "n < 10 ^ k \<Longrightarrow> 0 < k \<Longrightarrow> length (dec n) \<le> k"
proof (induction k arbitrary: n)
  case (Suc k)
  show ?case
  proof (cases "n < 10")
    case True
    then show ?thesis by (simp add: dec.simps [of n])
  next
    case False
    then have "0 < k" using Suc.prems(1) by (cases k) auto
    moreover have "n div 10 < 10 ^ k" using Suc.prems(1) by (simp add: div_less_iff_less_mult mult.commute)
    ultimately show ?thesis using False Suc.IH [of "n div 10"] by (simp add: dec.simps [of n])
  qed
qed simp

lemma digits_val_snoc: "digits_val (ds @ [c]) = 10 * digits_val ds + (of_char c - 48)"
  by (simp add: digits_val_def)

lemma digits_val_single: "digits_val [c] = of_char c - 48"
  by (simp add: digits_val_def)

lemma digits_val_dec: "digits_val (dec n) = int n"
proof (induction n rule: dec.induct)
  case (1 n)
  show ?case
  proof (cases "n < 10")
    case True
    then show ?thesis by (simp add: dec.simps [of n] digits_val_single)
  next
    case False
    then have "dec n = dec (n div 10) @ [char_of (48 + n mod 10)]" by (simp add: dec.simps [of n])
    then show ?thesis using 1 [OF False] by (simp add: digits_val_snoc zdiv_int zmod_int)
  qed
qed

lemma is_digit_facts: "is_digit c \<Longrightarrow> \<not> is_space c \<and> c \<noteq> CHR ''-'' \<and> c \<noteq> CHR ''+'' \<and> c \<noteq> CHR '' ''"
  by (auto simp: is_digit_def is_space_def)

lemma dec_cons: "\<exists>d ds. dec n = d # ds \<and> is_digit d"
  using dec_ne [of n] dec_digits [of n] by (cases "dec n") auto

lemma strtol10_dec:
  assumes "n < 2 ^ 63" and "rest = [] \<or> \<not> is_digit (hd rest)"
  shows "strtol10 (dec n @ rest) = (int n, rest)"
proof -
  obtain d ds where d: "dec n = d # ds" "is_digit d" using dec_cons by blast
  have all: "\<forall>c \<in> set (dec n). is_digit c" using dec_digits [of n] by (simp add: list_all_iff)
  have tw: "takeWhile is_digit (dec n @ rest) = dec n" "dropWhile is_digit (dec n @ rest) = rest"
    using all assms(2) by (cases rest; simp add: takeWhile_append dropWhile_append)+
  have "dropWhile is_space (dec n @ rest) = dec n @ rest"
    using d is_digit_facts by simp
  moreover have "hd (dec n @ rest) = d" using d by simp
  ultimately show ?thesis
    using tw d is_digit_facts [OF d(2)] assms(1) digits_val_dec [of n]
    by (simp add: strtol10_def Let_def clamp_long_def del: append_Cons)
qed

section \<open>Lines\<close>

text \<open>
  \<open>fgets\<close> into a buffer of \<open>n\<close> bytes: at most \<open>n - 1\<close> characters, up to and with a newline.
  The program sees the line up to its first NUL.
\<close>

fun fgets_split :: "nat \<Rightarrow> string \<Rightarrow> string \<times> string" where
  "fgets_split 0 s = ([], s)"
| "fgets_split (Suc n) [] = ([], [])"
| "fgets_split (Suc n) (c # s) =
     (if c = CHR 0x0A then ([c], s) else case fgets_split n s of (l, r) \<Rightarrow> (c # l, r))"

definition fgets :: "nat \<Rightarrow> string \<Rightarrow> (string \<times> string) option" where
  "fgets n s = (if s = [] then None else case fgets_split (n - 1) s of (l, r) \<Rightarrow> Some (c_str l, r))"

lemma fgets_split_append: "fgets_split n s = (l, r) \<Longrightarrow> l @ r = s"
  by (induction n s arbitrary: l r rule: fgets_split.induct) (auto split: if_splits prod.splits)

lemma fgets_shorter:
  assumes "fgets n s = Some (l, r)" and "n > 1"
  shows "length r < length s"
proof -
  obtain c s' where s: "s = c # s'" using assms(1) by (cases s) (auto simp: fgets_def)
  obtain m where m: "n - 1 = Suc m" using assms(2) by (cases "n - 1") auto
  have "length r \<le> length s'" if "fgets_split m s' = (l', r)" for l'
    using fgets_split_append [OF that] by auto
  then show ?thesis using assms(1) s m by (auto simp: fgets_def split: if_splits prod.splits)
qed

section \<open>Options\<close>

text \<open>
  \<open>getopt\<close>: whether an option is in the option string and takes an argument, and the calls of
  \<open>getopt\<close> on the words of the command line (\<open>pend\<close>: the rest of the word being scanned). Operands
  are skipped; an option that is unknown or lacks its argument is reported as \<open>?\<close>.
\<close>

fun takes_arg :: "string \<Rightarrow> char \<Rightarrow> bool option" where
  "takes_arg [] c = None"
| "takes_arg (o1 # os) c =
     (if c = CHR '':'' then None
      else if o1 = c then Some (os \<noteq> [] \<and> hd os = CHR '':'')
      else takes_arg os c)"

fun getopt_all :: "string \<Rightarrow> string \<Rightarrow> string list \<Rightarrow> (char \<times> string option) list" where
  "getopt_all os [] [] = []"
| "getopt_all os [] (w # ws) =
     (if w = ''--'' then []
      else if length w \<ge> 2 \<and> hd w = CHR ''-'' then getopt_all os (tl w) ws
      else getopt_all os [] ws)"
| "getopt_all os (c # cs) ws =
     (case takes_arg os c of
        None \<Rightarrow> (CHR ''?'', None) # getopt_all os cs ws
      | Some False \<Rightarrow> (c, None) # getopt_all os cs ws
      | Some True \<Rightarrow>
          if cs \<noteq> [] then (c, Some cs) # getopt_all os [] ws
          else (case ws of
                  [] \<Rightarrow> [(CHR ''?'', None)]
                | w # ws \<Rightarrow> (c, Some w) # getopt_all os [] ws))"

text \<open>\<open>%lld\<close> read back.\<close>

lemma strtol10_dec_int:
  assumes "0 \<le> n" "n < 2 ^ 63" and "rest = [] \<or> \<not> is_digit (hd rest)"
  shows "strtol10 (dec_int n @ rest) = (n, rest)"
  using strtol10_dec [of "nat n" rest] assms by (simp add: dec_int_def nat_less_iff)

lemma strtol_erange_dec:
  assumes "n < 2 ^ 63" and "rest = [] \<or> \<not> is_digit (hd rest)"
  shows "\<not> strtol_erange (dec n @ rest)"
proof -
  obtain d ds where d: "dec n = d # ds" "is_digit d" using dec_cons by blast
  have "takeWhile is_digit (dec n @ rest) = dec n"
    using dec_digits [of n] assms(2) by (cases rest) (simp_all add: list_all_iff takeWhile_append)
  moreover have "dropWhile is_space (dec n @ rest) = dec n @ rest" "hd (dec n @ rest) = d"
    using d is_digit_facts by simp_all
  ultimately show ?thesis
    using d is_digit_facts [OF d(2)] assms(1) digits_val_dec [of n]
    by (simp add: strtol_erange_def Let_def del: append_Cons)
qed

lemma fgets_split_line:
  "CHR 0x0A \<notin> set l \<Longrightarrow> length l < n \<Longrightarrow> fgets_split n (l @ CHR 0x0A # r) = (l @ [CHR 0x0A], r)"
  by (induction l arbitrary: n; case_tac n) auto

end
