(* ===== verification/Logger.thy ===== *)
theory Logger
  imports CString
begin

text \<open>
  The synchronous part of the logging library 12_error_handling: environment variables, levels,
  initialisation, the routing and formatting of a message, shutdown. The environment, whether a
  file opens and whether a thread starts are parameters, as are the current time and the stack
  trace (text or a failure). Memory allocation succeeds. What a call writes is returned as a
  list of effects; messages for an asynchronous logger go to the queue of LoggerQueue.
\<close>

section \<open>Levels\<close>

definition LOG_ERROR :: int where "LOG_ERROR = 3"
definition LOG_WARNING :: int where "LOG_WARNING = 4"
definition LOG_INFO :: int where "LOG_INFO = 6"
definition LOG_DEBUG :: int where "LOG_DEBUG = 7"

lemmas level_defs = LOG_ERROR_def LOG_WARNING_def LOG_INFO_def LOG_DEBUG_def

definition is_valid_level :: "int \<Rightarrow> bool" where
  "is_valid_level level \<longleftrightarrow> level = LOG_ERROR \<or> level = LOG_WARNING \<or> level = LOG_INFO \<or> level = LOG_DEBUG"

definition level_from_string :: "string option \<Rightarrow> int" where
  "level_from_string str =
     (case str of
        None \<Rightarrow> LOG_ERROR
      | Some str \<Rightarrow>
        if str = ''error'' \<or> str = ''ERROR'' then LOG_ERROR
        else if str = ''warning'' \<or> str = ''WARNING'' then LOG_WARNING
        else if str = ''info'' \<or> str = ''INFO'' then LOG_INFO
        else if str = ''debug'' \<or> str = ''DEBUG'' then LOG_DEBUG
        else case strtol10 str of (val, endptr) \<Rightarrow>
          if endptr = [] \<and> is_valid_level (to_int32 val) then to_int32 val else LOG_ERROR)"

section \<open>State\<close>

datatype sink = Stderr | Stdout | File string

record logger =
  logging_enabled :: bool
  current_level :: int
  common_file :: "sink option"
  async_files :: "int \<rightharpoonup> string"   \<comment> \<open>the levels whose \<open>async_loggers[level].file\<close> is open\<close>
  initialized :: bool
  env_prefix :: string

definition logger_static :: logger where
  "logger_static = \<lparr>logging_enabled = False, current_level = LOG_ERROR, common_file = None,
     async_files = Map.empty, initialized = False, env_prefix = []\<rparr>"

text \<open>The surroundings: \<open>getenv\<close>, whether \<open>fopen\<close> and \<open>pthread_create\<close> succeed.\<close>

record world =
  getenv :: "string \<Rightarrow> string option"
  can_open :: "string \<Rightarrow> bool"
  can_start :: "int \<Rightarrow> bool"

datatype effect =
    Write sink string      \<comment> \<open>\<open>fwrite\<close> of the text to the stream\<close>
  | Enqueue int string     \<comment> \<open>\<open>async_logger_enqueue\<close>\<close>
  | StopWriter int         \<comment> \<open>\<open>destroy_async_logger\<close>\<close>
  | Close sink

section \<open>Environment and initialisation\<close>

definition logger_set_env_prefix :: "string option \<Rightarrow> logger \<Rightarrow> logger" where
  "logger_set_env_prefix prefix s =
     (if initialized s then s
      else s\<lparr>env_prefix := (case prefix of None \<Rightarrow> [] | Some p \<Rightarrow> take 63 p)\<rparr>)"

definition make_env_name :: "logger \<Rightarrow> string \<Rightarrow> string" where
  "make_env_name s suffix = take 255 (env_prefix s @ suffix)"

definition get_env_with_prefix :: "world \<Rightarrow> logger \<Rightarrow> string \<Rightarrow> string option" where
  "get_env_with_prefix w s suffix = getenv w (make_env_name s suffix)"

definition check_logging_enabled :: "world \<Rightarrow> logger \<Rightarrow> bool" where
  "check_logging_enabled w s =
     (case get_env_with_prefix w s ''LOGGING_ENABLED'' of
        None \<Rightarrow> False
      | Some env \<Rightarrow> strcasecmp_eq env ''1'' \<or> strcasecmp_eq env ''true'')"

text \<open>\<open>create_async_logger\<close>: on any failure the level has no open file.\<close>

definition create_async_logger :: "world \<Rightarrow> int \<Rightarrow> string \<Rightarrow> logger \<Rightarrow> logger" where
  "create_async_logger w level filename s =
     (if level < 0 \<or> level \<ge> 8 then s
      else if \<not> can_open w filename then s\<lparr>async_files := (async_files s)(level := None)\<rparr>
      else if \<not> can_start w level then s\<lparr>async_files := (async_files s)(level := None)\<rparr>
      else s\<lparr>async_files := (async_files s)(level \<mapsto> filename)\<rparr>)"

definition valid_levels :: "int list" where
  "valid_levels = [LOG_ERROR, LOG_WARNING, LOG_INFO, LOG_DEBUG]"

definition level_suffix :: "int \<Rightarrow> string" where
  "level_suffix lvl =
     (if lvl = LOG_ERROR then ''ERROR_LOG_FILE'' else if lvl = LOG_WARNING then ''WARNING_LOG_FILE''
      else if lvl = LOG_INFO then ''INFO_LOG_FILE'' else ''DEBUG_LOG_FILE'')"

definition init_level :: "world \<Rightarrow> logger \<Rightarrow> int \<Rightarrow> logger" where
  "init_level w s lvl =
     (case get_env_with_prefix w s (level_suffix lvl) of
        None \<Rightarrow> s
      | Some filename \<Rightarrow> if filename \<noteq> [] then create_async_logger w lvl filename s else s)"

definition init_common :: "world \<Rightarrow> logger \<Rightarrow> logger" where
  "init_common w s =
     (case get_env_with_prefix w s ''LOG_FILE'' of
        None \<Rightarrow> s\<lparr>common_file := Some Stderr\<rparr>
      | Some f \<Rightarrow>
        if f \<noteq> [] \<and> can_open w f then s\<lparr>common_file := Some (File f)\<rparr>
        else s\<lparr>common_file := Some Stderr\<rparr>)"

definition do_init :: "world \<Rightarrow> logger \<Rightarrow> logger" where
  "do_init w s =
     (if initialized s then s
      else
        let s = s\<lparr>logging_enabled := check_logging_enabled w s\<rparr>
        in if \<not> logging_enabled s then s\<lparr>initialized := True\<rparr>
           else
             let s = init_common w s;
                 s = (case get_env_with_prefix w s ''LOG_LEVEL'' of
                        None \<Rightarrow> s
                      | Some l \<Rightarrow> if l \<noteq> [] then s\<lparr>current_level := level_from_string (Some l)\<rparr> else s)
             in (foldl (init_level w) s valid_levels)\<lparr>initialized := True\<rparr>)"

definition logger_init :: "world \<Rightarrow> logger \<Rightarrow> logger" where
  "logger_init w s = (if \<not> initialized s then do_init w s else s)"

definition logger_set_level :: "int \<Rightarrow> logger \<Rightarrow> logger" where
  "logger_set_level level s =
     (if level = LOG_ERROR \<or> level = LOG_WARNING \<or> level = LOG_INFO \<or> level = LOG_DEBUG
      then s\<lparr>current_level := level\<rparr> else s)"

section \<open>Messages\<close>

definition level_str :: "int \<Rightarrow> string" where
  "level_str level =
     (if level = LOG_ERROR then ''ERROR'' else if level = LOG_WARNING then ''WARNING''
      else if level = LOG_INFO then ''INFO'' else if level = LOG_DEBUG then ''DEBUG'' else ''UNKNOWN'')"

definition format_log_message ::
  "string \<Rightarrow> int \<Rightarrow> string \<Rightarrow> nat \<Rightarrow> string \<Rightarrow> string \<Rightarrow> string" where
  "format_log_message time_buf level file line func user_msg =
     (if level = LOG_INFO then time_buf @ '' ['' @ level_str level @ ''] '' @ user_msg
      else time_buf @ '' ['' @ level_str level @ ''] '' @ file @ '':'' @ dec line @ '' '' @ func @
        ''(): '' @ user_msg)"

text \<open>
  The text of the stack trace; its heading is the parameter \<open>heading\<close> (it is not ASCII in the
  source), and \<open>None\<close> stands for a \<open>backtrace_symbols\<close> that failed.
\<close>

definition get_stack_trace_string :: "string \<Rightarrow> string list option \<Rightarrow> string option" where
  "get_stack_trace_string heading symbols =
     map_option (\<lambda>sy. heading @ concat (map (\<lambda>s. ''  '' @ s @ [CHR 0x0A]) sy)) symbols"

definition write_single_log_message ::
  "logger \<Rightarrow> string option \<Rightarrow> sink option \<Rightarrow> int \<Rightarrow> string \<Rightarrow> effect list" where
  "write_single_log_message s stack file level text_arg =
     (case file of
        None \<Rightarrow> []
      | Some f \<Rightarrow>
        if level = LOG_INFO \<and> common_file s = Some Stderr
        then [Write Stdout (text_arg @ (if CHR 0x0D \<notin> set text_arg then [CHR 0x0A] else []))]
        else if current_level s = LOG_DEBUG
        then (case stack of
                Some st \<Rightarrow> [Write f (text_arg @ st @ [CHR 0x0A])]
              | None \<Rightarrow> [Write f (text_arg @ [CHR 0x0A])])
        else [Write f (text_arg @ [CHR 0x0A])])"

definition logger_log ::
  "world \<Rightarrow> string \<Rightarrow> string option \<Rightarrow> int \<Rightarrow> string \<Rightarrow> nat \<Rightarrow> string \<Rightarrow> string \<Rightarrow> logger \<Rightarrow> logger \<times> effect list" where
  "logger_log w time_buf stack level file line func msg s =
     (let s = (if \<not> initialized s then do_init w s else s)
      in if \<not> logging_enabled s then (s, [])
         else if level > current_level s then (s, [])
         else
           let msg_text = format_log_message time_buf level file line func msg
           in if level \<ge> 0 \<and> level < 8 \<and> async_files s level \<noteq> None
              then (s, [Enqueue level msg_text])
              else (s, write_single_log_message s stack (common_file s) level msg_text))"

text \<open>What the writer thread of a level does with a message it took from its queue.\<close>

definition writer_effects :: "logger \<Rightarrow> string option \<Rightarrow> int \<Rightarrow> string \<Rightarrow> effect list" where
  "writer_effects s stack level text_arg =
     write_single_log_message s stack (map_option File (async_files s level)) level text_arg"

definition logger_shutdown :: "logger \<Rightarrow> logger \<times> effect list" where
  "logger_shutdown s =
     (if \<not> initialized s then (s, [])
      else
        let open_levels = filter (\<lambda>l. async_files s l \<noteq> None) valid_levels;
            closes = (case common_file s of None \<Rightarrow> [] | Some f \<Rightarrow> if f \<noteq> Stderr then [Close f] else [])
        in (s\<lparr>async_files := (\<lambda>l. if l \<in> set open_levels then None else async_files s l),
              common_file := (if closes \<noteq> [] then None else common_file s), initialized := False\<rparr>,
            map StopWriter open_levels @ closes))"

section \<open>Levels are always valid\<close>

lemma level_from_string_valid: "is_valid_level (level_from_string str)"
  by (auto simp: level_from_string_def is_valid_level_def level_defs split: option.split prod.split)

lemma level_names:
  "level_from_string (Some ''error'') = LOG_ERROR" "level_from_string (Some ''warning'') = LOG_WARNING"
  "level_from_string (Some ''info'') = LOG_INFO" "level_from_string (Some ''debug'') = LOG_DEBUG"
  "level_from_string (Some ''3'') = LOG_ERROR" "level_from_string (Some ''7'') = LOG_DEBUG"
  "level_from_string (Some ''5'') = LOG_ERROR" "level_from_string (Some ''-1'') = LOG_ERROR"
  by (simp_all add: level_from_string_def strtol10_def is_space_def is_digit_def digits_val_def
      clamp_long_def to_int32_def is_valid_level_def level_defs)

text \<open>The number is cut to \<open>int\<close> before it is checked: \<open>2 ^ 32 + 7\<close> is taken for \<open>DEBUG\<close>.\<close>

lemma level_wraps: "level_from_string (Some ''4294967303'') = LOG_DEBUG"
  by (simp add: level_from_string_def strtol10_def is_space_def is_digit_def digits_val_def
      clamp_long_def to_int32_def is_valid_level_def level_defs)

section \<open>What initialisation sets up\<close>

text \<open>The file of a level, the common stream and the level, read off the environment.\<close>

definition level_file :: "world \<Rightarrow> logger \<Rightarrow> int \<Rightarrow> string option" where
  "level_file w s l =
     (case get_env_with_prefix w s (level_suffix l) of
        None \<Rightarrow> None
      | Some f \<Rightarrow> if f \<noteq> [] \<and> can_open w f \<and> can_start w l then Some f else None)"

definition common_sink :: "world \<Rightarrow> logger \<Rightarrow> sink" where
  "common_sink w s =
     (case get_env_with_prefix w s ''LOG_FILE'' of
        None \<Rightarrow> Stderr
      | Some f \<Rightarrow> if f \<noteq> [] \<and> can_open w f then File f else Stderr)"

definition env_level :: "world \<Rightarrow> logger \<Rightarrow> int" where
  "env_level w s =
     (case get_env_with_prefix w s ''LOG_LEVEL'' of
        None \<Rightarrow> current_level s
      | Some l \<Rightarrow> if l \<noteq> [] then level_from_string (Some l) else current_level s)"

lemma create_async_logger_simps:
  "common_file (create_async_logger w l f s) = common_file s"
  "current_level (create_async_logger w l f s) = current_level s"
  "logging_enabled (create_async_logger w l f s) = logging_enabled s"
  "env_prefix (create_async_logger w l f s) = env_prefix s"
  "0 \<le> l \<Longrightarrow> l < 8 \<Longrightarrow> async_files (create_async_logger w l f s) =
     (async_files s)(l := (if can_open w f \<and> can_start w l then Some f else None))"
  by (simp_all add: create_async_logger_def)

lemma init_level_simps [simp]:
  "common_file (init_level w s l) = common_file s"
  "current_level (init_level w s l) = current_level s"
  "logging_enabled (init_level w s l) = logging_enabled s"
  "env_prefix (init_level w s l) = env_prefix s"
  by (simp_all add: init_level_def create_async_logger_simps split: option.split)

lemma env_prefix_only: "env_prefix s' = env_prefix s \<Longrightarrow>
    get_env_with_prefix w s' = get_env_with_prefix w s"
  by (simp add: get_env_with_prefix_def make_env_name_def fun_eq_iff)

lemma level_file_prefix: "env_prefix s' = env_prefix s \<Longrightarrow> level_file w s' = level_file w s"
  by (simp add: level_file_def env_prefix_only [of s' s] fun_eq_iff)

lemma init_level_files:
  assumes "0 \<le> l" "l < 8" "async_files s l = None"
  shows "async_files (init_level w s l) = (async_files s)(l := level_file w s l)"
  using assms
  by (auto simp: init_level_def level_file_def create_async_logger_simps fun_eq_iff split: option.split)

lemma init_levels_files:
  "distinct ls \<Longrightarrow> \<forall>l \<in> set ls. 0 \<le> l \<and> l < 8 \<and> async_files s l = None \<Longrightarrow>
   async_files (foldl (init_level w) s ls) =
     (\<lambda>l. if l \<in> set ls then level_file w s l else async_files s l) \<and>
   common_file (foldl (init_level w) s ls) = common_file s \<and>
   current_level (foldl (init_level w) s ls) = current_level s \<and>
   logging_enabled (foldl (init_level w) s ls) = logging_enabled s"
proof (induction ls arbitrary: s)
  case (Cons l ls)
  have f: "async_files (init_level w s l) = (async_files s)(l := level_file w s l)"
    using Cons.prems(2) by (intro init_level_files) auto
  have "\<forall>l' \<in> set ls. 0 \<le> l' \<and> l' < 8 \<and> async_files (init_level w s l) l' = None"
    using Cons.prems f by auto
  then show ?case
    using Cons.IH [of "init_level w s l"] Cons.prems(1) f
    by (auto simp: level_file_prefix [of "init_level w s l" s] fun_eq_iff)
qed simp

lemma set_valid_levels: "l \<in> set valid_levels \<longleftrightarrow> is_valid_level l"
  by (auto simp: valid_levels_def is_valid_level_def)

lemma valid_level_range: "is_valid_level l \<Longrightarrow> 0 \<le> l \<and> l < 8"
  by (auto simp: is_valid_level_def level_defs)

lemma distinct_valid_levels: "distinct valid_levels"
  by (simp add: valid_levels_def level_defs)

lemma init_common_simps [simp]:
  "common_file (init_common w s) = Some (common_sink w s)"
  "current_level (init_common w s) = current_level s"
  "logging_enabled (init_common w s) = logging_enabled s"
  "env_prefix (init_common w s) = env_prefix s"
  "async_files (init_common w s) = async_files s"
  by (simp_all add: init_common_def common_sink_def split: option.split)

lemma do_init_result:
  assumes "\<not> initialized s" and "async_files s = Map.empty"
  shows "initialized (do_init w s)" and "logging_enabled (do_init w s) = check_logging_enabled w s"
    and "check_logging_enabled w s \<Longrightarrow> common_file (do_init w s) = Some (common_sink w s)"
    and "check_logging_enabled w s \<Longrightarrow> current_level (do_init w s) = env_level w s"
    and "check_logging_enabled w s \<Longrightarrow>
      async_files (do_init w s) = (\<lambda>l. if is_valid_level l then level_file w s l else None)"
    and "\<not> check_logging_enabled w s \<Longrightarrow> do_init w s = s\<lparr>logging_enabled := False, initialized := True\<rparr>"
proof -
  let ?s0 = "s\<lparr>logging_enabled := check_logging_enabled w s\<rparr>"
  let ?s1 = "init_common w ?s0"
  define s2 where "s2 = (case get_env_with_prefix w ?s1 ''LOG_LEVEL'' of None \<Rightarrow> ?s1
      | Some l \<Rightarrow> if l \<noteq> [] then ?s1\<lparr>current_level := level_from_string (Some l)\<rparr> else ?s1)"
  define s3 where "s3 = foldl (init_level w) s2 valid_levels"
  have p1: "get_env_with_prefix w ?s1 = get_env_with_prefix w s" by (rule env_prefix_only) simp
  have p0: "common_sink w ?s0 = common_sink w s"
    by (simp add: common_sink_def env_prefix_only [of ?s0 s])
  have s2p: "async_files s2 = Map.empty" "common_file s2 = Some (common_sink w s)"
      "current_level s2 = env_level w s" "logging_enabled s2 = check_logging_enabled w s"
      "env_prefix s2 = env_prefix s"
    using assms(2) by (simp_all add: s2_def p0 p1 env_level_def split: option.split)
  have s3: "async_files s3 = (\<lambda>l. if l \<in> set valid_levels then level_file w s2 l else async_files s2 l)
      \<and> common_file s3 = common_file s2 \<and> current_level s3 = current_level s2 \<and>
      logging_enabled s3 = logging_enabled s2"
    unfolding s3_def using s2p(1) valid_level_range distinct_valid_levels
    by (intro init_levels_files) (auto simp: set_valid_levels)
  have init: "do_init w s = (if check_logging_enabled w s then s3\<lparr>initialized := True\<rparr>
      else ?s0\<lparr>initialized := True\<rparr>)"
    unfolding s3_def s2_def using assms(1) by (auto simp: do_init_def Let_def split: option.split)
  show "initialized (do_init w s)" unfolding init by simp
  show "logging_enabled (do_init w s) = check_logging_enabled w s"
    unfolding init using s3 s2p(4) by simp
  show "common_file (do_init w s) = Some (common_sink w s)" if "check_logging_enabled w s"
    unfolding init using s3 s2p(2) that by simp
  show "current_level (do_init w s) = env_level w s" if "check_logging_enabled w s"
    unfolding init using s3 s2p(3) that by simp
  show "async_files (do_init w s) = (\<lambda>l. if is_valid_level l then level_file w s l else None)"
    if "check_logging_enabled w s"
    unfolding init using s3 s2p(1) that level_file_prefix [OF s2p(5)]
    by (simp add: fun_eq_iff set_valid_levels)
  show "do_init w s = s\<lparr>logging_enabled := False, initialized := True\<rparr>" if "\<not> check_logging_enabled w s"
    unfolding init using that by simp
qed

section \<open>The library as a state machine\<close>

inductive api_step :: "world \<Rightarrow> logger \<Rightarrow> logger \<Rightarrow> bool" for w where
  set_prefix: "api_step w s (logger_set_env_prefix p s)"
| init: "api_step w s (logger_init w s)"
| set_level: "api_step w s (logger_set_level l s)"
| log: "api_step w s (fst (logger_log w now stack l file line func msg s))"
| shutdown: "api_step w s (fst (logger_shutdown s))"

definition logger_ok :: "logger \<Rightarrow> bool" where
  "logger_ok s \<longleftrightarrow> is_valid_level (current_level s) \<and>
     (\<forall>l. async_files s l \<noteq> None \<longrightarrow> is_valid_level l) \<and>
     (initialized s \<and> logging_enabled s \<longrightarrow> common_file s \<noteq> None) \<and>
     (\<not> initialized s \<longrightarrow> async_files s = Map.empty) \<and> length (env_prefix s) \<le> 63"

lemma env_level_valid: "is_valid_level (current_level s) \<Longrightarrow> is_valid_level (env_level w s)"
  by (auto simp: env_level_def level_from_string_valid split: option.split)

lemma do_init_prefix: "env_prefix (do_init w s) = env_prefix s"
proof -
  have "env_prefix (foldl (init_level w) s ls) = env_prefix s" for s ls
    by (induction ls arbitrary: s) simp_all
  then show ?thesis by (auto simp: do_init_def Let_def split: option.split)
qed

lemma do_init_ok: "logger_ok s \<Longrightarrow> \<not> initialized s \<Longrightarrow> logger_ok (do_init w s)"
proof -
  assume ok: "logger_ok s" and ni: "\<not> initialized s"
  then have e: "async_files s = Map.empty" by (simp add: logger_ok_def)
  note r = do_init_result [OF ni e, of w]
  show ?thesis
  proof (cases "check_logging_enabled w s")
    case True
    then show ?thesis using r ok env_level_valid [of s w]
      by (auto simp: logger_ok_def do_init_prefix split: if_splits)
  next
    case False
    then show ?thesis using r(6) ok by (auto simp: logger_ok_def)
  qed
qed

lemma logger_log_state:
  "fst (logger_log w now stack l file line func msg s) = (if \<not> initialized s then do_init w s else s)"
  by (simp add: logger_log_def Let_def)

lemma shutdown_ok: "logger_ok s \<Longrightarrow> logger_ok (fst (logger_shutdown s))"
proof -
  assume ok: "logger_ok s"
  have "async_files s l = None" if "\<not> is_valid_level l" for l
    using ok that by (auto simp: logger_ok_def)
  then have "(\<lambda>l. if l \<in> set (filter (\<lambda>l. async_files s l \<noteq> None) valid_levels) then None
      else async_files s l) = Map.empty"
    by (auto simp: fun_eq_iff set_valid_levels)
  then show ?thesis using ok by (simp add: logger_shutdown_def Let_def logger_ok_def)
qed

interpretation logger_api: invariant_system "\<lambda>s. s = logger_static" "api_step w" logger_ok for w
proof unfold_locales
  show "logger_ok s" if "s = logger_static" for s
    using that by (simp add: logger_ok_def logger_static_def is_valid_level_def)
  fix s t assume ok: "logger_ok s" and "api_step w s t"
  from this(2) show "logger_ok t"
  proof cases
    case (set_prefix p)
    then show ?thesis using ok
      by (auto simp: logger_set_env_prefix_def logger_ok_def split: option.split)
  next
    case init
    then show ?thesis using ok do_init_ok by (simp add: logger_init_def)
  next
    case (set_level l)
    then show ?thesis using ok by (auto simp: logger_set_level_def logger_ok_def is_valid_level_def)
  next
    case log
    then show ?thesis using ok do_init_ok by (simp add: logger_log_state)
  next
    case shutdown
    then show ?thesis using ok shutdown_ok by simp
  qed
qed

section \<open>What the library promises\<close>

text \<open>
  Property C32. Whatever sequence of API calls a program makes, the current level is always one
  of the four levels, only those levels have a writer, the prefix fits its buffer, an enabled
  and initialised library always has a stream to fall back to, and after a shutdown no writer
  is left.
\<close>

theorem logger_reachable_ok:
  assumes "reach (\<lambda>s. s = logger_static) (api_step w) s"
  shows "is_valid_level (current_level s) \<and>
    (\<forall>l. async_files s l \<noteq> None \<longrightarrow> is_valid_level l \<and> initialized s) \<and>
    (initialized s \<and> logging_enabled s \<longrightarrow> common_file s \<noteq> None) \<and> length (env_prefix s) \<le> 63"
proof -
  have "logger_ok s" using logger_api.reach_inv [OF assms] .
  then show ?thesis by (auto simp: logger_ok_def)
qed

text \<open>An environment: logging on, level 6, a file for errors and one for information.\<close>

definition demo_world :: world where
  "demo_world = \<lparr>getenv = [''LOGGING_ENABLED'' \<mapsto> ''True'', ''LOG_LEVEL'' \<mapsto> ''6'',
     ''ERROR_LOG_FILE'' \<mapsto> ''err.log'', ''INFO_LOG_FILE'' \<mapsto> ''info.log''],
     can_open = (\<lambda>_. True), can_start = (\<lambda>_. True)\<rparr>"

lemma logger_reachable_ok_witness:
  "is_valid_level (current_level (logger_init demo_world logger_static))"
proof -
  have "reach (\<lambda>s. s = logger_static) (api_step demo_world) (logger_init demo_world logger_static)"
    by (rule reach_step [where s = logger_static]) (simp_all add: reach_init api_step.init)
  then show ?thesis using logger_reachable_ok by blast
qed



section \<open>Where it does something else\<close>

text \<open>
  With \<open>INFO_LOG_FILE\<close> set and \<open>LOG_FILE\<close> not, the writer thread of level INFO writes to stdout:
  the test for the common stream does not look at the file it was given. Nothing ever reaches
  the file of the level.
\<close>

lemma info_log_file_bypassed:
  "common_file s = Some Stderr \<Longrightarrow> async_files s LOG_INFO = Some f \<Longrightarrow>
   \<exists>t. writer_effects s stack LOG_INFO msg = [Write Stdout t]"
  by (simp add: writer_effects_def write_single_log_message_def)

end
