(* ===== verification/LoggerQueue.thy ===== *)
theory LoggerQueue
  imports Prelude
begin

text \<open>
  The asynchronous logger of 12_error_handling/logger.c: a linked queue of messages on the heap,
  the producers' \<open>async_logger_enqueue\<close>, the writer thread and its shutdown. Everything between
  \<open>pthread_mutex_lock\<close> and \<open>pthread_mutex_unlock\<close> is one atomic step; the drain loop, which
  holds the mutex throughout, is one step per message during which no other thread can enter.
  A dereference of an address that is not allocated is the fault \<open>UseAfterFree\<close>.
\<close>

section \<open>State\<close>

record log_message =
  lm_text :: string
  lm_next :: "nat option"

text \<open>Where the writer thread is; \<open>Writing a\<close> is between taking message \<open>a\<close> and freeing it.\<close>

datatype wpc = Looping | Waiting | Writing nat | Draining | Finished

record async_logger =
  heap :: "nat \<rightharpoonup> log_message"
  queue_head :: "nat option"
  queue_tail :: "nat option"
  running :: bool
  wpc :: wpc
  written :: "string list"    \<comment> \<open>what \<open>write_single_log_message\<close> was called with\<close>

definition create_async_logger_state :: async_logger where
  "create_async_logger_state = \<lparr>heap = Map.empty, queue_head = None, queue_tail = None,
     running = True, wpc = Looping, written = []\<rparr>"

section \<open>Operations\<close>

text \<open>\<open>pthread_cond_signal\<close>: a waiting writer leaves \<open>pthread_cond_wait\<close>.\<close>

definition cond_signal :: "async_logger \<Rightarrow> async_logger" where
  "cond_signal s = (if wpc s = Waiting then s\<lparr>wpc := Looping\<rparr> else s)"

text \<open>\<open>async_logger_enqueue\<close>, with the result of \<open>malloc\<close> (\<open>None\<close> when it fails).\<close>

definition async_logger_enqueue :: "nat option \<Rightarrow> string \<Rightarrow> async_logger \<Rightarrow> async_logger cres" where
  "async_logger_enqueue m msg_text s =
     (case m of
        None \<Rightarrow> Inr s
      | Some msg \<Rightarrow>
        let s = s\<lparr>heap := (heap s)(msg \<mapsto> \<lparr>lm_text = msg_text, lm_next = None\<rparr>)\<rparr>
        in case queue_tail s of
             Some t \<Rightarrow>
               (case heap s t of
                  None \<Rightarrow> Inl UseAfterFree
                | Some c \<Rightarrow> Inr (cond_signal (s\<lparr>heap := (heap s)(t \<mapsto> c\<lparr>lm_next := Some msg\<rparr>),
                                              queue_tail := Some msg\<rparr>)))
           | None \<Rightarrow> Inr (cond_signal (s\<lparr>queue_head := Some msg, queue_tail := Some msg\<rparr>)))"

text \<open>
  One step of \<open>async_writer_thread\<close>; \<open>None\<close> when it waits for a signal or has returned.
\<close>

definition writer_step :: "async_logger \<Rightarrow> async_logger cres option" where
  "writer_step s =
     (case wpc s of
        Looping \<Rightarrow>
          if running s then
            (case queue_head s of
               None \<Rightarrow> Some (Inr (s\<lparr>wpc := Waiting\<rparr>))
             | Some msg \<Rightarrow>
               (case heap s msg of
                  None \<Rightarrow> Some (Inl UseAfterFree)
                | Some c \<Rightarrow>
                  Some (Inr (s\<lparr>queue_head := lm_next c,
                              queue_tail := (if lm_next c = None then None else queue_tail s),
                              wpc := Writing msg\<rparr>))))
          else Some (Inr (s\<lparr>wpc := Draining\<rparr>))
      | Waiting \<Rightarrow> None
      | Writing msg \<Rightarrow>
          (case heap s msg of
             None \<Rightarrow> Some (Inl UseAfterFree)
           | Some c \<Rightarrow> Some (Inr (s\<lparr>written := written s @ [lm_text c],
                                    heap := (heap s)(msg := None), wpc := Looping\<rparr>)))
      | Draining \<Rightarrow>
          (case queue_head s of
             None \<Rightarrow> Some (Inr (s\<lparr>wpc := Finished\<rparr>))
           | Some msg \<Rightarrow>
             (case heap s msg of
                None \<Rightarrow> Some (Inl UseAfterFree)
              | Some c \<Rightarrow> Some (Inr (s\<lparr>queue_head := lm_next c, written := written s @ [lm_text c],
                                       heap := (heap s)(msg := None)\<rparr>))))
      | Finished \<Rightarrow> None)"

text \<open>The part of \<open>destroy_async_logger\<close> before it joins the thread.\<close>

definition stop_writer :: "async_logger \<Rightarrow> async_logger" where
  "stop_writer s = cond_signal (s\<lparr>running := False\<rparr>)"

text \<open>
  The rest of it: the writer runs until it returns (or, in the model, for \<open>fuel\<close> steps; the
  number of queued messages and two more are enough, \<open>shutdown_delivers_all\<close>).
\<close>

fun run_writer :: "nat \<Rightarrow> async_logger \<Rightarrow> async_logger cres" where
  "run_writer 0 s = Inr s"
| "run_writer (Suc fuel) s =
     (case writer_step s of
        None \<Rightarrow> Inr s
      | Some (Inl f) \<Rightarrow> Inl f
      | Some (Inr s) \<Rightarrow> run_writer fuel s)"

definition destroy_async_logger :: "nat \<Rightarrow> async_logger \<Rightarrow> async_logger cres" where
  "destroy_async_logger fuel s = run_writer fuel (stop_writer s)"

text \<open>
  The system: the logger together with the texts handed to \<open>async_logger_enqueue\<close> for which
  \<open>malloc\<close> succeeded. No thread enters while the writer drains; clients do not log after the
  writer has finished (what happens otherwise is \<open>enqueue_after_drain\<close>). \<open>pthread_cond_wait\<close> may
  also return spuriously.
\<close>

inductive log_step :: "async_logger \<times> string list \<Rightarrow> async_logger \<times> string list \<Rightarrow> bool" where
  enqueue: "wpc s \<notin> {Draining, Finished} \<Longrightarrow> heap s a = None \<Longrightarrow>
    async_logger_enqueue (Some a) t s = Inr s' \<Longrightarrow> log_step (s, enq) (s', enq @ [t])"
| enqueue_no_memory: "wpc s \<notin> {Draining, Finished} \<Longrightarrow>
    async_logger_enqueue None t s = Inr s' \<Longrightarrow> log_step (s, enq) (s', enq)"
| writer: "writer_step s = Some (Inr s') \<Longrightarrow> log_step (s, enq) (s', enq)"
| spurious: "wpc s = Waiting \<Longrightarrow> log_step (s, enq) (s\<lparr>wpc := Looping\<rparr>, enq)"
| stop: "wpc s \<notin> {Draining} \<Longrightarrow> log_step (s, enq) (stop_writer s, enq)"

inductive_cases log_stepE: "log_step s t"

section \<open>The queue on the heap\<close>

primrec chain :: "(nat \<rightharpoonup> log_message) \<Rightarrow> nat option \<Rightarrow> nat list \<Rightarrow> bool" where
  "chain h p [] \<longleftrightarrow> p = None"
| "chain h p (a # as) \<longleftrightarrow> p = Some a \<and> (\<exists>c. h a = Some c \<and> chain h (lm_next c) as)"

lemma chain_None [simp]: "chain h None as \<longleftrightarrow> as = []"
  by (cases as) auto

lemma chain_Some: "chain h (Some a) as \<longleftrightarrow>
    (\<exists>bs c. as = a # bs \<and> h a = Some c \<and> chain h (lm_next c) bs)"
  by (cases as) auto

lemma chain_dom: "chain h p as \<Longrightarrow> set as \<subseteq> dom h"
  by (induction as arbitrary: p) auto

lemma chain_upd: "a \<notin> set as \<Longrightarrow> chain (h(a := v)) p as \<longleftrightarrow> chain h p as"
  by (induction as arbitrary: p) auto

text \<open>Appending a cell behind the last one.\<close>

lemma chain_append:
  assumes "chain h p as" "as \<noteq> []" "distinct as" "a \<notin> set as" "h (last as) = Some c"
    and "h a = Some n" "lm_next n = None"
  shows "chain (h(last as \<mapsto> c\<lparr>lm_next := Some a\<rparr>)) p (as @ [a])"
  using assms(1-5)
proof (induction as arbitrary: p)
  case (Cons b as)
  show ?case
  proof (cases "as = []")
    case True
    then show ?thesis using Cons.prems assms(6,7) by auto
  next
    case False
    then obtain d where d: "p = Some b" "h b = Some d" "chain h (lm_next d) as"
      using Cons.prems(1) by auto
    have "b \<noteq> last as" using Cons.prems(3) False by auto
    then show ?thesis
      using Cons.IH [OF d(3) False] Cons.prems d False by auto
  qed
qed simp

definition texts :: "(nat \<rightharpoonup> log_message) \<Rightarrow> nat list \<Rightarrow> string list" where
  "texts h as = map (\<lambda>a. lm_text (the (h a))) as"

lemma texts_simps [simp]: "texts h [] = []" "texts h (a # as) = lm_text (the (h a)) # texts h as"
    "texts h (as @ bs) = texts h as @ texts h bs"
  by (simp_all add: texts_def)

lemma texts_upd: "a \<notin> set as \<Longrightarrow> texts (h(a := v)) as = texts h as"
  by (induction as) auto

lemma texts_relink: "h t = Some c \<Longrightarrow> texts (h(t \<mapsto> c\<lparr>lm_next := n\<rparr>)) as = texts h as"
  by (induction as) auto

text \<open>The message the writer has taken and not yet freed.\<close>

definition in_flight :: "async_logger \<Rightarrow> nat list" where
  "in_flight s = (case wpc s of Writing a \<Rightarrow> [a] | _ \<Rightarrow> [])"

definition queue_ok :: "async_logger \<Rightarrow> nat list \<Rightarrow> bool" where
  "queue_ok s as \<longleftrightarrow> chain (heap s) (queue_head s) as \<and> distinct (in_flight s @ as) \<and>
     dom (heap s) = set (in_flight s @ as) \<and>
     (wpc s \<notin> {Draining, Finished} \<longrightarrow> queue_tail s = (if as = [] then None else Some (last as))) \<and>
     (wpc s = Waiting \<longrightarrow> as = [] \<and> running s) \<and>
     (wpc s = Finished \<longrightarrow> as = []) \<and> (wpc s \<in> {Draining, Finished} \<longrightarrow> \<not> running s)"

definition log_inv :: "async_logger \<times> string list \<Rightarrow> bool" where
  "log_inv se \<longleftrightarrow> (\<exists>as. queue_ok (fst se) as \<and>
     snd se = written (fst se) @ texts (heap (fst se)) (in_flight (fst se) @ as))"

lemma log_invI:
  "queue_ok s as \<Longrightarrow> enq = written s @ texts (heap s) (in_flight s @ as) \<Longrightarrow> log_inv (s, enq)"
  by (auto simp: log_inv_def)

lemma log_invE:
  assumes "log_inv (s, enq)"
  obtains as where "queue_ok s as" "enq = written s @ texts (heap s) (in_flight s @ as)"
  using assms by (auto simp: log_inv_def)

section \<open>Every step keeps the queue in order\<close>

lemma signal_simps [simp]:
  "heap (cond_signal s) = heap s" "queue_head (cond_signal s) = queue_head s"
  "queue_tail (cond_signal s) = queue_tail s" "running (cond_signal s) = running s"
  "written (cond_signal s) = written s" "in_flight (cond_signal s) = in_flight s"
  "wpc (cond_signal s) \<noteq> Waiting" "wpc (cond_signal s) = Draining \<longleftrightarrow> wpc s = Draining"
  "wpc (cond_signal s) = Finished \<longleftrightarrow> wpc s = Finished"
  by (auto simp: cond_signal_def in_flight_def)

lemma in_flight_upd [simp]: "in_flight (s\<lparr>heap := h\<rparr>) = in_flight s"
    "in_flight (s\<lparr>queue_head := p\<rparr>) = in_flight s" "in_flight (s\<lparr>queue_tail := p\<rparr>) = in_flight s"
    "in_flight (s\<lparr>running := b\<rparr>) = in_flight s"
  by (simp_all add: in_flight_def)

lemma enqueue_keeps:
  assumes inv: "log_inv (s, enq)" and pc: "wpc s \<notin> {Draining, Finished}" and a: "heap s a = None"
  shows "\<exists>s'. async_logger_enqueue (Some a) t s = Inr s' \<and> log_inv (s', enq @ [t])"
proof -
  obtain as where q: "queue_ok s as" and enq: "enq = written s @ texts (heap s) (in_flight s @ as)"
    using inv by (rule log_invE)
  let ?n = "\<lparr>lm_text = t, lm_next = None\<rparr>"
  have fresh: "a \<notin> set (in_flight s @ as)" using q a by (auto simp: queue_ok_def)
  have tx: "texts ((heap s)(a \<mapsto> ?n)) (in_flight s @ as) = texts (heap s) (in_flight s @ as)"
    using fresh by (intro texts_upd) simp
  show ?thesis
  proof (cases "as = []")
    case True
    let ?s = "cond_signal (s\<lparr>heap := (heap s)(a \<mapsto> ?n), queue_head := Some a, queue_tail := Some a\<rparr>)"
    have "async_logger_enqueue (Some a) t s = Inr ?s"
      using True pc q by (simp add: async_logger_enqueue_def queue_ok_def)
    moreover have "queue_ok ?s [a]"
      using True pc q fresh by (auto simp: queue_ok_def)
    moreover have "enq @ [t] = written ?s @ texts (heap ?s) (in_flight ?s @ [a])"
      using True enq tx by simp
    ultimately show ?thesis using log_invI by blast
  next
    case False
    have last: "last as \<in> set as" "a \<noteq> last as" using False fresh by (auto dest: last_in_set)
    then obtain c where c: "heap s (last as) = Some c" using q by (auto simp: queue_ok_def)
    let ?h = "((heap s)(a \<mapsto> ?n))(last as \<mapsto> c\<lparr>lm_next := Some a\<rparr>)"
    let ?s = "cond_signal (s\<lparr>heap := ?h, queue_tail := Some a\<rparr>)"
    have "async_logger_enqueue (Some a) t s = Inr ?s"
      using False pc q c last(2) by (auto simp: async_logger_enqueue_def queue_ok_def)
    moreover have "chain ?h (queue_head s) (as @ [a])"
      using q fresh False c last(2)
      by (intro chain_append) (auto simp: queue_ok_def chain_upd)
    then have "queue_ok ?s (as @ [a])"
      using pc q fresh last by (auto simp: queue_ok_def)
    moreover have "texts ?h (in_flight s @ as @ [a]) = texts (heap s) (in_flight s @ as) @ [t]"
      using tx c last(2) by (subst texts_relink) auto
    then have "enq @ [t] = written ?s @ texts (heap ?s) (in_flight ?s @ as @ [a])"
      using enq by simp
    ultimately show ?thesis using log_invI by blast
  qed
qed

lemma stop_keeps: "log_inv (s, enq) \<Longrightarrow> wpc s \<noteq> Draining \<Longrightarrow> log_inv (stop_writer s, enq)"
proof -
  assume inv: "log_inv (s, enq)" and pc: "wpc s \<noteq> Draining"
  obtain as where q: "queue_ok s as" and enq: "enq = written s @ texts (heap s) (in_flight s @ as)"
    using inv by (rule log_invE)
  have "queue_ok (stop_writer s) as"
    using q pc by (simp add: queue_ok_def stop_writer_def)
  moreover have "enq = written (stop_writer s) @ texts (heap (stop_writer s)) (in_flight (stop_writer s) @ as)"
    using enq by (simp add: stop_writer_def)
  ultimately show ?thesis by (rule log_invI)
qed

lemma spurious_keeps: "log_inv (s, enq) \<Longrightarrow> wpc s = Waiting \<Longrightarrow> log_inv (s\<lparr>wpc := Looping\<rparr>, enq)"
  by (auto simp: log_inv_def queue_ok_def in_flight_def)

lemma writer_keeps:
  assumes inv: "log_inv (s, enq)" and pc: "wpc s \<notin> {Waiting, Finished}"
  shows "\<exists>s'. writer_step s = Some (Inr s') \<and> log_inv (s', enq)"
proof -
  obtain as where q: "queue_ok s as" and enq: "enq = written s @ texts (heap s) (in_flight s @ as)"
    using inv by (rule log_invE)
  show ?thesis
  proof (cases "wpc s")
    case Looping
    show ?thesis
    proof (cases "running s")
      case False
      have "queue_ok (s\<lparr>wpc := Draining\<rparr>) as"
        using q Looping False by (auto simp: queue_ok_def in_flight_def)
      then show ?thesis using False Looping enq
        by (auto simp: writer_step_def in_flight_def intro!: log_invI)
    next
      case True
      show ?thesis
      proof (cases as)
        case Nil
        have "queue_ok (s\<lparr>wpc := Waiting\<rparr>) []"
          using q Looping True Nil by (auto simp: queue_ok_def in_flight_def)
        moreover have "queue_head s = None" using q Nil by (simp add: queue_ok_def)
        ultimately show ?thesis using True Looping enq Nil
          by (auto simp: writer_step_def in_flight_def intro!: log_invI)
      next
        case (Cons a bs)
        then obtain c where c: "queue_head s = Some a" "heap s a = Some c" "chain (heap s) (lm_next c) bs"
          using q by (auto simp: queue_ok_def)
        have nx: "lm_next c = None \<longleftrightarrow> bs = []" using c(3) by (cases bs) auto
        let ?s = "s\<lparr>queue_head := lm_next c, wpc := Writing a,
            queue_tail := (if lm_next c = None then None else queue_tail s)\<rparr>"
        have "queue_ok ?s bs"
          using q Looping True Cons c nx by (auto simp: queue_ok_def in_flight_def)
        moreover have "writer_step s = Some (Inr ?s)"
          using True Looping c by (simp add: writer_step_def)
        moreover have "enq = written ?s @ texts (heap ?s) (in_flight ?s @ bs)"
          using enq Looping Cons by (simp add: in_flight_def)
        ultimately show ?thesis using log_invI by blast
      qed
    qed
  next
    case (Writing a)
    then obtain c where c: "heap s a = Some c" using q by (auto simp: queue_ok_def in_flight_def)
    have a: "a \<notin> set as" using q Writing by (simp add: queue_ok_def in_flight_def)
    let ?s = "s\<lparr>written := written s @ [lm_text c], heap := (heap s)(a := None), wpc := Looping\<rparr>"
    have "queue_ok ?s as"
      using q Writing c a by (auto simp: queue_ok_def in_flight_def chain_upd)
    moreover have "writer_step s = Some (Inr ?s)" using Writing c by (simp add: writer_step_def)
    moreover have "enq = written ?s @ texts (heap ?s) (in_flight ?s @ as)"
      using enq Writing a c by (simp add: in_flight_def texts_upd)
    ultimately show ?thesis using log_invI by blast
  next
    case Draining
    show ?thesis
    proof (cases as)
      case Nil
      have "queue_ok (s\<lparr>wpc := Finished\<rparr>) []"
        using q Draining Nil by (auto simp: queue_ok_def in_flight_def)
      moreover have "queue_head s = None" using q Nil by (simp add: queue_ok_def)
      ultimately show ?thesis using Draining enq Nil
        by (auto simp: writer_step_def in_flight_def intro!: log_invI)
    next
      case (Cons a bs)
      then obtain c where c: "queue_head s = Some a" "heap s a = Some c" "chain (heap s) (lm_next c) bs"
        using q by (auto simp: queue_ok_def)
      have a: "a \<notin> set bs" using q Cons by (simp add: queue_ok_def)
      let ?s = "s\<lparr>queue_head := lm_next c, written := written s @ [lm_text c], heap := (heap s)(a := None)\<rparr>"
      have "queue_ok ?s bs"
        using q Draining Cons c a by (auto simp: queue_ok_def in_flight_def chain_upd)
      moreover have "writer_step s = Some (Inr ?s)" using Draining c by (simp add: writer_step_def)
      moreover have "enq = written ?s @ texts (heap ?s) (in_flight ?s @ bs)"
        using enq Draining Cons a c by (simp add: in_flight_def texts_upd)
      ultimately show ?thesis using log_invI by blast
    qed
  qed (use pc in auto)
qed

interpretation log_queue: invariant_system
  "\<lambda>se. se = (create_async_logger_state, [])" log_step log_inv
proof unfold_locales
  show "log_inv s" if "s = (create_async_logger_state, [])" for s
    using that by (auto simp: create_async_logger_state_def queue_ok_def in_flight_def intro!: log_invI)
  fix s t assume "log_inv s" and "log_step s t"
  from this(2,1) show "log_inv t"
  proof (cases rule: log_step.cases)
    case (enqueue s a t s' enq)
    then show ?thesis using enqueue_keeps [of s enq a t] \<open>log_inv _\<close> by auto
  next
    case (enqueue_no_memory s t s' enq)
    then show ?thesis using \<open>log_inv _\<close> by (auto simp: async_logger_enqueue_def)
  next
    case (writer s s' enq)
    then have "wpc s \<notin> {Waiting, Finished}" by (auto simp: writer_step_def)
    then show ?thesis using writer_keeps [of s enq] writer \<open>log_inv _\<close> by auto
  next
    case (spurious s enq)
    then show ?thesis using spurious_keeps \<open>log_inv _\<close> by auto
  next
    case (stop s enq)
    then show ?thesis using stop_keeps \<open>log_inv _\<close> by auto
  qed
qed

section \<open>The writer returns after it was stopped\<close>

definition writer_left :: "async_logger \<Rightarrow> nat" where
  "writer_left s =
     (case wpc s of Finished \<Rightarrow> 0 | Draining \<Rightarrow> 1 + card (dom (heap s)) | _ \<Rightarrow> 2 + card (dom (heap s)))"

lemma card_dom_free: "finite (dom h) \<Longrightarrow> h a = Some c \<Longrightarrow> card (dom (h(a := None))) < card (dom h)"
  by (auto simp: dom_def intro!: psubset_card_mono)

lemma writer_left_decreases:
  assumes "writer_step s = Some (Inr s')" "\<not> running s" "finite (dom (heap s))"
  shows "writer_left s' < writer_left s"
  using assms card_dom_free [OF assms(3)]
  by (auto simp: writer_step_def writer_left_def split: wpc.splits option.splits if_splits)

lemma writer_keeps_running: "writer_step s = Some (Inr s') \<Longrightarrow> running s' = running s"
  by (auto simp: writer_step_def split: wpc.splits option.splits if_splits)

lemma log_inv_finite: "log_inv (s, enq) \<Longrightarrow> finite (dom (heap s))"
  by (auto simp: log_inv_def queue_ok_def)

lemma run_writer_finishes:
  "log_inv (s, enq) \<Longrightarrow> \<not> running s \<Longrightarrow> writer_left s \<le> fuel \<Longrightarrow>
   \<exists>s'. run_writer fuel s = Inr s' \<and> log_inv (s', enq) \<and> wpc s' = Finished"
proof (induction fuel arbitrary: s)
  case 0
  then show ?case by (auto simp: writer_left_def split: wpc.splits)
next
  case (Suc fuel)
  show ?case
  proof (cases "wpc s = Finished")
    case True
    then show ?thesis using Suc.prems(1) by (auto simp: writer_step_def)
  next
    case False
    have "wpc s \<noteq> Waiting" using Suc.prems(1,2) by (auto simp: log_inv_def queue_ok_def)
    then obtain s' where s': "writer_step s = Some (Inr s')" "log_inv (s', enq)"
      using writer_keeps [OF Suc.prems(1)] False by blast
    have "writer_left s' \<le> fuel"
      using writer_left_decreases [OF s'(1) Suc.prems(2) log_inv_finite [OF Suc.prems(1)]] Suc.prems(3)
      by simp
    then show ?thesis
      using Suc.IH [OF s'(2)] writer_keeps_running [OF s'(1)] Suc.prems(2) s'(1) by simp
  qed
qed

lemma finished_all:
  "log_inv (s, enq) \<Longrightarrow> wpc s = Finished \<Longrightarrow> written s = enq \<and> heap s = Map.empty"
  by (auto simp: log_inv_def queue_ok_def in_flight_def)

section \<open>What the asynchronous logger promises\<close>


lemma one_message_reachable:
  "reach (\<lambda>se. se = (create_async_logger_state, [])) log_step
     (\<lparr>heap = [0 \<mapsto> \<lparr>lm_text = ''a'', lm_next = None\<rparr>], queue_head = Some 0, queue_tail = Some 0,
       running = True, wpc = Looping, written = []\<rparr>, [''a''])"
proof -
  have "log_step (create_async_logger_state, [])
      (\<lparr>heap = [0 \<mapsto> \<lparr>lm_text = ''a'', lm_next = None\<rparr>], queue_head = Some 0, queue_tail = Some 0,
       running = True, wpc = Looping, written = []\<rparr>, [] @ [''a''])"
    by (rule log_step.enqueue [where a = 0])
      (simp_all add: create_async_logger_state_def async_logger_enqueue_def cond_signal_def)
  then show ?thesis by (auto intro: reach_step reach_init)
qed


lemma destroy_delivers:
  assumes "log_inv (s, enq)" "wpc s \<noteq> Draining" "card (dom (heap s)) + 2 \<le> fuel"
  shows "\<exists>s'. destroy_async_logger fuel s = Inr s' \<and> wpc s' = Finished \<and> written s' = enq \<and>
    heap s' = Map.empty"
proof -
  have inv: "log_inv (stop_writer s, enq)" using assms(1,2) by (rule stop_keeps)
  have "writer_left (stop_writer s) \<le> card (dom (heap s)) + 2"
    by (simp add: writer_left_def stop_writer_def split: wpc.split)
  then obtain s' where "run_writer fuel (stop_writer s) = Inr s'" "log_inv (s', enq)" "wpc s' = Finished"
    using run_writer_finishes [OF inv, of fuel] assms(3) by (auto simp: stop_writer_def)
  then show ?thesis using finished_all by (auto simp: destroy_async_logger_def)
qed

text \<open>
  Property C7. Shutting down delivers everything: from every reachable state whose writer is not
  already draining, stopping the writer and running it takes at most as many steps as there are
  messages on the heap and two more; then it has returned, and exactly the enqueued messages
  were written, in order, and freed.
\<close>

theorem shutdown_delivers_all:
  assumes "reach (\<lambda>se. se = (create_async_logger_state, [])) log_step (s, enq)"
    and "wpc s \<noteq> Draining" and "card (dom (heap s)) + 2 \<le> fuel"
  shows "\<exists>s'. destroy_async_logger fuel s = Inr s' \<and> wpc s' = Finished \<and> written s' = enq \<and>
    heap s' = Map.empty"
  using log_queue.reach_inv [OF assms(1)] assms(2,3) by (rule destroy_delivers)

lemma shutdown_delivers_all_witness:
  "\<exists>s'. destroy_async_logger 3
     \<lparr>heap = [0 \<mapsto> \<lparr>lm_text = ''a'', lm_next = None\<rparr>], queue_head = Some 0, queue_tail = Some 0,
       running = True, wpc = Looping, written = []\<rparr> = Inr s' \<and> written s' = [''a'']"
  using shutdown_delivers_all [OF one_message_reachable, of 3] by auto

text \<open>
  The drain loop advances \<open>queue_head\<close> only: after it has freed a message, \<open>queue_tail\<close> still
  points to it, and a message logged by a thread that had already seen the open file writes
  through the freed pointer.
\<close>

lemma enqueue_after_drain:
  "bindE (async_logger_enqueue (Some 0) ''a'' create_async_logger_state) (\<lambda>s.
   bindE (destroy_async_logger 4 s) (\<lambda>s.
   async_logger_enqueue (Some 1) ''b'' s)) = Inl UseAfterFree"
  by (simp add: create_async_logger_state_def async_logger_enqueue_def cond_signal_def
      destroy_async_logger_def stop_writer_def writer_step_def eval_nat_numeral)

end
