(* ===== verification/SampleApp.thy ===== *)
theory SampleApp
  imports Logger LoggerQueue
begin

text \<open>
  The client 12_error_handling/sample_app.c on the logging library: four threads that log at once, a
  change of the level, the shutdown. The system runs the threads, the routing of Logger and one
  queue and writer of LoggerQueue per level, in every order; a call of the library changes what the
  threads share in one place, under a mutex, so a call is one step. The time, the stack traces
  and what the library leaves in \<open>errno\<close> are parameters; memory suffices.
\<close>

section \<open>The texts\<close>

text \<open>What is not ASCII is given by its bytes in UTF-8.\<close>

definition u :: "nat list \<Rightarrow> string" where
  "u bs = map char_of bs"

definition iteration_txt :: string where
  "iteration_txt =
     u [208, 184, 209, 130, 208, 181, 209, 128, 208, 176, 209, 134, 208, 184, 209, 143]"

definition message_txt :: string where
  "message_txt =
     u [209, 129, 208, 190, 208, 190, 208, 177, 209, 137, 208, 181, 208, 189, 208, 184,
       208, 181]"

definition warned_txt :: string where
  "warned_txt =
     u [208, 191, 209, 128, 208, 181, 208, 180, 209, 131, 208, 191, 209, 128, 208, 181,
       208, 182, 208, 180, 208, 181, 208, 189, 208, 184, 208, 181]"

definition simulated_txt :: string where
  "simulated_txt =
     u [209, 129, 208, 184, 208, 188, 209, 131, 208, 187, 209, 143, 209, 134, 208, 184,
       209, 143, 32, 208, 190, 209, 136, 208, 184, 208, 177, 208, 186, 208, 184]"

definition error_at_txt :: string where
  "error_at_txt =
     u [208, 158, 209, 136, 208, 184, 208, 177, 208, 186, 208, 176, 32, 208, 189, 208, 176,
       32, 209, 131, 209, 128, 208, 190, 208, 178, 208, 189, 208, 181]"

definition depth_is_txt :: string where
  "depth_is_txt =
     u [208, 163, 209, 128, 208, 190, 208, 178, 208, 181, 208, 189, 209, 140, 32, 209, 128,
       208, 181, 208, 186, 209, 131, 209, 128, 209, 129, 208, 184, 208, 184]"

definition started_txt :: string where
  "started_txt =
     u [208, 159, 209, 128, 208, 184, 208, 187, 208, 190, 208, 182, 208, 181, 208, 189,
       208, 184, 208, 181, 32, 208, 183, 208, 176, 208, 191, 209, 131, 209, 137, 208, 181,
       208, 189, 208, 190, 46, 32, 208, 155, 208, 190, 208, 179, 208, 184, 209, 128, 208,
       190, 208, 178, 208, 176, 208, 189, 208, 184, 208, 181, 32, 208, 178, 208, 186, 208,
       187, 209, 142, 209, 135, 208, 181, 208, 189, 208, 190]"

definition stack_test_txt :: string where
  "stack_test_txt =
     u [208, 162, 208, 181, 209, 129, 209, 130, 32, 209, 129, 209, 130, 208, 181, 208, 186,
       208, 176, 32, 208, 180, 208, 187, 209, 143, 32, 209, 128, 208, 181, 208, 186, 209,
       131, 209, 128, 209, 129, 208, 184, 208, 178, 208, 189, 208, 190, 208, 185, 32, 209,
       132, 209, 131, 208, 189, 208, 186, 209, 134, 208, 184, 208, 184]"

definition threads_test_txt :: string where
  "threads_test_txt =
     u [208, 156, 208, 189, 208, 190, 208, 179, 208, 190, 208, 191, 208, 190, 209, 130,
       208, 190, 209, 135, 208, 189, 209, 139, 208, 185, 32, 209, 130, 208, 181, 209, 129,
       209, 130]"

definition level_test_txt :: string where
  "level_test_txt =
     u [208, 159, 209, 128, 208, 190, 208, 178, 208, 181, 209, 128, 208, 186, 208, 176, 32,
       208, 180, 208, 184, 208, 189, 208, 176, 208, 188, 208, 184, 209, 135, 208, 181,
       209, 129, 208, 186, 208, 190, 208, 179, 208, 190, 32, 208, 184, 208, 183, 208, 188,
       208, 181, 208, 189, 208, 181, 208, 189, 208, 184, 209, 143, 32, 209, 131, 209, 128,
       208, 190, 208, 178, 208, 189, 209, 143, 32, 208, 187, 208, 190, 208, 179, 208, 184,
       209, 128, 208, 190, 208, 178, 208, 176, 208, 189, 208, 184, 209, 143]"

definition this_is_txt :: string where
  "this_is_txt =
     u [208, 173, 209, 130, 208, 190]"

definition must_not_txt :: string where
  "must_not_txt =
     u [209, 129, 208, 190, 208, 190, 208, 177, 209, 137, 208, 181, 208, 189, 208, 184,
       208, 181, 32, 208, 189, 208, 181, 32, 208, 180, 208, 190, 208, 187, 208, 182, 208,
       189, 208, 190, 32, 208, 191, 208, 190, 209, 143, 208, 178, 208, 184, 209, 130, 209,
       140, 209, 129, 209, 143, 46, 46]"

definition appears_txt :: string where
  "appears_txt =
     u [209, 129, 208, 190, 208, 190, 208, 177, 209, 137, 208, 181, 208, 189, 208, 184,
       208, 181, 32, 208, 191, 208, 190, 209, 143, 208, 178, 208, 184, 209, 130, 209, 140,
       209, 129, 209, 143, 46, 46]"

definition finished_txt :: string where
  "finished_txt =
     u [208, 162, 208, 181, 209, 129, 209, 130, 32, 208, 183, 208, 176, 208, 178, 208, 181,
       209, 128, 209, 136, 208, 181, 208, 189]"

section \<open>The calls of the program\<close>

datatype op =
    Log int nat string string   \<comment> \<open>level, line, function, formatted message\<close>
  | SetLevel int

record surroundings =
  now :: "nat \<Rightarrow> string"                    \<comment> \<open>the time in the call of that number\<close>
  trace :: "nat \<Rightarrow> string option"           \<comment> \<open>its stack trace\<close>
  this_file :: string                       \<comment> \<open>\<open>__FILE__\<close>\<close>
  EAGAIN :: nat
  EPERM :: nat
  strerror :: "nat \<Rightarrow> string"
  left_errno :: "nat \<Rightarrow> nat \<Rightarrow> nat \<Rightarrow> nat"   \<comment> \<open>thread, round, before; after the calls up to \<open>log_error\<close>\<close>

definition thread_round :: "surroundings \<Rightarrow> nat \<Rightarrow> nat \<Rightarrow> nat \<Rightarrow> op list" where
  "thread_round E ident i errno =
     (let thread = ''Thread '' @ dec ident @ '': ''; f = ''thread_function''
      in [Log LOG_DEBUG 17 f (thread @ ''debug '' @ iteration_txt @ '' '' @ dec i),
          Log LOG_INFO 18 f (thread @ message_txt @ '' info''),
          Log LOG_WARNING 19 f (thread @ warned_txt),
          Log LOG_ERROR 21 f (thread @ simulated_txt @ '' (errno '' @ dec errno @ '': '' @ strerror E errno @ '')'')])"

fun thread_rounds :: "surroundings \<Rightarrow> nat \<Rightarrow> nat list \<Rightarrow> nat \<Rightarrow> op list" where
  "thread_rounds E ident [] errno = []"
| "thread_rounds E ident (i # is) errno =
     (let errno = left_errno E ident i errno
      in thread_round E ident i errno @ thread_rounds E ident is errno)"

text \<open>\<open>errno\<close> belongs to the thread and starts at 0.\<close>

definition thread_function :: "surroundings \<Rightarrow> nat \<Rightarrow> op list" where
  "thread_function E ident = thread_rounds E ident [0..<3] (if ident = 0 then EAGAIN E else 0)"

function deep_function :: "surroundings \<Rightarrow> int \<Rightarrow> op list" where
  "deep_function E depth =
     (let f = ''deep_function''
      in if depth \<le> 0
         then [Log LOG_DEBUG 30 f (error_at_txt @ '' 0 (errno: '' @ strerror E (EPERM E) @ '')'')]
         else [Log LOG_DEBUG 33 f (depth_is_txt @ '' '' @ dec (nat depth))] @ deep_function E (depth - 1) @
              [Log LOG_DEBUG 35 f (depth_is_txt @ '' '' @ dec (nat depth))])"
  by pat_completeness auto
termination by (relation "measure (\<lambda>(E, depth). nat depth)") auto

declare deep_function.simps [simp del]

definition NUM_THREADS :: nat where "NUM_THREADS = 4"

definition before_threads :: "surroundings \<Rightarrow> op list" where
  "before_threads E =
     [Log LOG_INFO 50 ''main'' started_txt, Log LOG_INFO 52 ''main'' stack_test_txt] @ deep_function E 2 @
     [Log LOG_INFO 55 ''main'' threads_test_txt]"

definition after_threads :: "op list" where
  "after_threads =
     [Log LOG_INFO 68 ''main'' level_test_txt, SetLevel LOG_WARNING,
      Log LOG_DEBUG 70 ''main'' (this_is_txt @ '' debug '' @ must_not_txt),
      Log LOG_INFO 71 ''main'' (this_is_txt @ '' info '' @ must_not_txt),
      Log LOG_WARNING 72 ''main'' (this_is_txt @ '' warning '' @ appears_txt),
      Log LOG_ERROR 73 ''main'' (this_is_txt @ '' error '' @ appears_txt),
      Log LOG_INFO 76 ''main'' finished_txt]"

text \<open>The program in phases, each a list of threads; \<open>pthread_join\<close> ends a phase.\<close>

definition sample_phases :: "surroundings \<Rightarrow> op list list list" where
  "sample_phases E = [[before_threads E], map (thread_function E) [0..<NUM_THREADS], [after_threads]]"

text \<open>The environment that \<open>main\<close> sets, and the library once it is initialised.\<close>

definition sample_world :: "world \<Rightarrow> world" where
  "sample_world w = w\<lparr>getenv := (getenv w)(''MYAPP_LOGGING_ENABLED'' \<mapsto> ''1'', ''MYAPP_LOG_LEVEL'' \<mapsto> ''debug'',
     ''MYAPP_DEBUG_LOG_FILE'' \<mapsto> ''debug.log'')\<rparr>"

definition sample_logger :: "world \<Rightarrow> logger" where
  "sample_logger w =
     logger_init (sample_world w) (logger_set_env_prefix (Some ''MYAPP_'') logger_static)"

section \<open>The system\<close>

text \<open>
  The library, what was written to the common streams, the queue of each level with the texts handed
  to it, the calls made so far and the phases to come.
\<close>

record app =
  a_logger :: logger
  a_writes :: "effect list"
  a_queues :: "int \<Rightarrow> async_logger \<times> string list"
  a_made :: "op list"
  a_phases :: "op list list list"

definition run_op :: "world \<Rightarrow> surroundings \<Rightarrow> nat \<Rightarrow> op \<Rightarrow> logger \<Rightarrow> logger \<times> effect list" where
  "run_op w E k c s =
     (case c of
        Log level line func msg \<Rightarrow> logger_log w (now E k) (trace E k) level (this_file E) line func msg s
      | SetLevel level \<Rightarrow> (logger_set_level level s, []))"

definition is_write :: "effect \<Rightarrow> bool" where
  "is_write e = (case e of Write _ _ \<Rightarrow> True | _ \<Rightarrow> False)"

text \<open>Handing the texts of a call to the queues, each in a cell that \<open>malloc\<close> gives.\<close>

inductive deliver :: "effect list \<Rightarrow> (int \<Rightarrow> async_logger \<times> string list) \<Rightarrow>
    (int \<Rightarrow> async_logger \<times> string list) \<Rightarrow> bool" where
  none: "deliver [] qs qs"
| enqueue: "heap (fst (qs l)) a = None \<Longrightarrow> async_logger_enqueue (Some a) t (fst (qs l)) = Inr q \<Longrightarrow>
    deliver es (qs(l := (q, snd (qs l) @ [t]))) qs' \<Longrightarrow> deliver (Enqueue l t # es) qs qs'"
| other: "(\<And>l t. e \<noteq> Enqueue l t) \<Longrightarrow> deliver es qs qs' \<Longrightarrow> deliver (e # es) qs qs'"

inductive app_step :: "world \<Rightarrow> surroundings \<Rightarrow> app \<Rightarrow> app \<Rightarrow> bool" for w E where
  call: "a_phases a = threads # rest \<Longrightarrow> i < length threads \<Longrightarrow> threads ! i = c # cs \<Longrightarrow>
    run_op w E (length (a_made a)) c (a_logger a) = (s, es) \<Longrightarrow> deliver es (a_queues a) qs \<Longrightarrow>
    app_step w E a (a\<lparr>a_logger := s, a_writes := a_writes a @ filter is_write es, a_queues := qs,
      a_made := a_made a @ [c], a_phases := threads[i := cs] # rest\<rparr>)"
| join: "a_phases a = threads # rest \<Longrightarrow> \<forall>t \<in> set threads. t = [] \<Longrightarrow>
    app_step w E a (a\<lparr>a_phases := rest\<rparr>)"
| writer: "writer_step (fst (a_queues a l)) = Some (Inr q) \<Longrightarrow>
    app_step w E a (a\<lparr>a_queues := (a_queues a)(l := (q, snd (a_queues a l)))\<rparr>)"
| spurious: "wpc (fst (a_queues a l)) = Waiting \<Longrightarrow>
    app_step w E a (a\<lparr>a_queues := (a_queues a)(l := ((fst (a_queues a l))\<lparr>wpc := Looping\<rparr>, snd (a_queues a l)))\<rparr>)"

definition sample_start :: "world \<Rightarrow> surroundings \<Rightarrow> app" where
  "sample_start w E = \<lparr>a_logger = sample_logger w, a_writes = [],
     a_queues = (\<lambda>_. (create_async_logger_state, [])), a_made = [], a_phases = sample_phases E\<rparr>"

text \<open>
  \<open>logger_shutdown\<close> at the end of \<open>main\<close>: for a level that it stops, the state of the writer after
  \<open>fuel\<close> steps.
\<close>

definition shut_down :: "nat \<Rightarrow> app \<Rightarrow> (int \<times> async_logger cres) list" where
  "shut_down fuel a =
     map (\<lambda>l. (l, destroy_async_logger fuel (fst (a_queues a l))))
       (concat (map (\<lambda>e. case e of StopWriter l \<Rightarrow> [l] | _ \<Rightarrow> []) (snd (logger_shutdown (a_logger a)))))"

end
