(* ===== verification/SampleRun.thy ===== *)
theory SampleRun
  imports SampleApp "HOL-Library.Sublist"
begin

text \<open>
  What the client of SampleApp does: every order of its threads gives the effects of one sequence of
  calls, each queue gets the texts of its level in that sequence, and the program can always go on to
  its end, where the writers deliver everything.
\<close>

section \<open>Orders of calls\<close>

text \<open>The sequences in which the calls of some threads can be made, and of phases of threads.\<close>

inductive interleaving :: "'a list list \<Rightarrow> 'a list \<Rightarrow> bool" where
  ended: "\<forall>t \<in> set threads. t = [] \<Longrightarrow> interleaving threads []"
| next_of: "i < length threads \<Longrightarrow> threads ! i = c # cs \<Longrightarrow> interleaving (threads[i := cs]) xs \<Longrightarrow>
    interleaving threads (c # xs)"

inductive runs :: "'a list list list \<Rightarrow> 'a list \<Rightarrow> bool" where
  over: "runs [] []"
| phase: "interleaving threads xs \<Longrightarrow> runs rest ys \<Longrightarrow> runs (threads # rest) (xs @ ys)"

inductive_cases runsE: "runs (threads # rest) xs" "runs [] xs"

lemma interleaving_one: "interleaving threads xs \<Longrightarrow> threads = [t] \<Longrightarrow> xs = t"
  by (induction arbitrary: t rule: interleaving.induct) auto

lemma interleaving_from: "interleaving threads xs \<Longrightarrow> x \<in> set xs \<Longrightarrow> \<exists>t \<in> set threads. x \<in> set t"
proof (induction rule: interleaving.induct)
  case (next_of i threads c cs xs)
  have t: "c # cs \<in> set threads" using next_of.hyps(1,2) by (metis nth_mem)
  show ?case
  proof (cases "x = c")
    case False
    then obtain t' where "t' \<in> set (threads[i := cs])" "x \<in> set t'" using next_of by auto
    then have "t' \<in> insert cs (set threads)" using set_update_subset_insert [of threads i cs] by blast
    then show ?thesis using t \<open>x \<in> set t'\<close> by (auto intro: bexI [of _ "c # cs"])
  qed (use t in \<open>auto intro: bexI [of _ "c # cs"]\<close>)
qed simp

text \<open>Each thread makes its calls in its order.\<close>

lemma interleaving_subseq: "interleaving threads xs \<Longrightarrow> i < length threads \<Longrightarrow> subseq (threads ! i) xs"
proof (induction arbitrary: i rule: interleaving.induct)
  case (next_of j threads c cs xs)
  have "subseq ((threads[j := cs]) ! i) xs" using next_of.prems by (intro next_of.IH) simp
  then show ?case using next_of.hyps(1,2) by (cases "i = j") auto
qed (auto dest: nth_mem)

lemma runs_sample:
  assumes "runs (sample_phases E) xs"
  obtains cs where "interleaving (map (thread_function E) [0..<NUM_THREADS]) cs"
    "xs = before_threads E @ cs @ after_threads"
proof -
  obtain xs1 cs xs2 where "interleaving [before_threads E] xs1"
      "interleaving (map (thread_function E) [0..<NUM_THREADS]) cs" "interleaving [after_threads] xs2"
      "xs = xs1 @ cs @ xs2"
    using assms by (auto simp: sample_phases_def elim!: runsE)
  then show ?thesis using interleaving_one that by blast
qed

section \<open>The queues\<close>

text \<open>A queue whose writer is not being stopped, and the texts that some effects hand to a level.\<close>

definition live :: "async_logger \<times> string list \<Rightarrow> bool" where
  "live qe \<longleftrightarrow> log_inv qe \<and> running (fst qe) \<and> wpc (fst qe) \<notin> {Draining, Finished}"

definition handed :: "int \<Rightarrow> effect list \<Rightarrow> string list" where
  "handed l es = concat (map (\<lambda>e. case e of Enqueue l' t \<Rightarrow> if l' = l then [t] else [] | _ \<Rightarrow> []) es)"

lemma handed_simps [simp]:
  "handed l [] = []" "handed l (es @ es') = handed l es @ handed l es'"
  "handed l (Enqueue l' t # es) = (if l' = l then [t] else []) @ handed l es"
  "(\<And>l t. e \<noteq> Enqueue l t) \<Longrightarrow> handed l (e # es) = handed l es"
  by (simp_all add: handed_def split: effect.split)

lemma enqueue_live:
  assumes "live (q, enq)" "heap q a = None"
  shows "\<exists>q'. async_logger_enqueue (Some a) t q = Inr q' \<and> live (q', enq @ [t])"
proof -
  obtain q' where q': "async_logger_enqueue (Some a) t q = Inr q'" "log_inv (q', enq @ [t])"
    using enqueue_keeps [of q enq a t] assms by (auto simp: live_def)
  then have "running q' = running q \<and> (wpc q' \<in> {Draining, Finished} \<longrightarrow> wpc q \<in> {Draining, Finished})"
    by (auto simp: async_logger_enqueue_def cond_signal_def Let_def split: option.splits if_splits)
  then show ?thesis using q' assms(1) by (auto simp: live_def)
qed

lemma deliver_live:
  "deliver es qs qs' \<Longrightarrow> \<forall>l. live (qs l) \<Longrightarrow> \<forall>l. live (qs' l) \<and> snd (qs' l) = snd (qs l) @ handed l es"
proof (induction rule: deliver.induct)
  case (enqueue qs l a t q es qs')
  have "live (q, snd (qs l) @ [t])"
    using enqueue_live [of "fst (qs l)" "snd (qs l)" a t] enqueue.hyps enqueue.prems by auto
  then have "\<forall>l'. live ((qs(l := (q, snd (qs l) @ [t]))) l')" using enqueue.prems by simp
  then show ?case using enqueue.IH by auto
qed auto

lemma deliver_exists: "\<forall>l. live (qs l) \<Longrightarrow> \<exists>qs'. deliver es qs qs'"
proof (induction es arbitrary: qs)
  case Nil
  then show ?case by (blast intro: deliver.none)
next
  case (Cons e es)
  show ?case
  proof (cases "\<exists>l t. e = Enqueue l t")
    case False
    then show ?thesis using Cons deliver.other by metis
  next
    case True
    then obtain l t where e: "e = Enqueue l t" by blast
    have "log_inv (fst (qs l), snd (qs l))" using Cons.prems by (simp add: live_def)
    then obtain a where a: "heap (fst (qs l)) a = None"
      using log_inv_finite ex_new_if_finite [OF infinite_UNIV_nat] by (metis domIff)
    obtain q where q: "async_logger_enqueue (Some a) t (fst (qs l)) = Inr q" "live (q, snd (qs l) @ [t])"
      using enqueue_live [of "fst (qs l)" "snd (qs l)" a t] Cons.prems a by auto
    then have "\<exists>qs'. deliver es (qs(l := (q, snd (qs l) @ [t]))) qs'" using Cons.prems by (intro Cons.IH) auto
    then show ?thesis unfolding e using deliver.enqueue [of qs l a t q] a q(1) by blast
  qed
qed

lemma writer_live: "live (q, enq) \<Longrightarrow> writer_step q = Some (Inr q') \<Longrightarrow> live (q', enq)"
proof -
  assume l: "live (q, enq)" and w: "writer_step q = Some (Inr q')"
  have "wpc q \<notin> {Waiting, Finished}" using w by (auto simp: writer_step_def)
  then have "log_inv (q', enq)" using writer_keeps [of q enq] l w by (auto simp: live_def)
  moreover have "wpc q' \<notin> {Draining, Finished}"
    using l w by (auto simp: live_def writer_step_def split: wpc.splits option.splits if_splits)
  ultimately show ?thesis using l writer_keeps_running [OF w] by (simp add: live_def)
qed

lemma spurious_live: "live (q, enq) \<Longrightarrow> wpc q = Waiting \<Longrightarrow> live (q\<lparr>wpc := Looping\<rparr>, enq)"
proof -
  assume l: "live (q, enq)" and w: "wpc q = Waiting"
  then have "log_step (q, enq) (q\<lparr>wpc := Looping\<rparr>, enq)" by (intro log_step.spurious)
  then show ?thesis using l log_queue.step_inv [of "(q, enq)"] by (simp add: live_def)
qed

section \<open>The system follows one sequence of calls\<close>

fun run_ops :: "world \<Rightarrow> surroundings \<Rightarrow> nat \<Rightarrow> op list \<Rightarrow> logger \<Rightarrow> logger \<times> effect list" where
  "run_ops w E k [] s = (s, [])"
| "run_ops w E k (c # cs) s =
     (let (s, es) = run_op w E k c s; (s, es') = run_ops w E (Suc k) cs s in (s, es @ es'))"

lemma run_ops_append:
  "run_ops w E k (cs @ ds) s =
    (let (s, es) = run_ops w E k cs s; (s, es') = run_ops w E (k + length cs) ds s in (s, es @ es'))"
  by (induction cs arbitrary: k s) (auto simp: Let_def split: prod.split)

text \<open>\<open>w\<close> is the environment with what the program sets.\<close>

definition app_inv :: "world \<Rightarrow> surroundings \<Rightarrow> logger \<Rightarrow> op list list list \<Rightarrow> app \<Rightarrow> bool" where
  "app_inv w E s0 phases a \<longleftrightarrow>
     (\<forall>l. live (a_queues a l)) \<and> fst (run_ops w E 0 (a_made a) s0) = a_logger a \<and>
     a_writes a = filter is_write (snd (run_ops w E 0 (a_made a) s0)) \<and>
     (\<forall>l. snd (a_queues a l) = handed l (snd (run_ops w E 0 (a_made a) s0))) \<and>
     (\<forall>cs. runs (a_phases a) cs \<longrightarrow> runs phases (a_made a @ cs))"

lemma live_start: "live (create_async_logger_state, [])"
  using log_queue.init_inv by (simp add: live_def create_async_logger_state_def)

lemma call_keeps:
  assumes inv: "app_inv w E s0 phases a" and ph: "a_phases a = threads # rest"
    and i: "i < length threads" "threads ! i = c # cs"
    and op: "run_op w E (length (a_made a)) c (a_logger a) = (s, es)" and d: "deliver es (a_queues a) qs"
  shows "app_inv w E s0 phases (a\<lparr>a_logger := s, a_writes := a_writes a @ filter is_write es, a_queues := qs,
      a_made := a_made a @ [c], a_phases := threads[i := cs] # rest\<rparr>)"
proof -
  let ?r = "run_ops w E 0 (a_made a) s0"
  have r: "run_ops w E 0 (a_made a @ [c]) s0 = (s, snd ?r @ es)"
    using op inv by (simp add: run_ops_append app_inv_def split_beta Let_def)
  have "runs phases ((a_made a @ [c]) @ xs)" if "runs (threads[i := cs] # rest) xs" for xs
  proof -
    obtain ys zs where "interleaving (threads[i := cs]) ys" "runs rest zs" "xs = ys @ zs"
      using \<open>runs (threads[i := cs] # rest) xs\<close> by (auto elim: runsE)
    then have "runs (threads # rest) (c # xs)"
      using interleaving.next_of [OF i] runs.phase [of threads "c # ys" rest zs] by simp
    then show ?thesis using inv ph by (simp add: app_inv_def)
  qed
  then show ?thesis
    using deliver_live [OF d] inv by (simp add: app_inv_def r)
qed

lemma join_keeps:
  assumes "app_inv w E s0 phases a" "a_phases a = threads # rest" "\<forall>t \<in> set threads. t = []"
  shows "app_inv w E s0 phases (a\<lparr>a_phases := rest\<rparr>)"
proof -
  have "runs (threads # rest) xs" if "runs rest xs" for xs
    using runs.phase [OF interleaving.ended [OF assms(3)] that] by simp
  then show ?thesis using assms(1,2) by (simp add: app_inv_def)
qed

lemma queue_keeps:
  assumes "app_inv w E s0 phases a" "live (q, snd (a_queues a l))"
  shows "app_inv w E s0 phases (a\<lparr>a_queues := (a_queues a)(l := (q, snd (a_queues a l)))\<rparr>)"
  using assms by (simp add: app_inv_def)

interpretation sample: invariant_system "\<lambda>a. a = sample_start w E" "app_step (sample_world w) E"
  "app_inv (sample_world w) E (sample_logger w) (sample_phases E)" for w E
proof unfold_locales
  show "app_inv (sample_world w) E (sample_logger w) (sample_phases E) a" if "a = sample_start w E" for a
    using that live_start by (simp add: app_inv_def sample_start_def)
  fix a b
  assume inv: "app_inv (sample_world w) E (sample_logger w) (sample_phases E) a"
    and "app_step (sample_world w) E a b"
  from this(2) show "app_inv (sample_world w) E (sample_logger w) (sample_phases E) b"
  proof cases
    case call
    then show ?thesis using call_keeps [OF inv] by blast
  next
    case join
    then show ?thesis using join_keeps [OF inv] by blast
  next
    case (writer l q)
    then show ?thesis
      using queue_keeps [OF inv, of q l] writer_live [of "fst (a_queues a l)" "snd (a_queues a l)" q] inv
      by (simp add: app_inv_def)
  next
    case (spurious l)
    then show ?thesis
      using queue_keeps [OF inv, of _ l] spurious_live [of "fst (a_queues a l)" "snd (a_queues a l)"] inv
      by (simp add: app_inv_def)
  qed
qed

section \<open>The program can always go on\<close>

definition calls_left :: "op list list list \<Rightarrow> nat" where
  "calls_left phases = sum_list (map (\<lambda>threads. Suc (sum_list (map length threads))) phases)"

lemma calls_left_call:
  "i < length threads \<Longrightarrow> threads ! i = c # cs \<Longrightarrow>
   calls_left (threads[i := cs] # rest) < calls_left (threads # rest)"
proof -
  assume i: "i < length threads" "threads ! i = c # cs"
  then have "sum_list (map length threads) = sum_list (map length (take i threads @ (c # cs) # drop (Suc i) threads))"
    by (metis id_take_nth_drop)
  moreover have "threads[i := cs] = take i threads @ cs # drop (Suc i) threads"
    using i(1) by (rule upd_conv_take_nth_drop)
  ultimately show ?thesis by (simp add: calls_left_def)
qed

lemma app_goes_on:
  assumes "\<forall>l. live (a_queues a l)" "a_phases a \<noteq> []"
  shows "\<exists>b. app_step w E a b \<and> calls_left (a_phases b) < calls_left (a_phases a)"
proof -
  obtain threads rest where ph: "a_phases a = threads # rest" using assms(2) by (cases "a_phases a") auto
  show ?thesis
  proof (cases "\<forall>t \<in> set threads. t = []")
    case True
    then show ?thesis
      using app_step.join [OF ph True] ph by (intro exI conjI) (auto simp: calls_left_def)
  next
    case False
    then obtain i c cs where i: "i < length threads" "threads ! i = c # cs"
      by (metis in_set_conv_nth neq_Nil_conv)
    obtain s es where r: "run_op w E (length (a_made a)) c (a_logger a) = (s, es)" by fastforce
    obtain qs where "deliver es (a_queues a) qs" using deliver_exists assms(1) by blast
    from app_step.call [OF ph i r this] calls_left_call [OF i, of rest] show ?thesis
      by (intro exI conjI) (auto simp: ph)
  qed
qed

lemma sample_can_finish:
  "reach (\<lambda>a. a = sample_start w E) (app_step (sample_world w) E) a \<Longrightarrow>
   \<exists>b. reach (\<lambda>a. a = sample_start w E) (app_step (sample_world w) E) b \<and> a_phases b = []"
proof (induction "calls_left (a_phases a)" arbitrary: a rule: less_induct)
  case less
  show ?case
  proof (cases "a_phases a = []")
    case False
    have "\<forall>l. live (a_queues a l)" using sample.reach_inv [OF less.prems] by (simp add: app_inv_def)
    then obtain b where "app_step (sample_world w) E a b" "calls_left (a_phases b) < calls_left (a_phases a)"
      using app_goes_on False by blast
    then show ?thesis using less reach_step by metis
  qed (use less.prems in blast)
qed

section \<open>Where the messages go\<close>

text \<open>The environment has nothing else for the library, and the file and thread for DEBUG come about.\<close>

definition plain_world :: "world \<Rightarrow> bool" where
  "plain_world w \<longleftrightarrow> getenv w ''MYAPP_LOG_FILE'' = None \<and> getenv w ''MYAPP_ERROR_LOG_FILE'' = None \<and>
     getenv w ''MYAPP_WARNING_LOG_FILE'' = None \<and> getenv w ''MYAPP_INFO_LOG_FILE'' = None \<and>
     can_open w ''debug.log'' \<and> can_start w LOG_DEBUG"

definition set_up :: "int \<Rightarrow> logger \<Rightarrow> bool" where
  "set_up level s \<longleftrightarrow> initialized s \<and> logging_enabled s \<and> current_level s = level \<and>
     common_file s = Some Stderr \<and> async_files s = [LOG_DEBUG \<mapsto> ''debug.log'']"

lemma sample_logger_set_up:
  assumes "plain_world w"
  shows "set_up LOG_DEBUG (sample_logger w)"
proof -
  define s where "s = logger_set_env_prefix (Some ''MYAPP_'') logger_static"
  have s: "\<not> initialized s" "async_files s = Map.empty" "env_prefix s = ''MYAPP_''"
    by (simp_all add: s_def logger_set_env_prefix_def logger_static_def)
  have g: "get_env_with_prefix (sample_world w) s v =
      ((getenv w)(''MYAPP_LOGGING_ENABLED'' \<mapsto> ''1'', ''MYAPP_LOG_LEVEL'' \<mapsto> ''debug'',
        ''MYAPP_DEBUG_LOG_FILE'' \<mapsto> ''debug.log'')) (''MYAPP_'' @ v)" if "length v \<le> 20" for v
    using that by (simp add: get_env_with_prefix_def make_env_name_def s(3) sample_world_def)
  have o: "can_open (sample_world w) = can_open w" "can_start (sample_world w) = can_start w"
    by (simp_all add: sample_world_def)
  have c: "strcasecmp_eq ''1'' ''1''" by code_simp
  have enabled: "check_logging_enabled (sample_world w) s"
    by (simp add: check_logging_enabled_def g c)
  note r = do_init_result [OF s(1,2), of "sample_world w"]
  have "common_sink (sample_world w) s = Stderr"
    using assms by (simp add: common_sink_def g plain_world_def)
  moreover have "env_level (sample_world w) s = LOG_DEBUG"
    by (simp add: env_level_def g level_names)
  moreover have "(\<lambda>l. if is_valid_level l then level_file (sample_world w) s l else None) = [LOG_DEBUG \<mapsto> ''debug.log'']"
    using assms
    by (auto simp: fun_eq_iff level_file_def level_suffix_def g o plain_world_def is_valid_level_def
        level_defs)
  moreover have "sample_logger w = do_init (sample_world w) s"
    using s(1) by (simp add: sample_logger_def logger_init_def s_def)
  ultimately show ?thesis using r enabled by (simp add: set_up_def)
qed

text \<open>What the call with number \<open>k\<close> gives at level DEBUG, and at level WARNING.\<close>

definition message :: "surroundings \<Rightarrow> nat \<Rightarrow> int \<Rightarrow> nat \<Rightarrow> string \<Rightarrow> string \<Rightarrow> string" where
  "message E k level line func msg = format_log_message (now E k) level (this_file E) line func msg"

definition with_newline :: "string \<Rightarrow> string" where
  "with_newline t = t @ [CHR 0x0A]"

definition shown :: "surroundings \<Rightarrow> nat \<times> op \<Rightarrow> effect list" where
  "shown E kc =
     (case snd kc of
        SetLevel level \<Rightarrow> []
      | Log level line func msg \<Rightarrow>
          let t = message E (fst kc) level line func msg
          in if level = LOG_DEBUG then [Enqueue LOG_DEBUG t]
             else if level = LOG_INFO then [Write Stdout (if CHR 0x0D \<in> set t then t else with_newline t)]
             else [Write Stderr (with_newline (t @ (case trace E (fst kc) of None \<Rightarrow> [] | Some st \<Rightarrow> st)))])"

definition is_log :: "op \<Rightarrow> bool" where
  "is_log c = (case c of Log level _ _ _ \<Rightarrow> is_valid_level level | SetLevel _ \<Rightarrow> False)"

lemma run_op_log:
  assumes "set_up LOG_DEBUG s" "is_log c"
  shows "run_op w E k c s = (s, shown E (k, c))"
proof -
  obtain level line func msg where c: "c = Log level line func msg" "is_valid_level level"
    using assms(2) by (auto simp: is_log_def split: op.splits)
  then have "level \<le> LOG_DEBUG" "0 \<le> level" "level < 8" by (auto simp: is_valid_level_def level_defs)
  then show ?thesis
    using assms(1) c(2)
    by (auto simp: run_op_def c(1) logger_log_def set_up_def shown_def message_def with_newline_def
        write_single_log_message_def Let_def split: option.split)
qed

lemma run_ops_log:
  assumes "set_up LOG_DEBUG s"
  shows "\<forall>c \<in> set cs. is_log c \<Longrightarrow> run_ops w E k cs s = (s, concat (map (shown E) (enumerate k cs)))"
  by (induction cs arbitrary: k) (simp_all add: run_op_log [OF assms])

text \<open>The calls after the threads: the level drops to WARNING.\<close>

lemma run_ops_after:
  assumes "set_up LOG_DEBUG s"
  shows "set_up LOG_WARNING (fst (run_ops w E k after_threads s))" and "snd (run_ops w E k after_threads s) =
    shown E (k, Log LOG_INFO 68 ''main'' level_test_txt) @
    [Write Stderr (with_newline (message E (k + 4) LOG_WARNING 72 ''main'' (this_is_txt @ '' warning '' @ appears_txt))),
     Write Stderr (with_newline (message E (k + 5) LOG_ERROR 73 ''main'' (this_is_txt @ '' error '' @ appears_txt)))]"
proof -
  have w: "run_op w E k (SetLevel LOG_WARNING) s = (logger_set_level LOG_WARNING s, [])" for k
    by (simp add: run_op_def)
  have s': "set_up LOG_WARNING (logger_set_level LOG_WARNING s)"
    using assms by (simp add: set_up_def logger_set_level_def)
  have quiet: "run_op w E k (Log level line func msg) s' =
      (s', if level > LOG_WARNING then [] else [Write Stderr (with_newline (message E k level line func msg))])"
    if "set_up LOG_WARNING s'" for s' k level line func msg
    using that
    by (auto simp: run_op_def logger_log_def set_up_def message_def with_newline_def
        write_single_log_message_def level_defs)
  have "is_log (Log LOG_INFO 68 ''main'' level_test_txt)" by (simp add: is_log_def is_valid_level_def)
  note first = run_op_log [OF assms this]
  show "set_up LOG_WARNING (fst (run_ops w E k after_threads s))"
    unfolding after_threads_def by (simp add: first w quiet [OF s'] s')
  show "snd (run_ops w E k after_threads s) =
    shown E (k, Log LOG_INFO 68 ''main'' level_test_txt) @
    [Write Stderr (with_newline (message E (k + 4) LOG_WARNING 72 ''main'' (this_is_txt @ '' warning '' @ appears_txt))),
     Write Stderr (with_newline (message E (k + 5) LOG_ERROR 73 ''main'' (this_is_txt @ '' error '' @ appears_txt)))]"
    unfolding after_threads_def
    by (simp add: first w quiet [OF s']) (simp add: level_defs numeral_eq_Suc)
qed

lemma deep_function_log: "c \<in> set (deep_function E depth) \<Longrightarrow> is_log c"
  by (induction E depth rule: deep_function.induct)
    (subst (asm) (2) deep_function.simps, auto simp: Let_def is_log_def is_valid_level_def split: if_splits)

lemma thread_rounds_log: "c \<in> set (thread_rounds E ident is errno) \<Longrightarrow> is_log c"
  by (induction E ident "is" errno rule: thread_rounds.induct)
    (auto simp: Let_def thread_round_def is_log_def is_valid_level_def)

lemma before_threads_log: "c \<in> set (before_threads E) \<Longrightarrow> is_log c"
  using deep_function_log [of c E 2] by (auto simp: before_threads_def is_log_def is_valid_level_def)

lemma threads_log:
  "interleaving (map (thread_function E) is) cs \<Longrightarrow> c \<in> set cs \<Longrightarrow> is_log c"
  using thread_rounds_log by (fastforce dest: interleaving_from simp: thread_function_def)

section \<open>What the program writes\<close>

text \<open>
  Property C9. Whatever order the four threads and the writer take, when the program has ended its
  calls were those of \<open>main\<close> with the calls of the threads in some order between, each thread's in its
  own; INFO went to stdout, warnings and errors to stderr with the stack, all DEBUG messages are in
  the file of their level in the order of the calls once the library is shut down, and after the
  level was set to WARNING only the warning and the error appeared, without a stack.
\<close>

theorem sample_output:
  assumes "reach (\<lambda>a. a = sample_start w E) (app_step (sample_world w) E) a" "a_phases a = []"
    and "plain_world w" "card (dom (heap (fst (a_queues a LOG_DEBUG)))) + 2 \<le> fuel"
  shows "\<exists>cs q. interleaving (map (thread_function E) [0..<NUM_THREADS]) cs \<and>
    (\<forall>i < NUM_THREADS. subseq (thread_function E i) cs) \<and>
    (let calls = before_threads E @ cs; k = length calls;
         es = concat (map (shown E) (enumerate 0 (calls @ [Log LOG_INFO 68 ''main'' level_test_txt])))
     in a_writes a = filter is_write es @
          [Write Stderr (with_newline (message E (k + 4) LOG_WARNING 72 ''main'' (this_is_txt @ '' warning '' @ appears_txt))),
           Write Stderr (with_newline (message E (k + 5) LOG_ERROR 73 ''main'' (this_is_txt @ '' error '' @ appears_txt)))] \<and>
        shut_down fuel a = [(LOG_DEBUG, Inr q)] \<and> wpc q = Finished \<and> written q = handed LOG_DEBUG es)"
proof -
  let ?s = "sample_logger w" and ?w = "sample_world w"
  have inv: "app_inv ?w E ?s (sample_phases E) a" using assms(1) by (rule sample.reach_inv)
  then have "runs (sample_phases E) (a_made a)" using assms(2) runs.over by (fastforce simp: app_inv_def)
  then obtain cs where cs: "interleaving (map (thread_function E) [0..<NUM_THREADS]) cs"
      "a_made a = before_threads E @ cs @ after_threads"
    by (rule runs_sample)
  let ?calls = "before_threads E @ cs"
  let ?es = "concat (map (shown E) (enumerate 0 ?calls))"
  have set_up: "set_up LOG_DEBUG ?s" using assms(3) by (rule sample_logger_set_up)
  have "\<forall>c \<in> set ?calls. is_log c" using before_threads_log threads_log [OF cs(1)] by auto
  note before = run_ops_log [OF set_up this, of ?w E 0]
  note after = run_ops_after [OF set_up, of ?w E "length ?calls"]
  have "run_ops ?w E 0 (?calls @ after_threads) ?s =
      (fst (run_ops ?w E (length ?calls) after_threads ?s), ?es @ snd (run_ops ?w E (length ?calls) after_threads ?s))"
    unfolding run_ops_append [of ?w E 0 ?calls after_threads ?s] before by (simp add: split_beta Let_def)
  then have run: "set_up LOG_WARNING (a_logger a)"
      "a_writes a = filter is_write (?es @ snd (run_ops ?w E (length ?calls) after_threads ?s))"
      "snd (a_queues a LOG_DEBUG) = handed LOG_DEBUG (?es @ snd (run_ops ?w E (length ?calls) after_threads ?s))"
    using inv after(1) by (simp_all add: app_inv_def cs(2))
  have "live (a_queues a LOG_DEBUG)" using inv by (simp add: app_inv_def)
  then obtain q where q: "destroy_async_logger fuel (fst (a_queues a LOG_DEBUG)) = Inr q" "wpc q = Finished"
      "written q = snd (a_queues a LOG_DEBUG)"
    using destroy_delivers [of "fst (a_queues a LOG_DEBUG)" "snd (a_queues a LOG_DEBUG)" fuel] assms(4)
    by (auto simp: live_def)
  have "filter (\<lambda>l. async_files (a_logger a) l \<noteq> None) valid_levels = [LOG_DEBUG]"
    using run(1) by (simp add: set_up_def valid_levels_def level_defs)
  then have stop: "shut_down fuel a = [(LOG_DEBUG, Inr q)]"
    using run(1) q(1) by (simp add: shut_down_def logger_shutdown_def set_up_def Let_def)
  have "\<forall>i < NUM_THREADS. subseq (thread_function E i) cs"
    using interleaving_subseq [OF cs(1)] by auto
  moreover have "handed LOG_DEBUG [Write Stderr t, Write Stderr t'] = []" for t t' by simp
  ultimately show ?thesis
    using cs(1) stop q(2,3) unfolding run(2,3) after(2)
    by (intro exI [of _ cs] exI [of _ q]) (simp add: Let_def enumerate_append_eq is_write_def)
qed

text \<open>An empty environment, where the file opens and the thread starts, and some surroundings.\<close>

definition empty_world :: world where
  "empty_world = \<lparr>getenv = (\<lambda>_. None), can_open = (\<lambda>_. True), can_start = (\<lambda>_. True)\<rparr>"

definition quiet_surroundings :: surroundings where
  "quiet_surroundings = \<lparr>now = (\<lambda>_. ''T''), trace = (\<lambda>_. None), this_file = ''sample_app.c'', EAGAIN = 35,
     EPERM = 1, strerror = (\<lambda>_. ''error''), left_errno = (\<lambda>_ _ e. e)\<rparr>"

lemma sample_output_witness:
  "\<exists>a fuel q. reach (\<lambda>a. a = sample_start empty_world quiet_surroundings)
      (app_step (sample_world empty_world) quiet_surroundings) a \<and> a_phases a = [] \<and>
    shut_down fuel a = [(LOG_DEBUG, Inr q)] \<and> wpc q = Finished"
proof -
  obtain a where a: "reach (\<lambda>a. a = sample_start empty_world quiet_surroundings)
      (app_step (sample_world empty_world) quiet_surroundings) a" "a_phases a = []"
    using sample_can_finish [OF reach_init] by blast
  have "plain_world empty_world" by (simp add: plain_world_def empty_world_def)
  from sample_output [OF a this order.refl] show ?thesis unfolding Let_def using a by blast
qed

text \<open>\<open>errno\<close> of the errors: where the library keeps it, \<open>EAGAIN\<close> in thread 0 and 0 elsewhere.\<close>

lemma thread_errno:
  assumes "\<And>ident i e. left_errno E ident i e = e"
  shows "thread_function E ident =
    concat (map (\<lambda>i. thread_round E ident i (if ident = 0 then EAGAIN E else 0)) [0..<3])"
proof -
  have "thread_rounds E ident is e = concat (map (\<lambda>i. thread_round E ident i e) is)" for "is" e
    by (induction "is") (simp_all add: assms)
  then show ?thesis by (simp only: thread_function_def)
qed

end
