(* ===== verification/LogReader.thy ===== *)
theory LogReader
  imports CString "HOL-Library.Monad_Syntax"
begin

text \<open>
  The log statistics program 17_log_reader: the two chained hash tables, the parser of a line of
  the Combined Log Format, percent decoding, the list of files, the pool of worker threads as a
  step relation, and the report. Strings are the characters before the NUL. Allocation and
  thread creation succeed; what \<open>getopt\<close> returns, the directory and the files are given; the
  headings of the report, which are not ASCII in the source, are left out.
\<close>

section \<open>The two tables\<close>

record url_map =
  um_buckets :: "(string \<times> u64) list list"   \<comment> \<open>per bucket: \<open>key\<close> and \<open>bytes\<close> of the entries, first one first\<close>
  um_size :: u64

record ref_map =
  rm_buckets :: "(string \<times> u32) list list"   \<comment> \<open>per bucket: \<open>key\<close> and \<open>count\<close>\<close>
  rm_size :: u64

definition HASH_SIZE :: u64 where "HASH_SIZE = 1024"
definition MAX_LINE_LEN :: nat where "MAX_LINE_LEN = 8192"
definition TOP_N :: nat where "TOP_N = 10"

text \<open>A \<open>char\<close> is signed and is extended to the width of the hash.\<close>

definition hash :: "string \<Rightarrow> u64" where
  "hash str = foldl (\<lambda>h c. (push_bit 5 h + h) + scast (of_char c :: byte)) 5381 str"

definition url_map_init :: "u64 \<Rightarrow> url_map" where
  "url_map_init n = \<lparr>um_buckets = replicate (unat n) [], um_size = n\<rparr>"

definition ref_map_init :: "u64 \<Rightarrow> ref_map" where
  "ref_map_init n = \<lparr>rm_buckets = replicate (unat n) [], rm_size = n\<rparr>"

text \<open>The loop over a chain: the entry of the key is updated in place, if there is one.\<close>

fun chain_update :: "string \<Rightarrow> ('v \<Rightarrow> 'v) \<Rightarrow> (string \<times> 'v) list \<Rightarrow> (string \<times> 'v) list option" where
  "chain_update key f [] = None"
| "chain_update key f ((k, v) # es) =
     (if k = key then Some ((k, f v) # es) else map_option (Cons (k, v)) (chain_update key f es))"

definition url_map_add :: "url_map \<Rightarrow> string \<Rightarrow> u64 \<Rightarrow> url_map run" where
  "url_map_add m key bytes =
     (if bytes = 0 then Some (Inr m)
      else
        let h = unat (hash key mod um_size m)
        in if h \<ge> length (um_buckets m) then Some (Inl OutOfBounds)
           else case chain_update key (\<lambda>b. b + bytes) (um_buckets m ! h) of
             Some es \<Rightarrow> Some (Inr (m\<lparr>um_buckets := (um_buckets m)[h := es]\<rparr>))
           | None \<Rightarrow> Some (Inr (m\<lparr>um_buckets := (um_buckets m)[h := (key, bytes) # um_buckets m ! h]\<rparr>)))"

definition ref_map_inc :: "ref_map \<Rightarrow> string \<Rightarrow> ref_map run" where
  "ref_map_inc m key =
     (let h = unat (hash key mod rm_size m)
      in if h \<ge> length (rm_buckets m) then Some (Inl OutOfBounds)
         else case chain_update key (\<lambda>c. c + 1) (rm_buckets m ! h) of
           Some es \<Rightarrow> Some (Inr (m\<lparr>rm_buckets := (rm_buckets m)[h := es]\<rparr>))
         | None \<Rightarrow> Some (Inr (m\<lparr>rm_buckets := (rm_buckets m)[h := (key, 1) # rm_buckets m ! h]\<rparr>)))"

text \<open>The entries in the order \<open>free\<close> releases them.\<close>

definition url_map_free :: "url_map \<Rightarrow> string list" where
  "url_map_free m = map fst (concat (take (unat (um_size m)) (um_buckets m)))"

definition ref_map_free :: "ref_map \<Rightarrow> string list" where
  "ref_map_free m = map fst (concat (take (unat (rm_size m)) (rm_buckets m)))"

section \<open>File names\<close>

text \<open>The first \<open>.log\<close> in the name must be followed by nothing, or by a dot and digits.\<close>

definition is_log_file :: "string \<Rightarrow> bool" where
  "is_log_file name =
     (case strstr ''.log'' name of
        None \<Rightarrow> False
      | Some logpos \<Rightarrow>
        (case drop 4 logpos of
           [] \<Rightarrow> True
         | c # p \<Rightarrow> if c = CHR ''.'' then (if p = [] then False else list_all is_digit p) else False))"

text \<open>A directory entry: its name, and whether \<open>stat\<close> succeeds and finds a regular file.\<close>

type_synonym dirent = "string \<times> bool"

record file_list =
  fl_files :: "string list"
  fl_capacity :: nat

definition list_step :: "string \<Rightarrow> file_list \<Rightarrow> dirent \<Rightarrow> file_list cres" where
  "list_step dir_path s ent =
     (if \<not> is_log_file (fst ent) then Inr s
      else
        let fullpath = dir_path @ ''/'' @ fst ent
        in if snd ent then
             let s = (if length (fl_files s) \<ge> fl_capacity s
                      then s\<lparr>fl_capacity := (if fl_capacity s \<noteq> 0 then fl_capacity s * 2 else 16)\<rparr> else s)
             in if length (fl_files s) < fl_capacity s
                then Inr (s\<lparr>fl_files := fl_files s @ [fullpath]\<rparr>) else Inl OutOfBounds
           else Inr s)"

fun list_loop :: "string \<Rightarrow> file_list \<Rightarrow> dirent list \<Rightarrow> file_list cres" where
  "list_loop dir_path s [] = Inr s"
| "list_loop dir_path s (e # es) = bindE (list_step dir_path s e) (\<lambda>s. list_loop dir_path s es)"

text \<open>The directory is \<open>None\<close> when it cannot be opened; the result is \<open>None\<close> for a null pointer.\<close>

definition list_files :: "string \<Rightarrow> dirent list option \<Rightarrow> string list option cres" where
  "list_files dir_path d =
     (case d of
        None \<Rightarrow> Inr None
      | Some es \<Rightarrow> bindE (list_loop dir_path \<lparr>fl_files = [], fl_capacity = 0\<rparr> es)
          (\<lambda>s. Inr (if fl_capacity s = 0 then None else Some (fl_files s))))"

section \<open>A line of the log\<close>

definition skip_spaces :: "string \<Rightarrow> string" where
  "skip_spaces p = dropWhile (\<lambda>c. c = CHR '' '') p"

definition atoll :: "string \<Rightarrow> u64" where
  "atoll p = word_of_int (fst (strtol10 p))"

definition starts_with_digit :: "string \<Rightarrow> bool" where
  "starts_with_digit p \<longleftrightarrow> (case p of [] \<Rightarrow> False | c # _ \<Rightarrow> is_digit c)"

text \<open>The result is the URL, the bytes and the referer; the code's 0 is \<open>None\<close>.\<close>

definition parse_log_line :: "string \<Rightarrow> (string \<times> u64 \<times> string) option" where
  "parse_log_line line = do {
     p \<leftarrow> strchr CHR '' '' line;
     p \<leftarrow> strchr CHR '' '' (tl p);
     p \<leftarrow> strchr CHR ''['' (tl p);
     p \<leftarrow> strchr CHR 0x22 p;
     method_end \<leftarrow> strchr CHR '' '' (tl p);
     let url_start = tl method_end;
     url_end \<leftarrow> strchr CHR '' '' url_start;
     let url_len = length url_start - length url_end;
     p \<leftarrow> strchr CHR 0x22 url_end;
     let p = skip_spaces (tl p);
     (if starts_with_digit p then Some () else None);
     p \<leftarrow> strchr CHR '' '' p;
     let p = skip_spaces (tl p);
     let bytes = (if p \<noteq> [] \<and> hd p = CHR ''-'' then 0 else atoll p);
     p \<leftarrow> strchr CHR 0x22 p;
     let ref_start = tl p;
     ref_end \<leftarrow> strchr CHR 0x22 ref_start;
     let ref_len = length ref_start - length ref_end;
     Some (take url_len url_start, bytes, take ref_len ref_start)
   }"

text \<open>Percent decoding; the text is read at \<open>i + 1\<close> and \<open>i + 2\<close> only where these are inside.\<close>

fun url_decode :: "string \<Rightarrow> string" where
  "url_decode [] = []"
| "url_decode (c # s) =
     (if c = CHR ''+'' then CHR '' '' # url_decode s
      else if c = CHR ''%'' then
        (case s of
           a # b # s' \<Rightarrow>
             (case (hex_val a, hex_val b) of
                (Some x, Some y) \<Rightarrow> char_of (16 * x + y) # url_decode s'
              | _ \<Rightarrow> c # url_decode s)
         | _ \<Rightarrow> c # url_decode s)
      else c # url_decode s)"

section \<open>The pool of workers\<close>

text \<open>
  Where a worker stands. What it does between two of these points touches only its own data, or
  is one section under a mutex. A worker that has been woken is at \<open>Top\<close> again: it tests the same
  condition there.
\<close>

datatype pc =
    Top                                  \<comment> \<open>about to lock the queue\<close>
  | Waiting                              \<comment> \<open>inside \<open>pthread_cond_wait\<close>\<close>
  | Reading string                       \<comment> \<open>about to call \<open>fgets\<close>; what is left of the file\<close>
  | AddUrl string u64 string string      \<comment> \<open>about to call \<open>url_map_add\<close>: URL, bytes, referer, rest\<close>
  | IncRef string string                 \<comment> \<open>about to call \<open>ref_map_inc\<close>: referer, rest\<close>
  | Exited

record lr_state =
  q_files :: "string list"
  q_count :: int
  q_next :: int
  q_finished :: bool
  total_bytes :: u64
  urls :: url_map
  refs :: ref_map
  workers :: "pc list"
  main_signalled :: bool                 \<comment> \<open>\<open>main\<close> is past its test of \<open>file_count\<close>\<close>

definition set_pc :: "nat \<Rightarrow> pc \<Rightarrow> lr_state \<Rightarrow> lr_state" where
  "set_pc i p s = s\<lparr>workers := (workers s)[i := p]\<rparr>"

definition wake :: "pc \<Rightarrow> pc" where
  "wake p = (if p = Waiting then Top else p)"

definition finish_queue :: "lr_state \<Rightarrow> lr_state" where
  "finish_queue s = s\<lparr>q_finished := True, workers := map wake (workers s)\<rparr>"

text \<open>\<open>fs\<close> is what \<open>fopen\<close> finds: nothing, or the contents of the file.\<close>

definition open_file :: "(string \<Rightarrow> string option) \<Rightarrow> string \<Rightarrow> pc" where
  "open_file fs filename = (case fs filename of None \<Rightarrow> Top | Some c \<Rightarrow> Reading c)"

definition take_file :: "(string \<Rightarrow> string option) \<Rightarrow> nat \<Rightarrow> lr_state \<Rightarrow> lr_state run" where
  "take_file fs i s =
     (let idx = q_next s;
          s = s\<lparr>q_next := q_next s + 1\<rparr>;
          s = (if idx = q_count s - 1 then finish_queue s else s)
      in if idx < 0 \<or> nat idx \<ge> length (q_files s) then Some (Inl OutOfBounds)
         else Some (Inr (set_pc i (open_file fs (q_files s ! nat idx)) s)))"

definition read_line :: "nat \<Rightarrow> string \<Rightarrow> lr_state \<Rightarrow> lr_state" where
  "read_line i r s =
     (case fgets MAX_LINE_LEN r of
        None \<Rightarrow> set_pc i Top s
      | Some (line, rest) \<Rightarrow>
        (case parse_log_line line of
           None \<Rightarrow> set_pc i (Reading rest) s
         | Some (url, bytes, referer) \<Rightarrow>
           if bytes > 0
           then set_pc i (AddUrl url bytes referer rest) (s\<lparr>total_bytes := total_bytes s + bytes\<rparr>)
           else set_pc i (IncRef referer rest) s))"

text \<open>One step of worker \<open>i\<close>; \<open>None\<close> when it waits or has returned.\<close>

definition worker_step :: "(string \<Rightarrow> string option) \<Rightarrow> nat \<Rightarrow> lr_state \<Rightarrow> lr_state run" where
  "worker_step fs i s =
     (case workers s ! i of
        Top \<Rightarrow>
          if q_next s \<ge> q_count s \<and> \<not> q_finished s then Some (Inr (set_pc i Waiting s))
          else if q_finished s \<and> q_next s \<ge> q_count s then Some (Inr (set_pc i Exited s))
          else take_file fs i s
      | Waiting \<Rightarrow> None
      | Reading r \<Rightarrow> Some (Inr (read_line i r s))
      | AddUrl url bytes referer rest \<Rightarrow>
          bindR (url_map_add (urls s) url bytes)
            (\<lambda>m. Some (Inr (set_pc i (IncRef referer rest) (s\<lparr>urls := m\<rparr>))))
      | IncRef referer rest \<Rightarrow>
          bindR (ref_map_inc (refs s) referer)
            (\<lambda>m. Some (Inr (set_pc i (Reading rest) (s\<lparr>refs := m\<rparr>))))
      | Exited \<Rightarrow> None)"

definition main_step :: "lr_state \<Rightarrow> lr_state" where
  "main_step s =
     (let s' = (if q_count s = 0 then finish_queue s else s) in s'\<lparr>main_signalled := True\<rparr>)"

text \<open>The steps of the whole program; \<open>spurious\<close> is a wake-up without a broadcast.\<close>

inductive lr_step :: "(string \<Rightarrow> string option) \<Rightarrow> lr_state cres \<Rightarrow> lr_state cres \<Rightarrow> bool" for fs where
  worker: "i < length (workers s) \<Longrightarrow> worker_step fs i s = Some r \<Longrightarrow> lr_step fs (Inr s) r"
| signal: "\<not> main_signalled s \<Longrightarrow> lr_step fs (Inr s) (Inr (main_step s))"
| spurious: "i < length (workers s) \<Longrightarrow> workers s ! i = Waiting \<Longrightarrow> lr_step fs (Inr s) (Inr (set_pc i Top s))"

inductive_cases lr_stepE: "lr_step fs (Inr s) r"

definition all_exited :: "lr_state \<Rightarrow> bool" where
  "all_exited s \<longleftrightarrow> list_all (\<lambda>p. p = Exited) (workers s)"

section \<open>The report\<close>

definition cmp_url :: "string \<times> u64 \<Rightarrow> string \<times> u64 \<Rightarrow> int" where
  "cmp_url ea eb = (if snd eb > snd ea then 1 else if snd eb < snd ea then -1 else 0)"

definition cmp_ref :: "string \<times> u32 \<Rightarrow> string \<times> u32 \<Rightarrow> int" where
  "cmp_ref ea eb = sint (snd eb - snd ea)"

text \<open>An empty table gives a null pointer.\<close>

definition collect_urls :: "url_map \<Rightarrow> (string \<times> u64) list option" where
  "collect_urls m =
     (let arr = concat (take (unat (um_size m)) (um_buckets m)) in if arr = [] then None else Some arr)"

definition collect_refs :: "ref_map \<Rightarrow> (string \<times> u32) list option" where
  "collect_refs m =
     (let arr = concat (take (unat (rm_size m)) (rm_buckets m)) in if arr = [] then None else Some arr)"

type_synonym 'a qsort = "('a \<Rightarrow> 'a \<Rightarrow> int) \<Rightarrow> 'a list \<Rightarrow> 'a list"

record report =
  r_total :: u64
  r_urls :: "(u64 \<times> string) list option"
  r_refs :: "(int \<times> string) list option"

definition log_report :: "(string \<times> u64) qsort \<Rightarrow> (string \<times> u32) qsort \<Rightarrow> lr_state \<Rightarrow> report" where
  "log_report qsort_url qsort_ref s =
     \<lparr>r_total = total_bytes s,
      r_urls = map_option (\<lambda>arr. map (\<lambda>e. (snd e, c_str (url_decode (fst e))))
        (take TOP_N (qsort_url cmp_url arr))) (collect_urls (urls s)),
      r_refs = map_option (\<lambda>arr. map (\<lambda>e. (sint (snd e), fst e))
        (take TOP_N (qsort_ref cmp_ref arr))) (collect_refs (refs s))\<rparr>"

section \<open>Start of the program\<close>

text \<open>What \<open>getopt\<close> returns: the option with its argument, or the question mark.\<close>

datatype log_opt = DirOpt string | ThreadsOpt string | BadOpt

fun log_options :: "log_opt list \<Rightarrow> string option \<times> int \<Rightarrow> (string option \<times> int) option" where
  "log_options [] a = Some a"
| "log_options (DirOpt d # os) (dir_path, n) = log_options os (Some d, n)"
| "log_options (ThreadsOpt t # os) (dir_path, n) =
     (case strtol10 t of (val, endptr) \<Rightarrow>
        if strtol_erange t \<or> endptr \<noteq> [] \<or> val \<le> 0 then None
        else log_options os (dir_path, val))"
| "log_options (BadOpt # os) a = None"

definition pool_start :: "string list \<Rightarrow> nat \<Rightarrow> lr_state" where
  "pool_start files num_threads =
     \<lparr>q_files = files, q_count = int (length files), q_next = 0, q_finished = False, total_bytes = 0,
      urls = url_map_init HASH_SIZE, refs = ref_map_init HASH_SIZE,
      workers = replicate num_threads Top, main_signalled = False\<rparr>"

text \<open>
  \<open>main\<close> up to the creation of the threads; \<open>None\<close> when it exits with a failure, which a negative
  number of threads gives when their array is allocated.
\<close>

definition log_start :: "log_opt list \<Rightarrow> (string \<Rightarrow> dirent list option) \<Rightarrow> lr_state option cres" where
  "log_start os dirs =
     (case log_options os (None, 1) of
        None \<Rightarrow> Inr None
      | Some (None, _) \<Rightarrow> Inr None
      | Some (Some dir_path, num_threads_l) \<Rightarrow>
          let num_threads = to_int32 num_threads_l
          in bindE (list_files dir_path (dirs dir_path)) (\<lambda>files.
               let files = (case files of None \<Rightarrow> [] | Some f \<Rightarrow> f)
               in if num_threads < 0 then Inr None
                  else Inr (Some (pool_start files (nat num_threads)))))"

definition started :: "log_opt list \<Rightarrow> (string \<Rightarrow> dirent list option) \<Rightarrow> lr_state cres \<Rightarrow> bool" where
  "started os dirs r \<longleftrightarrow> (\<exists>s. log_start os dirs = Inr (Some s) \<and> r = Inr s)"

section \<open>The tables count\<close>

definition bucket_of :: "string \<Rightarrow> nat" where
  "bucket_of k = unat (hash k mod HASH_SIZE)"

definition buckets_ok :: "(string \<times> 'v) list list \<Rightarrow> bool" where
  "buckets_ok bs \<longleftrightarrow> length bs = 1024 \<and>
     (\<forall>i < 1024. distinct (map fst (bs ! i)) \<and> (\<forall>k \<in> set (map fst (bs ! i)). bucket_of k = i))"

definition bucket_look :: "(string \<times> 'v) list list \<Rightarrow> string \<Rightarrow> 'v option" where
  "bucket_look bs k = map_of (bs ! bucket_of k) k"

definition put_bucket :: "string \<Rightarrow> ('v \<Rightarrow> 'v) \<Rightarrow> 'v \<Rightarrow> (string \<times> 'v) list list \<Rightarrow> (string \<times> 'v) list list" where
  "put_bucket key f x bs =
     (let h = bucket_of key in
      case chain_update key f (bs ! h) of
        Some es \<Rightarrow> bs[h := es] | None \<Rightarrow> bs[h := (key, x) # bs ! h])"

lemma bucket_of_less [simp]: "bucket_of k < 1024"
  using unat_mono [OF word_mod_less_divisor, of "1024 :: u64" "hash k"]
  by (simp add: bucket_of_def HASH_SIZE_def)

lemma chain_update_None: "chain_update key f es = None \<longleftrightarrow> key \<notin> set (map fst es)"
  by (induction key f es rule: chain_update.induct) auto

lemma chain_update_Some:
  "chain_update key f es = Some es' \<Longrightarrow>
   map fst es' = map fst es \<and> (\<exists>v. map_of es key = Some v \<and> map_of es' = (map_of es)(key \<mapsto> f v))"
  by (induction key f es arbitrary: es' rule: chain_update.induct)
    (auto split: if_splits simp: fun_eq_iff)

lemma put_bucket_ok:
  assumes "buckets_ok bs"
  shows "buckets_ok (put_bucket key f x bs)"
proof -
  have len: "length bs = 1024" using assms by (simp add: buckets_ok_def)
  have old: "distinct (map fst (bs ! i)) \<and> (\<forall>k \<in> set (map fst (bs ! i)). bucket_of k = i)"
    if "i < 1024" for i using assms that by (simp add: buckets_ok_def)
  show ?thesis
  proof (cases "chain_update key f (bs ! bucket_of key)")
    case None
    then have "key \<notin> set (map fst (bs ! bucket_of key))" by (simp add: chain_update_None)
    then show ?thesis
      using None len old by (auto simp: put_bucket_def buckets_ok_def Let_def nth_list_update)
  next
    case (Some es)
    then have "map fst es = map fst (bs ! bucket_of key)" using chain_update_Some by blast
    then have "map fst (bs[bucket_of key := es] ! i) = map fst (bs ! i)" if "i < 1024" for i
      using that len by (simp add: nth_list_update)
    then show ?thesis
      using Some len old by (simp add: put_bucket_def buckets_ok_def Let_def)
  qed
qed

lemma put_bucket_look:
  assumes "buckets_ok bs"
  shows "bucket_look (put_bucket key f x bs) =
    (bucket_look bs)(key \<mapsto> (case bucket_look bs key of None \<Rightarrow> x | Some v \<Rightarrow> f v))"
proof
  fix k
  have len: "length bs = 1024" using assms by (simp add: buckets_ok_def)
  show "bucket_look (put_bucket key f x bs) k =
    ((bucket_look bs)(key \<mapsto> (case bucket_look bs key of None \<Rightarrow> x | Some v \<Rightarrow> f v))) k"
  proof (cases "chain_update key f (bs ! bucket_of key)")
    case None
    then have "map_of (bs ! bucket_of key) key = None"
      by (simp add: chain_update_None map_of_eq_None_iff)
    then show ?thesis
      using None len by (auto simp: put_bucket_def bucket_look_def Let_def nth_list_update)
  next
    case (Some es)
    then obtain v where "map_of (bs ! bucket_of key) key = Some v"
        "map_of es = (map_of (bs ! bucket_of key))(key \<mapsto> f v)"
      using chain_update_Some by blast
    then show ?thesis
      using Some len by (auto simp: put_bucket_def bucket_look_def Let_def nth_list_update)
  qed
qed

lemma buckets_distinct_upto:
  assumes "buckets_ok bs" and "n \<le> 1024"
  shows "distinct (map fst (concat (take n bs))) \<and>
    (\<forall>k \<in> set (map fst (concat (take n bs))). bucket_of k < n)"
  using assms(2)
proof (induction n)
  case (Suc n)
  have "take (Suc n) bs = take n bs @ [bs ! n]"
    using Suc.prems assms(1) by (simp add: buckets_ok_def take_Suc_conv_app_nth)
  moreover have "distinct (map fst (bs ! n)) \<and> (\<forall>k \<in> set (map fst (bs ! n)). bucket_of k = n)"
    using Suc.prems assms(1) by (simp add: buckets_ok_def)
  moreover have "distinct (map fst (concat (take n bs)))"
      "\<forall>k \<in> set (map fst (concat (take n bs))). bucket_of k < n" using Suc by auto
  ultimately show ?case by fastforce
qed simp

lemma buckets_entries:
  assumes "buckets_ok bs"
  shows "distinct (map fst (concat bs))" "map_of (concat bs) = bucket_look bs"
proof -
  have len: "length bs = 1024" using assms by (simp add: buckets_ok_def)
  show dist: "distinct (map fst (concat bs))"
    using buckets_distinct_upto [OF assms, of 1024] len by simp
  have "(k, v) \<in> set (concat bs) \<longleftrightarrow> bucket_look bs k = Some v" for k v
  proof -
    have "(k, v) \<in> set (concat bs) \<longleftrightarrow> (\<exists>i < 1024. (k, v) \<in> set (bs ! i))"
      using len by (simp add: Bex_def) (metis in_set_conv_nth)
    also have "\<dots> \<longleftrightarrow> (k, v) \<in> set (bs ! bucket_of k)"
      using assms by (force simp: buckets_ok_def)
    also have "\<dots> \<longleftrightarrow> bucket_look bs k = Some v"
      using assms by (simp add: bucket_look_def buckets_ok_def)
    finally show ?thesis .
  qed
  then have "map_of (concat bs) k = Some v \<longleftrightarrow> bucket_look bs k = Some v" for k v
    using dist by simp
  then show "map_of (concat bs) = bucket_look bs"
    by (intro ext) (metis not_None_eq)
qed

lemma buckets_ok_empty: "buckets_ok (replicate 1024 [])"
  by (simp add: buckets_ok_def)

lemma bucket_look_empty: "bucket_look (replicate 1024 []) = Map.empty"
  by (simp add: bucket_look_def fun_eq_iff)

definition urls_ok :: "url_map \<Rightarrow> bool" where
  "urls_ok m \<longleftrightarrow> um_size m = HASH_SIZE \<and> buckets_ok (um_buckets m)"

definition refs_ok :: "ref_map \<Rightarrow> bool" where
  "refs_ok m \<longleftrightarrow> rm_size m = HASH_SIZE \<and> buckets_ok (rm_buckets m)"

lemma url_map_add_put:
  assumes "urls_ok m" and "bytes \<noteq> 0"
  shows "url_map_add m key bytes =
    Some (Inr (m\<lparr>um_buckets := put_bucket key (\<lambda>b. b + bytes) bytes (um_buckets m)\<rparr>))"
proof -
  have "length (um_buckets m) = 1024" "unat (hash key mod um_size m) = bucket_of key"
    using assms(1) by (simp_all add: urls_ok_def buckets_ok_def bucket_of_def)
  then show ?thesis
    using assms(2) bucket_of_less [of key]
    by (simp add: url_map_add_def put_bucket_def Let_def not_le split: option.split)
qed

lemma ref_map_inc_put:
  assumes "refs_ok m"
  shows "ref_map_inc m key =
    Some (Inr (m\<lparr>rm_buckets := put_bucket key (\<lambda>c. c + 1) 1 (rm_buckets m)\<rparr>))"
proof -
  have "length (rm_buckets m) = 1024" "unat (hash key mod rm_size m) = bucket_of key"
    using assms(1) by (simp_all add: refs_ok_def buckets_ok_def bucket_of_def)
  then show ?thesis
    using bucket_of_less [of key]
    by (simp add: ref_map_inc_def put_bucket_def Let_def not_le split: option.split)
qed

interpretation url_tally: tally urls_ok "\<lambda>_ xs. \<forall>x \<in> set xs. snd x \<noteq> 0"
  "\<lambda>m x. url_map_add m (fst x) (snd x)" "\<lambda>m. bucket_look (um_buckets m)" fst snd
proof unfold_locales
  fix m :: url_map and x :: "string \<times> u64" and xs
  assume "urls_ok m" and "\<forall>y \<in> set (x # xs). snd y \<noteq> 0"
  then show "\<exists>m'. url_map_add m (fst x) (snd x) = Some (Inr m') \<and> urls_ok m' \<and>
      (\<forall>y \<in> set xs. snd y \<noteq> 0) \<and> bucket_look (um_buckets m') = (bucket_look (um_buckets m))
        (fst x \<mapsto> (case bucket_look (um_buckets m) (fst x) of None \<Rightarrow> snd x | Some v \<Rightarrow> v + snd x))"
    by (simp add: url_map_add_put) (simp add: urls_ok_def put_bucket_ok put_bucket_look)
qed

interpretation ref_tally: tally refs_ok "\<lambda>_ _. True" ref_map_inc "\<lambda>m. bucket_look (rm_buckets m)"
  "\<lambda>r. r" "\<lambda>_. 1"
proof unfold_locales
  fix m :: ref_map and x :: string and xs :: "string list"
  assume "refs_ok m"
  then show "\<exists>m'. ref_map_inc m x = Some (Inr m') \<and> refs_ok m' \<and> True \<and>
      bucket_look (rm_buckets m') = (bucket_look (rm_buckets m))
        (x \<mapsto> (case bucket_look (rm_buckets m) x of None \<Rightarrow> 1 | Some v \<Rightarrow> v + 1))"
    by (simp add: ref_map_inc_put) (simp add: refs_ok_def put_bucket_ok put_bucket_look)
qed

lemma url_map_init_ok: "urls_ok (url_map_init HASH_SIZE)"
    "bucket_look (um_buckets (url_map_init HASH_SIZE)) = Map.empty"
  and ref_map_init_ok: "refs_ok (ref_map_init HASH_SIZE)"
    "bucket_look (rm_buckets (ref_map_init HASH_SIZE)) = Map.empty"
  by (simp_all add: urls_ok_def url_map_init_def refs_ok_def ref_map_init_def HASH_SIZE_def
      buckets_ok_empty bucket_look_empty)

section \<open>What the files hold\<close>

function file_records :: "string \<Rightarrow> (string \<times> u64 \<times> string) list" where
  "file_records c =
     (case fgets MAX_LINE_LEN c of
        None \<Rightarrow> []
      | Some (line, rest) \<Rightarrow>
          (case parse_log_line line of None \<Rightarrow> [] | Some x \<Rightarrow> [x]) @ file_records rest)"
  by pat_completeness auto
termination
  by (relation "measure length") (auto dest: fgets_shorter simp: MAX_LINE_LEN_def)

declare file_records.simps [simp del]

definition all_records :: "(string \<Rightarrow> string option) \<Rightarrow> string list \<Rightarrow> (string \<times> u64 \<times> string) list" where
  "all_records fs files =
     concat (map (\<lambda>f. case fs f of None \<Rightarrow> [] | Some c \<Rightarrow> file_records c) files)"

definition rec_bytes :: "string \<times> u64 \<times> string \<Rightarrow> u64" where
  "rec_bytes x = fst (snd x)"

text \<open>The records that count for the URLs: those with a size.\<close>

definition url_recs :: "(string \<times> u64 \<times> string) list \<Rightarrow> (string \<times> u64) list" where
  "url_recs xs = map (\<lambda>x. (fst x, rec_bytes x)) (filter (\<lambda>x. rec_bytes x \<noteq> 0) xs)"

definition ref_recs :: "(string \<times> u64 \<times> string) list \<Rightarrow> string list" where
  "ref_recs xs = map (\<lambda>x. snd (snd x)) xs"

lemma recs_simps [simp]:
  "url_recs [] = []" "ref_recs [] = []"
  "url_recs (xs @ ys) = url_recs xs @ url_recs ys" "ref_recs (xs @ ys) = ref_recs xs @ ref_recs ys"
  "url_recs ((u, b, r) # xs) = (if b = 0 then [] else [(u, b)]) @ url_recs xs"
  "ref_recs ((u, b, r) # xs) = r # ref_recs xs"
  by (simp_all add: url_recs_def ref_recs_def rec_bytes_def)

section \<open>What is still to be counted\<close>

definition bytes_todo :: "pc \<Rightarrow> u64" where
  "bytes_todo p = (case p of
     Reading r \<Rightarrow> sum_list (map rec_bytes (file_records r))
   | AddUrl u b f r \<Rightarrow> sum_list (map rec_bytes (file_records r))
   | IncRef f r \<Rightarrow> sum_list (map rec_bytes (file_records r))
   | _ \<Rightarrow> 0)"

definition urls_todo :: "pc \<Rightarrow> (string \<times> u64) multiset" where
  "urls_todo p = (case p of
     Reading r \<Rightarrow> mset (url_recs (file_records r))
   | AddUrl u b f r \<Rightarrow> add_mset (u, b) (mset (url_recs (file_records r)))
   | IncRef f r \<Rightarrow> mset (url_recs (file_records r))
   | _ \<Rightarrow> {#})"

definition refs_todo :: "pc \<Rightarrow> string multiset" where
  "refs_todo p = (case p of
     Reading r \<Rightarrow> mset (ref_recs (file_records r))
   | AddUrl u b f r \<Rightarrow> add_mset f (mset (ref_recs (file_records r)))
   | IncRef f r \<Rightarrow> add_mset f (mset (ref_recs (file_records r)))
   | _ \<Rightarrow> {#})"

lemmas todo_defs = bytes_todo_def urls_todo_def refs_todo_def

text \<open>What the workers hold and what the files not yet taken will give.\<close>

definition todo :: "(string \<Rightarrow> string option) \<Rightarrow> (pc \<Rightarrow> 'a::comm_monoid_add) \<Rightarrow> lr_state \<Rightarrow> 'a" where
  "todo fs g s = sum_list (map g (workers s)) +
     sum_list (map (\<lambda>f. g (open_file fs f)) (drop (nat (q_next s)) (q_files s)))"

lemma add_frame:
  fixes a b c d z :: "'a::comm_monoid_add"
  assumes "a + b = c + d"
  shows "(a + z) + b = (c + z) + d"
proof -
  have "(a + z) + b = (a + b) + z" by (simp add: ac_simps)
  then show ?thesis unfolding assms by (simp add: ac_simps)
qed

lemma set_pc_simps [simp]:
  "q_files (set_pc i p s) = q_files s" "q_count (set_pc i p s) = q_count s"
  "q_next (set_pc i p s) = q_next s" "q_finished (set_pc i p s) = q_finished s"
  "total_bytes (set_pc i p s) = total_bytes s" "urls (set_pc i p s) = urls s"
  "refs (set_pc i p s) = refs s" "main_signalled (set_pc i p s) = main_signalled s"
  "workers (set_pc i p s) = (workers s)[i := p]"
  by (simp_all add: set_pc_def)

lemma finish_queue_simps [simp]:
  "q_files (finish_queue s) = q_files s" "q_count (finish_queue s) = q_count s"
  "q_next (finish_queue s) = q_next s" "q_finished (finish_queue s) = True"
  "total_bytes (finish_queue s) = total_bytes s" "urls (finish_queue s) = urls s"
  "refs (finish_queue s) = refs s" "main_signalled (finish_queue s) = main_signalled s"
  "workers (finish_queue s) = map wake (workers s)"
  by (simp_all add: finish_queue_def)

lemma todo_set_pc:
  assumes "i < length (workers s)"
  shows "todo fs g (set_pc i p s) + g (workers s ! i) = todo fs g s + g p"
  using add_frame [OF sum_list_swap [OF assms, of g p]] by (simp add: todo_def)

lemma todo_wake:
  assumes "g Waiting = g Top"
  shows "todo fs g (finish_queue s) = todo fs g s"
proof -
  have "g (wake p) = g p" for p using assms by (simp add: wake_def)
  then show ?thesis by (simp add: todo_def comp_def)
qed

lemma todo_cong:
  "workers s' = workers s \<Longrightarrow> q_next s' = q_next s \<Longrightarrow> q_files s' = q_files s \<Longrightarrow>
   todo fs g s' = todo fs g s"
  by (simp add: todo_def)

text \<open>Taking a file moves what it gives from the queue to the worker.\<close>

lemma todo_next:
  assumes "i < length (workers s)" and "workers s ! i = Top" and "0 \<le> q_next s"
    and "nat (q_next s) < length (q_files s)"
  shows "todo fs g (set_pc i (open_file fs (q_files s ! nat (q_next s))) (s\<lparr>q_next := q_next s + 1\<rparr>)) + g Top
    = todo fs g s"
proof -
  let ?n = "nat (q_next s)"
  have "drop ?n (q_files s) = (q_files s ! ?n) # drop (Suc ?n) (q_files s)"
    using assms(4) by (simp add: Cons_nth_drop_Suc)
  moreover have "nat (q_next s + 1) = Suc ?n" using assms(3) by simp
  ultimately show ?thesis
    using add_frame [OF sum_list_swap [OF assms(1), of g "open_file fs (q_files s ! ?n)"]] assms(2)
    by (simp add: todo_def) (simp add: ac_simps)
qed

section \<open>The invariant of the pool\<close>

definition pool_ok :: "string list \<Rightarrow> lr_state \<Rightarrow> bool" where
  "pool_ok files s \<longleftrightarrow>
     q_files s = files \<and> q_count s = int (length files) \<and> 0 \<le> q_next s \<and> q_next s \<le> q_count s \<and>
     (q_finished s \<longleftrightarrow> q_next s = q_count s \<and> (files \<noteq> [] \<or> main_signalled s)) \<and>
     (Exited \<in> set (workers s) \<longrightarrow> q_finished s) \<and> (Waiting \<in> set (workers s) \<longrightarrow> \<not> q_finished s \<and> q_next s = q_count s)"

abbreviation add_url :: "url_map \<Rightarrow> string \<times> u64 \<Rightarrow> url_map run" where
  "add_url m x \<equiv> url_map_add m (fst x) (snd x)"

definition counted :: "(string \<Rightarrow> string option) \<Rightarrow> string list \<Rightarrow> lr_state \<Rightarrow> bool" where
  "counted fs files s \<longleftrightarrow>
     total_bytes s + todo fs bytes_todo s = sum_list (map rec_bytes (all_records fs files)) \<and>
     (\<exists>h. (\<forall>x \<in> set h. snd x \<noteq> 0) \<and> bump_all add_url (url_map_init HASH_SIZE) h = Some (Inr (urls s)) \<and>
        mset h + todo fs urls_todo s = mset (url_recs (all_records fs files))) \<and>
     (\<exists>h. bump_all ref_map_inc (ref_map_init HASH_SIZE) h = Some (Inr (refs s)) \<and>
        mset h + todo fs refs_todo s = mset (ref_recs (all_records fs files)))"

definition lr_inv :: "(string \<Rightarrow> string option) \<Rightarrow> string list \<Rightarrow> nat \<Rightarrow> lr_state cres \<Rightarrow> bool" where
  "lr_inv fs files n r \<longleftrightarrow>
     (\<exists>s. r = Inr s \<and> pool_ok files s \<and> counted fs files s \<and> length (workers s) = n)"

lemma file_records_None: "fgets MAX_LINE_LEN r = None \<Longrightarrow> file_records r = []"
  by (simp add: file_records.simps [of r])

lemma file_records_Some:
  "fgets MAX_LINE_LEN r = Some (line, rest) \<Longrightarrow>
   file_records r = (case parse_log_line line of None \<Rightarrow> [] | Some x \<Rightarrow> [x]) @ file_records rest"
  by (simp add: file_records.simps [of r])

lemma todo_idle [simp]:
  "bytes_todo Top = 0" "bytes_todo Waiting = 0" "bytes_todo Exited = 0"
  "urls_todo Top = {#}" "urls_todo Waiting = {#}" "urls_todo Exited = {#}"
  "refs_todo Top = {#}" "refs_todo Waiting = {#}" "refs_todo Exited = {#}"
  by (simp_all add: todo_defs)

lemma todo_all:
  "sum_list (map (\<lambda>f. bytes_todo (open_file fs f)) files) = sum_list (map rec_bytes (all_records fs files))"
  "sum_list (map (\<lambda>f. urls_todo (open_file fs f)) files) = mset (url_recs (all_records fs files))"
  "sum_list (map (\<lambda>f. refs_todo (open_file fs f)) files) = mset (ref_recs (all_records fs files))"
proof (induction files)
  case (Cons f files)
  { case 1 show ?case using Cons(1) by (simp add: all_records_def open_file_def todo_defs split: option.split) }
  { case 2 show ?case using Cons(2) by (simp add: all_records_def open_file_def todo_defs split: option.split) }
  { case 3 show ?case using Cons(3) by (simp add: all_records_def open_file_def todo_defs split: option.split) }
qed (simp_all add: all_records_def)

text \<open>A worker that has done part of its work: what it has done has left its to-do list.\<close>

lemma counted_step:
  assumes ok: "counted fs files s" and i: "i < length (workers s)"
    and b: "db + bytes_todo p = bytes_todo (workers s ! i)"
    and u: "mset du + urls_todo p = urls_todo (workers s ! i)"
    and r: "mset dr + refs_todo p = refs_todo (workers s ! i)"
    and runs: "bump_all add_url (urls s) du = Some (Inr um)" "bump_all ref_map_inc (refs s) dr = Some (Inr rm)"
    and pos: "\<forall>x \<in> set du. snd x \<noteq> 0"
  shows "counted fs files (set_pc i p (s\<lparr>total_bytes := total_bytes s + db, urls := um, refs := rm\<rparr>))"
proof -
  let ?s = "s\<lparr>total_bytes := total_bytes s + db, urls := um, refs := rm\<rparr>"
  have same: "todo fs g ?s = todo fs g s" for g :: "pc \<Rightarrow> 'a::comm_monoid_add"
    by (rule todo_cong) simp_all
  have mv: "todo fs g (set_pc i p ?s) + g (workers s ! i) = todo fs g s + g p"
    for g :: "pc \<Rightarrow> 'a::comm_monoid_add"
    using todo_set_pc [of i ?s fs g p] i same [of g] by simp
  have tb: "todo fs bytes_todo (set_pc i p ?s) + db = todo fs bytes_todo s"
    using mv [of bytes_todo] unfolding b [symmetric] by (simp add: algebra_simps)
  have tu: "todo fs urls_todo (set_pc i p ?s) + mset du = todo fs urls_todo s"
    using mv [of urls_todo] unfolding u [symmetric] by (simp add: algebra_simps)
  have tr: "todo fs refs_todo (set_pc i p ?s) + mset dr = todo fs refs_todo s"
    using mv [of refs_todo] unfolding r [symmetric] by (simp add: algebra_simps)
  obtain hu where hu: "\<forall>x \<in> set hu. snd x \<noteq> 0"
      "bump_all add_url (url_map_init HASH_SIZE) hu = Some (Inr (urls s))"
      "mset hu + todo fs urls_todo s = mset (url_recs (all_records fs files))"
    using ok unfolding counted_def by blast
  obtain hr where hr: "bump_all ref_map_inc (ref_map_init HASH_SIZE) hr = Some (Inr (refs s))"
      "mset hr + todo fs refs_todo s = mset (ref_recs (all_records fs files))"
    using ok unfolding counted_def by blast
  have "total_bytes s + db + todo fs bytes_todo (set_pc i p ?s) =
      sum_list (map rec_bytes (all_records fs files))"
  proof -
    have "total_bytes s + todo fs bytes_todo s = sum_list (map rec_bytes (all_records fs files))"
      using ok by (simp add: counted_def)
    then show ?thesis unfolding tb [symmetric] by (simp add: ac_simps)
  qed
  moreover have "\<exists>h. (\<forall>x \<in> set h. snd x \<noteq> 0) \<and>
      bump_all add_url (url_map_init HASH_SIZE) h = Some (Inr um) \<and>
      mset h + todo fs urls_todo (set_pc i p ?s) = mset (url_recs (all_records fs files))"
  proof (intro exI [of _ "hu @ du"] conjI)
    show "mset (hu @ du) + todo fs urls_todo (set_pc i p ?s) = mset (url_recs (all_records fs files))"
      using hu(3) unfolding tu [symmetric] by (simp add: ac_simps)
  qed (use hu pos runs(1) in \<open>auto simp: bump_all_append\<close>)
  moreover have "\<exists>h. bump_all ref_map_inc (ref_map_init HASH_SIZE) h = Some (Inr rm) \<and>
      mset h + todo fs refs_todo (set_pc i p ?s) = mset (ref_recs (all_records fs files))"
  proof (intro exI [of _ "hr @ dr"] conjI)
    show "mset (hr @ dr) + todo fs refs_todo (set_pc i p ?s) = mset (ref_recs (all_records fs files))"
      using hr(2) unfolding tr [symmetric] by (simp add: ac_simps)
  qed (use hr runs(2) in \<open>auto simp: bump_all_append\<close>)
  ultimately show ?thesis by (simp add: counted_def)
qed

text \<open>A step inside a worker, which adds \<open>db\<close> to the total at most.\<close>

lemma counted_local:
  assumes "counted fs files s" "i < length (workers s)"
    and "db + bytes_todo p = bytes_todo (workers s ! i)"
    and "urls_todo p = urls_todo (workers s ! i)" "refs_todo p = refs_todo (workers s ! i)"
  shows "counted fs files (set_pc i p (s\<lparr>total_bytes := total_bytes s + db\<rparr>))"
  using counted_step [OF assms(1-3), of "[]" "[]" "urls s" "refs s"] assms(4,5) by simp

lemma counted_silent:
  assumes "counted fs files s" "i < length (workers s)"
    and "bytes_todo p = bytes_todo (workers s ! i)"
    and "urls_todo p = urls_todo (workers s ! i)" "refs_todo p = refs_todo (workers s ! i)"
  shows "counted fs files (set_pc i p s)"
  using counted_local [OF assms(1,2), of 0 p] assms(3-5) by simp

lemma counted_cong:
  assumes "counted fs files s"
    and "todo fs bytes_todo s' = todo fs bytes_todo s" "todo fs urls_todo s' = todo fs urls_todo s"
      "todo fs refs_todo s' = todo fs refs_todo s"
    and "total_bytes s' = total_bytes s" "urls s' = urls s" "refs s' = refs s"
  shows "counted fs files s'"
  using assms by (simp add: counted_def)

lemma read_line_counted:
  assumes "counted fs files s" and "i < length (workers s)" and pc: "workers s ! i = Reading r"
  shows "counted fs files (read_line i r s)"
proof (cases "fgets MAX_LINE_LEN r")
  case None
  then have "file_records r = []" by (rule file_records_None)
  then show ?thesis
    using counted_silent [OF assms(1,2), of Top] pc None
    by (simp add: read_line_def todo_defs)
next
  case (Some lr)
  obtain line rest where lr: "lr = (line, rest)" by fastforce
  note recs = file_records_Some [OF Some [unfolded lr]]
  show ?thesis
  proof (cases "parse_log_line line")
    case None
    then show ?thesis
      using counted_silent [OF assms(1,2), of "Reading rest"] pc Some lr recs
      by (simp add: read_line_def todo_defs)
  next
    case (Some x)
    obtain url bytes referer where x: "x = (url, bytes, referer)" by (cases x)
    show ?thesis
    proof (cases "bytes = 0")
      case True
      then show ?thesis
        using counted_silent [OF assms(1,2), of "IncRef referer rest"] pc
          \<open>fgets MAX_LINE_LEN r = Some lr\<close> lr recs Some x
        by (simp add: read_line_def todo_defs rec_bytes_def)
    next
      case False
      then have "bytes > 0" by (simp add: word_neq_0_conv)
      then show ?thesis
        using counted_local [OF assms(1,2), of bytes "AddUrl url bytes referer rest"] pc
          \<open>fgets MAX_LINE_LEN r = Some lr\<close> lr recs Some x False
        by (simp add: read_line_def todo_defs rec_bytes_def)
    qed
  qed
qed

lemma read_line_simps [simp]:
  "q_files (read_line i r s) = q_files s" "q_count (read_line i r s) = q_count s"
  "q_next (read_line i r s) = q_next s" "q_finished (read_line i r s) = q_finished s"
  "main_signalled (read_line i r s) = main_signalled s"
  "\<exists>p. workers (read_line i r s) = (workers s)[i := p] \<and> p \<noteq> Waiting \<and> p \<noteq> Exited"
  by (auto simp: read_line_def split: option.split prod.split)

lemma set_update_in: "x \<in> set (xs[i := y]) \<Longrightarrow> x = y \<or> x \<in> set xs"
  using set_update_subset_insert [of xs i y] by auto

lemma pool_ok_workers:
  assumes "pool_ok files s"
    and "q_files t = q_files s" "q_count t = q_count s" "q_next t = q_next s"
      "q_finished t = q_finished s" "main_signalled t = main_signalled s"
    and "workers t = (workers s)[i := p]" "p = Exited \<longrightarrow> q_finished s" "p = Waiting \<longrightarrow> \<not> q_finished s \<and> q_next s = q_count s"
  shows "pool_ok files t"
  using assms set_update_in [of Exited "workers s" i p] set_update_in [of Waiting "workers s" i p]
  unfolding pool_ok_def by auto

lemma pool_ok_set_pc:
  assumes "pool_ok files s" "p = Exited \<longrightarrow> q_finished s"
    "p = Waiting \<longrightarrow> \<not> q_finished s \<and> q_next s = q_count s"
  shows "pool_ok files (set_pc i p s)"
  by (rule pool_ok_workers [OF assms(1) _ _ _ _ _ _ assms(2,3)]) simp_all

lemma wake_not_waiting: "Waiting \<notin> set (map wake ws)" "Exited \<in> set (map wake ws) \<longleftrightarrow> Exited \<in> set ws"
  by (auto simp: wake_def image_iff)

text \<open>The next file is inside the array, and the queue is finished exactly when it was the last.\<close>

lemma take_file_inv:
  assumes ok: "pool_ok files s" "counted fs files s" and i: "i < length (workers s)" "workers s ! i = Top"
    and more: "q_next s < q_count s"
  shows "\<exists>t. take_file fs i s = Some (Inr t) \<and> pool_ok files t \<and> counted fs files t"
proof -
  let ?f = "open_file fs (files ! nat (q_next s))"
  define s1 where "s1 = s\<lparr>q_next := q_next s + 1\<rparr>"
  define s2 where "s2 = (if q_next s = q_count s - 1 then finish_queue s1 else s1)"
  have p: "q_files s = files" "q_count s = int (length files)" "0 \<le> q_next s" "\<not> q_finished s"
      "Exited \<notin> set (workers s)" "files \<noteq> []"
    using ok(1) more unfolding pool_ok_def by auto
  have inside: "nat (q_next s) < length files" using p more by simp
  have t: "take_file fs i s = Some (Inr (set_pc i ?f s2))"
    using p(1-3) inside unfolding take_file_def Let_def s2_def s1_def
    by (cases "q_next s = q_count s - 1") (simp_all add: less_le_not_le)
  have f: "?f \<noteq> Waiting" "?f \<noteq> Exited" by (simp_all add: open_file_def split: option.split)
  have pool: "pool_ok files (set_pc i ?f s2)"
    using p more f ok(1) wake_not_waiting [of "workers s"]
      set_update_in [of Exited "workers s2" i ?f] set_update_in [of Waiting "workers s2" i ?f]
    unfolding pool_ok_def s2_def s1_def by (auto simp del: set_map)
  have same: "todo fs g (set_pc i ?f s2) = todo fs g s" if "g Waiting = g Top" "g Top = 0"
    for g :: "pc \<Rightarrow> 'a::cancel_comm_monoid_add"
  proof -
    have "todo fs g s2 = todo fs g s1" using that(1) by (simp add: s2_def todo_wake)
    moreover have "g (workers s2 ! i) = g (workers s1 ! i)"
      using that(1) i by (simp add: s2_def s1_def wake_def)
    moreover have "i < length (workers s1)" "i < length (workers s2)"
      using i by (simp_all add: s2_def s1_def)
    ultimately have "todo fs g (set_pc i ?f s2) = todo fs g (set_pc i ?f s1)"
      using todo_set_pc [of i s2 fs g ?f] todo_set_pc [of i s1 fs g ?f] by (metis add_right_cancel)
    also have "\<dots> = todo fs g s"
      using todo_next [OF i p(3), of fs g] inside that(2) p(1) by (simp add: s1_def)
    finally show ?thesis .
  qed
  have "total_bytes s2 = total_bytes s" "urls s2 = urls s" "refs s2 = refs s"
    by (simp_all add: s2_def s1_def)
  then have "counted fs files (set_pc i ?f s2)"
    by (intro counted_cong [OF ok(2)]) (simp_all add: same)
  then show ?thesis using t pool by blast
qed

lemma counted_tables:
  assumes "counted fs files s"
  shows "urls_ok (urls s)" "refs_ok (refs s)"
proof -
  obtain h where h: "\<forall>x \<in> set h. snd x \<noteq> 0"
      "bump_all add_url (url_map_init HASH_SIZE) h = Some (Inr (urls s))"
    using assms unfolding counted_def by blast
  show "urls_ok (urls s)"
    using url_tally.tally_from_empty [OF url_map_init_ok(1) h(1) url_map_init_ok(2)] h(2) by auto
  obtain h where h: "bump_all ref_map_inc (ref_map_init HASH_SIZE) h = Some (Inr (refs s))"
    using assms unfolding counted_def by blast
  show "refs_ok (refs s)"
    using ref_tally.tally_from_empty [OF ref_map_init_ok(1) TrueI ref_map_init_ok(2), of h] h by auto
qed

lemma counted_positive:
  assumes "counted fs files s" "i < length (workers s)" "workers s ! i = AddUrl u b f r"
  shows "b \<noteq> 0"
proof -
  have "workers s = take i (workers s) @ AddUrl u b f r # drop (Suc i) (workers s)"
    using id_take_nth_drop [OF assms(2)] assms(3) by simp
  from arg_cong [OF this, of "\<lambda>ws. sum_list (map urls_todo ws)"]
  have "sum_list (map urls_todo (workers s)) = sum_list (map urls_todo (take i (workers s))) +
      (urls_todo (AddUrl u b f r) + sum_list (map urls_todo (drop (Suc i) (workers s))))" by simp
  then have "(u, b) \<in># todo fs urls_todo s" by (simp add: todo_def urls_todo_def)
  moreover obtain h where "mset h + todo fs urls_todo s = mset (url_recs (all_records fs files))"
    using assms(1) unfolding counted_def by blast
  ultimately have "(u, b) \<in># mset (url_recs (all_records fs files))" by (metis union_iff)
  then show ?thesis by (auto simp: url_recs_def)
qed

lemma worker_step_inv:
  assumes ok: "pool_ok files s" "counted fs files s" and i: "i < length (workers s)"
    and st: "worker_step fs i s = Some r"
  shows "\<exists>t. r = Inr t \<and> pool_ok files t \<and> counted fs files t"
proof -
  note tables = counted_tables [OF ok(2)]
  show ?thesis
  proof (cases "workers s ! i")
    case Top
    have idle: "counted fs files (set_pc i p s)" if "p = Waiting \<or> p = Exited" for p
      using counted_silent [OF ok(2) i, of p] Top that by auto
    consider "q_next s \<ge> q_count s" "\<not> q_finished s" | "q_next s \<ge> q_count s" "q_finished s"
      | "q_next s < q_count s" by linarith
    then show ?thesis
    proof cases
      case 3
      then show ?thesis using take_file_inv [OF ok i Top] st Top by (auto simp: worker_step_def)
    next
      case 1
      have "q_next s \<le> q_count s" using ok(1) unfolding pool_ok_def by blast
      with 1 have "q_next s = q_count s" by linarith
      then have "pool_ok files (set_pc i Waiting s)"
        using 1 by (intro pool_ok_set_pc [OF ok(1)]) simp_all
      then show ?thesis using 1 st Top idle [of Waiting] by (auto simp: worker_step_def)
    next
      case 2
      then have "pool_ok files (set_pc i Exited s)" by (intro pool_ok_set_pc [OF ok(1)]) simp_all
      then show ?thesis using 2 st Top idle [of Exited] by (auto simp: worker_step_def)
    qed
  next
    case (Reading x)
    obtain p where "workers (read_line i x s) = (workers s)[i := p]" "p \<noteq> Waiting" "p \<noteq> Exited"
      using read_line_simps(6) by blast
    then have "pool_ok files (read_line i x s)" by (intro pool_ok_workers [OF ok(1)]) auto
    then show ?thesis
      using read_line_counted [OF ok(2) i Reading] st Reading by (auto simp: worker_step_def)
  next
    case (AddUrl url bytes referer rest)
    note pos = counted_positive [OF ok(2) i AddUrl]
    obtain um where um: "url_map_add (urls s) url bytes = Some (Inr um)"
      using url_map_add_put [OF tables(1) pos] by blast
    then have "counted fs files (set_pc i (IncRef referer rest) (s\<lparr>urls := um\<rparr>))"
      using counted_step [OF ok(2) i, of 0 "IncRef referer rest" "[(url, bytes)]" "[]" um "refs s"]
        AddUrl pos by (simp add: todo_defs)
    moreover have "pool_ok files (set_pc i (IncRef referer rest) (s\<lparr>urls := um\<rparr>))"
      by (rule pool_ok_workers [OF ok(1)]) auto
    ultimately show ?thesis using um st AddUrl by (auto simp: worker_step_def)
  next
    case (IncRef referer rest)
    obtain rm where rm: "ref_map_inc (refs s) referer = Some (Inr rm)"
      using ref_map_inc_put [OF tables(2)] by blast
    then have "counted fs files (set_pc i (Reading rest) (s\<lparr>refs := rm\<rparr>))"
      using counted_step [OF ok(2) i, of 0 "Reading rest" "[]" "[referer]" "urls s" rm]
        IncRef by (simp add: todo_defs)
    moreover have "pool_ok files (set_pc i (Reading rest) (s\<lparr>refs := rm\<rparr>))"
      by (rule pool_ok_workers [OF ok(1)]) auto
    ultimately show ?thesis using rm st IncRef by (auto simp: worker_step_def)
  qed (use st in \<open>simp_all add: worker_step_def\<close>)
qed

lemma main_step_inv:
  assumes ok: "pool_ok files s" "counted fs files s" and "\<not> main_signalled s"
  shows "pool_ok files (main_step s) \<and> counted fs files (main_step s)"
proof -
  define s1 where "s1 = (if q_count s = 0 then finish_queue s else s)"
  have "pool_ok files (s1\<lparr>main_signalled := True\<rparr>)"
    using ok(1) assms(3) wake_not_waiting [of "workers s"] by (auto simp: pool_ok_def s1_def simp del: set_map)
  moreover have same: "todo fs g (s1\<lparr>main_signalled := True\<rparr>) = todo fs g s" if "g Waiting = g Top"
    for g :: "pc \<Rightarrow> 'a::comm_monoid_add"
    using todo_wake [OF that, of fs s] by (simp add: s1_def todo_def)
  have "total_bytes s1 = total_bytes s" "urls s1 = urls s" "refs s1 = refs s"
    by (simp_all add: s1_def)
  then have "counted fs files (s1\<lparr>main_signalled := True\<rparr>)"
    by (intro counted_cong [OF ok(2)]) (simp_all add: same)
  ultimately show ?thesis by (simp add: main_step_def s1_def Let_def)
qed

lemma spurious_inv:
  assumes ok: "pool_ok files s" "counted fs files s" and "i < length (workers s)" "workers s ! i = Waiting"
  shows "pool_ok files (set_pc i Top s) \<and> counted fs files (set_pc i Top s)"
  using counted_silent [OF ok(2) assms(3), of Top] assms(4) pool_ok_workers [OF ok(1), of "set_pc i Top s" i Top]
  by simp

lemma worker_step_length:
  "worker_step fs i s = Some (Inr t) \<Longrightarrow> length (workers t) = length (workers s)"
  by (auto simp: worker_step_def take_file_def read_line_def bindR_def Let_def
      split: pc.splits if_splits option.splits sum.splits prod.splits)

lemma main_step_length: "length (workers (main_step s)) = length (workers s)"
  by (simp add: main_step_def Let_def)

lemma lr_step_inv:
  assumes "lr_inv fs files n r" "lr_step fs r r'"
  shows "lr_inv fs files n r'"
proof -
  obtain s where s: "r = Inr s" "pool_ok files s" "counted fs files s" "length (workers s) = n"
    using assms(1) by (auto simp: lr_inv_def)
  consider (w) i where "i < length (workers s)" "worker_step fs i s = Some r'"
    | (m) "\<not> main_signalled s" "r' = Inr (main_step s)"
    | (sp) i where "i < length (workers s)" "workers s ! i = Waiting" "r' = Inr (set_pc i Top s)"
    using assms(2) unfolding s(1) by (rule lr_stepE)
  then have "\<exists>t. r' = Inr t \<and> pool_ok files t \<and> counted fs files t \<and> length (workers t) = n"
  proof cases
    case (w i)
    obtain t where t: "r' = Inr t" "pool_ok files t" "counted fs files t"
      using worker_step_inv [OF s(2,3) w] by blast
    then show ?thesis using worker_step_length [of fs i s t] w(2) s(4) by simp
  next
    case m
    then show ?thesis using main_step_inv [OF s(2,3)] main_step_length [of s] s(4) by simp
  next
    case (sp i)
    then show ?thesis using spurious_inv [OF s(2,3) sp(1,2)] s(4) by simp
  qed
  then show ?thesis unfolding lr_inv_def .
qed

lemma sum_list_replicate_zero: "sum_list (replicate n (0 :: 'a::comm_monoid_add)) = 0"
  by (induction n) simp_all

lemma pool_start_inv: "lr_inv fs files n (Inr (pool_start files n))"
  by (simp add: lr_inv_def pool_start_def pool_ok_def counted_def todo_def todo_all sum_list_replicate_zero)

interpretation log_pool: invariant_system "\<lambda>r. r = Inr (pool_start files n)" "lr_step fs" "lr_inv fs files n"
  for files n fs
  by unfold_locales (auto intro: pool_start_inv lr_step_inv)

section \<open>The pool ends\<close>

definition pc_weight :: "pc \<Rightarrow> nat" where
  "pc_weight p = (case p of
     Top \<Rightarrow> 2 | Waiting \<Rightarrow> 1 | Exited \<Rightarrow> 0 | Reading r \<Rightarrow> 3 * length r + 3
   | AddUrl u b f r \<Rightarrow> 3 * length r + 5 | IncRef f r \<Rightarrow> 3 * length r + 4)"

lemma pc_weight_simps [simp]:
  "pc_weight Top = 2" "pc_weight Waiting = 1" "pc_weight Exited = 0"
  "pc_weight (Reading r) = 3 * length r + 3" "pc_weight (AddUrl u b f r) = 3 * length r + 5"
  "pc_weight (IncRef f r) = 3 * length r + 4"
  by (simp_all add: pc_weight_def)

definition work_left :: "(string \<Rightarrow> string option) \<Rightarrow> lr_state \<Rightarrow> nat" where
  "work_left fs s = todo fs pc_weight s + (if q_finished s then 0 else length (workers s)) +
     (if main_signalled s then 0 else 1)"

lemma wake_weight: "sum_list (map pc_weight (map wake ws)) \<le> sum_list (map pc_weight ws) + length ws"
proof (induction ws)
  case (Cons p ws)
  have "pc_weight (wake p) \<le> pc_weight p + 1" by (simp add: wake_def)
  with Cons show ?case by simp
qed simp

lemma todo_finish_queue: "todo fs pc_weight (finish_queue s) \<le> todo fs pc_weight s + length (workers s)"
  using wake_weight [of "workers s"] by (simp add: todo_def)

lemma wake_no_waiter: "Waiting \<notin> set ws \<Longrightarrow> map wake ws = ws"
  by (induction ws) (auto simp: wake_def)

lemma work_left_local:
  assumes "i < length (workers s)" and "pc_weight p < pc_weight (workers s ! i)"
    and "workers t = (workers s)[i := p]" "q_files t = q_files s" "q_next t = q_next s"
      "q_finished t = q_finished s" "main_signalled t = main_signalled s"
  shows "work_left fs t < work_left fs s"
proof -
  have "todo fs pc_weight t = todo fs pc_weight (set_pc i p s)"
    using assms(3-5) by (intro todo_cong) simp_all
  then have "todo fs pc_weight t < todo fs pc_weight s"
    using todo_set_pc [OF assms(1), of fs pc_weight p] assms(2) by linarith
  then show ?thesis using assms(3,6,7) by (simp add: work_left_def)
qed

lemma take_file_decreases:
  assumes ok: "pool_ok files s" and i: "i < length (workers s)" "workers s ! i = Top"
    and "take_file fs i s = Some (Inr t)" and more: "q_next s < q_count s"
  shows "work_left fs t < work_left fs s"
proof -
  let ?f = "open_file fs (files ! nat (q_next s))"
  define s1 where "s1 = s\<lparr>q_next := q_next s + 1\<rparr>"
  have p: "q_files s = files" "q_count s = int (length files)" "0 \<le> q_next s" "Waiting \<notin> set (workers s)"
    using ok more unfolding pool_ok_def by auto
  then have nw: "map wake (workers s) = workers s" by (intro wake_no_waiter)
  have t: "workers t = (workers s)[i := ?f]" "q_files t = files" "q_next t = q_next s + 1"
      "main_signalled t = main_signalled s" "q_finished s \<longrightarrow> q_finished t"
    using assms(4) p(1) nw by (auto simp: take_file_def Let_def split: if_splits)
  have "todo fs pc_weight t = todo fs pc_weight (set_pc i ?f s1)"
    using t p(1) by (intro todo_cong) (simp_all add: s1_def)
  moreover have "todo fs pc_weight (set_pc i ?f s1) + pc_weight Top = todo fs pc_weight s"
    using todo_next [OF i p(3), of fs pc_weight] p more by (simp add: s1_def)
  ultimately have "todo fs pc_weight t < todo fs pc_weight s" by simp
  then show ?thesis using t by (simp add: work_left_def)
qed

lemma read_line_decreases:
  assumes "i < length (workers s)" "workers s ! i = Reading r"
  shows "work_left fs (read_line i r s) < work_left fs s"
proof -
  have "length rest < length r" if "fgets MAX_LINE_LEN r = Some (line, rest)" for line rest
    using fgets_shorter [OF that] by (simp add: MAX_LINE_LEN_def)
  then have "\<exists>p. workers (read_line i r s) = (workers s)[i := p] \<and> pc_weight p < pc_weight (Reading r)"
    by (fastforce simp: read_line_def split: option.split prod.split)
  then show ?thesis using work_left_local [OF assms(1)] assms(2) by auto
qed

lemma worker_step_decreases:
  assumes ok: "pool_ok files s" and i: "i < length (workers s)"
    and st: "worker_step fs i s = Some (Inr t)"
  shows "work_left fs t < work_left fs s"
proof (cases "workers s ! i")
  case Top
  then consider "t = set_pc i Waiting s" | "t = set_pc i Exited s"
    | "q_next s < q_count s" "take_file fs i s = Some (Inr t)"
    using st by (auto simp: worker_step_def not_le split: if_splits)
  then show ?thesis
    using take_file_decreases [OF ok i Top] work_left_local [OF i, of Waiting t]
      work_left_local [OF i, of Exited t] Top
    by cases auto
next
  case (AddUrl url bytes referer rest)
  then obtain m where "t = set_pc i (IncRef referer rest) (s\<lparr>urls := m\<rparr>)"
    using st by (auto simp: worker_step_def bindR_def split: option.splits sum.splits)
  then show ?thesis using work_left_local [OF i, of "IncRef referer rest" t] AddUrl by auto
next
  case (IncRef referer rest)
  then obtain m where "t = set_pc i (Reading rest) (s\<lparr>refs := m\<rparr>)"
    using st by (auto simp: worker_step_def bindR_def split: option.splits sum.splits)
  then show ?thesis using work_left_local [OF i, of "Reading rest" t] IncRef by auto
qed (use st read_line_decreases [OF i] in \<open>auto simp: worker_step_def\<close>)

lemma main_step_decreases:
  assumes ok: "pool_ok files s" and "\<not> main_signalled s"
  shows "work_left fs (main_step s) < work_left fs s"
proof -
  have fin: "q_count s = 0 \<Longrightarrow> \<not> q_finished s" using ok assms(2) by (auto simp: pool_ok_def)
  have "todo fs pc_weight (main_step s) = todo fs pc_weight (if q_count s = 0 then finish_queue s else s)"
    by (intro todo_cong) (simp_all add: main_step_def)
  then show ?thesis
    using fin assms(2) todo_finish_queue [of fs s] by (auto simp: work_left_def main_step_def)
qed

text \<open>Nobody sleeps for ever: unless all have returned, a worker or \<open>main\<close> can step.\<close>

lemma pool_not_stuck:
  assumes "pool_ok files s" "counted fs files s" and "\<not> all_exited s"
  shows "\<not> main_signalled s \<or> (\<exists>i < length (workers s). \<exists>t. worker_step fs i s = Some (Inr t))"
proof -
  obtain i where i: "i < length (workers s)" "workers s ! i \<noteq> Exited"
    using assms(3) by (auto simp: all_exited_def list_all_length)
  show ?thesis
  proof (cases "workers s ! i = Waiting")
    case True
    then have "Waiting \<in> set (workers s)" using i nth_mem by metis
    then show ?thesis using assms(1) by (auto simp: pool_ok_def)
  next
    case False
    then have "worker_step fs i s \<noteq> None"
      using i counted_tables [OF assms(2)] counted_positive [OF assms(2) i(1)]
      by (auto simp: worker_step_def take_file_def Let_def url_map_add_put ref_map_inc_put split: pc.split)
    then obtain r where "worker_step fs i s = Some r" by blast
    then show ?thesis using worker_step_inv [OF assms(1,2) i(1)] i(1) by blast
  qed
qed

section \<open>The list of files\<close>

definition log_paths :: "string \<Rightarrow> dirent list \<Rightarrow> string list" where
  "log_paths dir_path es =
     map (\<lambda>e. dir_path @ ''/'' @ fst e) (filter (\<lambda>e. is_log_file (fst e) \<and> snd e) es)"

lemma list_loop_paths:
  assumes "length (fl_files s) \<le> fl_capacity s" and "fl_capacity s = 0 \<longleftrightarrow> fl_files s = []"
  shows "\<exists>t. list_loop dir_path s es = Inr t \<and> fl_files t = fl_files s @ log_paths dir_path es \<and>
    (fl_capacity t = 0 \<longleftrightarrow> fl_files t = [])"
  using assms
proof (induction es arbitrary: s)
  case Nil
  then show ?case by (simp add: log_paths_def)
next
  case (Cons e es)
  show ?case
  proof (cases "is_log_file (fst e) \<and> snd e")
    case True
    define c where "c = (if length (fl_files s) \<ge> fl_capacity s
      then if fl_capacity s \<noteq> 0 then fl_capacity s * 2 else 16 else fl_capacity s)"
    let ?t = "s\<lparr>fl_capacity := c, fl_files := fl_files s @ [dir_path @ ''/'' @ fst e]\<rparr>"
    have c: "length (fl_files s) < c" using Cons.prems by (auto simp: c_def)
    then have "list_step dir_path s e = Inr ?t"
      using True by (auto simp: list_step_def c_def Let_def)
    then show ?thesis
      using Cons.IH [of ?t] c True by (auto simp: log_paths_def)
  next
    case False
    then have "list_step dir_path s e = Inr s" by (auto simp: list_step_def)
    then show ?thesis using Cons False by (auto simp: log_paths_def)
  qed
qed

lemma list_files_paths:
  "list_files dir_path (Some es) =
     Inr (if log_paths dir_path es = [] then None else Some (log_paths dir_path es))"
  using list_loop_paths [of "\<lparr>fl_files = [], fl_capacity = 0\<rparr>" dir_path es]
  by (auto simp: list_files_def)

section \<open>Lines of the Combined Log Format\<close>

record combined =
  c_ip :: string
  c_ident :: string
  c_user :: string
  c_date :: string
  c_request :: string   \<comment> \<open>the method\<close>
  c_url :: string
  c_proto :: string
  c_status :: string
  c_bytes :: nat
  c_referer :: string
  c_agent :: string

definition quote :: string where "quote = [CHR 0x22]"

definition combined_line :: "combined \<Rightarrow> string" where
  "combined_line f = c_ip f @ '' '' @ c_ident f @ '' '' @ c_user f @ '' ['' @ c_date f @ ''] '' @ quote @
     c_request f @ '' '' @ c_url f @ '' '' @ c_proto f @ quote @ '' '' @ c_status f @ '' '' @
     dec (c_bytes f) @ '' '' @ quote @ c_referer f @ quote @ '' '' @ quote @ c_agent f @ quote"

definition well_formed :: "combined \<Rightarrow> bool" where
  "well_formed f \<longleftrightarrow>
     CHR '' '' \<notin> set (c_ip f) \<and> CHR '' '' \<notin> set (c_ident f) \<and> CHR ''['' \<notin> set (c_user f) \<and>
     CHR 0x22 \<notin> set (c_date f) \<and> CHR '' '' \<notin> set (c_request f) \<and> CHR '' '' \<notin> set (c_url f) \<and>
     CHR 0x22 \<notin> set (c_proto f) \<and> c_status f \<noteq> [] \<and> list_all is_digit (c_status f) \<and>
     c_bytes f < 2 ^ 63 \<and> CHR 0x22 \<notin> set (c_referer f)"

lemma digits_no_space: "list_all is_digit s \<Longrightarrow> CHR '' '' \<notin> set s"
  by (auto simp: list_all_iff dest: is_digit_facts)

lemma digits_no_quote: "list_all is_digit s \<Longrightarrow> CHR 0x22 \<notin> set s"
  by (auto simp: list_all_iff is_digit_def)

lemma skip_spaces_digits: "c \<noteq> [] \<Longrightarrow> list_all is_digit c \<Longrightarrow> skip_spaces (c @ s) = c @ s"
  by (cases c) (auto simp: skip_spaces_def dest: is_digit_facts)

lemma atoll_dec: "n < 2 ^ 63 \<Longrightarrow> atoll (dec n @ CHR '' '' # s) = of_nat n"
  using strtol10_dec [of n "CHR '' '' # s"] by (simp add: atoll_def is_digit_def)

lemma starts_with_digit_append: "c \<noteq> [] \<Longrightarrow> list_all is_digit c \<Longrightarrow> starts_with_digit (c @ s)"
  by (cases c) (auto simp: starts_with_digit_def)

lemma skip_one_space: "skip_spaces (CHR '' '' # p) = skip_spaces p"
  by (simp add: skip_spaces_def)

lemma hd_dec: "hd (dec n) \<noteq> CHR ''-''"
  using dec_cons [of n] is_digit_facts by auto

lemma parse_combined_line:
  assumes "well_formed f"
  shows "parse_log_line (combined_line f @ s) = Some (c_url f, of_nat (c_bytes f), c_referer f)"
proof -
  have st: "c_status f \<noteq> []" "list_all is_digit (c_status f)" and n: "c_bytes f < 2 ^ 63"
    using assms by (auto simp: well_formed_def)
  have sp: "CHR '' '' \<notin> set (c_ip f)" "CHR '' '' \<notin> set (c_ident f)" "CHR ''['' \<notin> set (c_user f)"
      "CHR 0x22 \<notin> set (c_date f)" "CHR '' '' \<notin> set (c_request f)" "CHR '' '' \<notin> set (c_url f)"
      "CHR 0x22 \<notin> set (c_proto f)" "CHR 0x22 \<notin> set (c_referer f)"
    using assms by (auto simp: well_formed_def)
  show ?thesis
    unfolding combined_line_def quote_def parse_log_line_def Let_def
    by (simp add: sp st skip_one_space skip_spaces_digits starts_with_digit_append digits_no_space
        digits_no_quote dec_digits dec_ne hd_dec atoll_dec [OF n])
qed

lemma file_records_line:
  assumes "CHR 0x0A \<notin> set l" "CHR 0x00 \<notin> set l" "length l \<le> 8190"
  shows "file_records (l @ CHR 0x0A # r) =
    (case parse_log_line (l @ [CHR 0x0A]) of None \<Rightarrow> [] | Some x \<Rightarrow> [x]) @ file_records r"
proof -
  have "c_str (l @ [CHR 0x0A]) = l @ [CHR 0x0A]" using assms(2) by (intro c_str_plain) simp
  moreover have "fgets_split 8191 (l @ CHR 0x0A # r) = (l @ [CHR 0x0A], r)"
    using assms(1,3) by (intro fgets_split_line) simp_all
  ultimately have "fgets MAX_LINE_LEN (l @ CHR 0x0A # r) = Some (l @ [CHR 0x0A], r)"
    by (simp add: fgets_def MAX_LINE_LEN_def)
  then show ?thesis by (rule file_records_Some)
qed

lemma file_records_Nil: "file_records [] = []"
  by (rule file_records_None) (simp add: fgets_def)

section \<open>Percent encoding\<close>

definition url_encode :: "(char \<Rightarrow> bool) \<Rightarrow> string \<Rightarrow> string" where
  "url_encode plain s = concat (map (\<lambda>c. if plain c then [c]
     else [CHR ''%'', hex_digit (of_char c div 16), hex_digit (of_char c mod 16)]) s)"

lemma url_decode_encode:
  assumes "\<not> plain CHR ''%''" "\<not> plain CHR ''+''"
  shows "url_decode (url_encode plain s) = s"
proof (induction s)
  case Nil
  then show ?case by (simp add: url_encode_def)
next
  case (Cons c s)
  have enc: "url_encode plain (c # s) = (if plain c then [c]
     else [CHR ''%'', hex_digit (of_char c div 16), hex_digit (of_char c mod 16)]) @ url_encode plain s"
    by (simp add: url_encode_def)
  show ?case
  proof (cases "plain c")
    case True
    then have "c \<noteq> CHR ''%''" "c \<noteq> CHR ''+''" using assms by auto
    then show ?thesis using True Cons by (simp add: enc)
  next
    case False
    have "hex_val (hex_digit (of_char c div 16)) = Some (of_char c div 16)"
        "hex_val (hex_digit (of_char c mod 16)) = Some (of_char c mod 16)"
      using of_char_less [of c] by (intro hex_val_hex_digit; linarith)+
    then show ?thesis using False Cons by (simp add: enc char_of_div_mod)
  qed
qed

lemma url_decode_cases:
  "(\<exists>d. url_decode (c # t) = d # url_decode t) \<or>
   (\<exists>d a b u. t = a # b # u \<and> url_decode (c # t) = d # url_decode u)"
  unfolding url_decode.simps(2) [of c t]
  by (simp del: url_decode.simps split: list.split option.split)

lemma url_decode_length: "length (url_decode s) \<le> length s"
proof (induction s rule: length_induct)
  case (1 s)
  then have less: "length (url_decode t) \<le> length t" if "length t < length s" for t
    using that by blast
  show ?case
  proof (cases s)
    case (Cons c t)
    consider d where "url_decode (c # t) = d # url_decode t"
      | d a b u where "t = a # b # u" "url_decode (c # t) = d # url_decode u"
      using url_decode_cases [of c t] by blast
    then show ?thesis
    proof cases
      case 1
      then show ?thesis using Cons less [of t] by (simp del: url_decode.simps)
    next
      case (2 d a b u)
      then show ?thesis using Cons less [of u] by (simp del: url_decode.simps)
    qed
  qed simp
qed

section \<open>The ten largest\<close>

text \<open>What the comparison must satisfy for \<open>qsort\<close>, and what \<open>qsort\<close> then promises.\<close>

definition consistent :: "('a \<Rightarrow> 'a \<Rightarrow> int) \<Rightarrow> 'a list \<Rightarrow> bool" where
  "consistent cmp xs \<longleftrightarrow>
     (\<forall>a \<in> set xs. \<forall>b \<in> set xs. sgn (cmp a b) = - sgn (cmp b a)) \<and>
     (\<forall>a \<in> set xs. \<forall>b \<in> set xs. \<forall>c \<in> set xs. cmp a b \<le> 0 \<longrightarrow> cmp b c \<le> 0 \<longrightarrow> cmp a c \<le> 0)"

definition is_qsort :: "'a qsort \<Rightarrow> bool" where
  "is_qsort q \<longleftrightarrow> (\<forall>cmp xs. consistent cmp xs \<longrightarrow>
     mset (q cmp xs) = mset xs \<and> sorted_wrt (\<lambda>a b. cmp a b \<le> 0) (q cmp xs))"

text \<open>Insertion sort is one.\<close>

fun insort_cmp :: "('a \<Rightarrow> 'a \<Rightarrow> int) \<Rightarrow> 'a \<Rightarrow> 'a list \<Rightarrow> 'a list" where
  "insort_cmp cmp x [] = [x]"
| "insort_cmp cmp x (y # ys) = (if cmp x y \<le> 0 then x # y # ys else y # insort_cmp cmp x ys)"

fun isort_cmp :: "'a qsort" where
  "isort_cmp cmp [] = []"
| "isort_cmp cmp (x # xs) = insort_cmp cmp x (isort_cmp cmp xs)"

lemma consistent_total: "consistent cmp xs \<Longrightarrow> a \<in> set xs \<Longrightarrow> b \<in> set xs \<Longrightarrow> cmp a b \<le> 0 \<or> cmp b a \<le> 0"
  unfolding consistent_def by (metis linorder_not_le neg_0_less_iff_less not_less_iff_gr_or_eq sgn_greater)

lemma consistent_trans:
  "consistent cmp xs \<Longrightarrow> a \<in> set xs \<Longrightarrow> b \<in> set xs \<Longrightarrow> c \<in> set xs \<Longrightarrow>
   cmp a b \<le> 0 \<Longrightarrow> cmp b c \<le> 0 \<Longrightarrow> cmp a c \<le> 0"
  unfolding consistent_def by blast

lemma consistent_mono: "consistent cmp xs \<Longrightarrow> set ys \<subseteq> set xs \<Longrightarrow> consistent cmp ys"
  unfolding consistent_def by (meson subsetD)

lemma mset_insort_cmp [simp]: "mset (insort_cmp cmp x ys) = add_mset x (mset ys)"
  by (induction ys) simp_all

lemma mset_isort_cmp [simp]: "mset (isort_cmp cmp xs) = mset xs"
  by (induction xs) simp_all

lemma set_insort_cmp [simp]: "set (insort_cmp cmp x ys) = insert x (set ys)"
  by (induction ys) auto

lemma set_isort_cmp [simp]: "set (isort_cmp cmp xs) = set xs"
  by (induction xs) simp_all

lemma sorted_insort_cmp:
  assumes "consistent cmp (x # ys)" "sorted_wrt (\<lambda>a b. cmp a b \<le> 0) ys"
  shows "sorted_wrt (\<lambda>a b. cmp a b \<le> 0) (insort_cmp cmp x ys)"
  using assms
proof (induction ys)
  case (Cons y ys)
  have "consistent cmp (x # ys)" by (rule consistent_mono [OF Cons.prems(1)]) auto
  then have rest: "sorted_wrt (\<lambda>a b. cmp a b \<le> 0) (insort_cmp cmp x ys)"
    using Cons by simp
  show ?case
  proof (cases "cmp x y \<le> 0")
    case True
    then have "cmp x z \<le> 0" if "z \<in> set ys" for z
      using that Cons.prems(2) by (intro consistent_trans [OF Cons.prems(1), of x y z]) simp_all
    then show ?thesis using True Cons.prems(2) by simp
  next
    case False
    then have "cmp y x \<le> 0" using consistent_total [OF Cons.prems(1), of x y] by simp
    then show ?thesis using False rest Cons.prems(2) by simp
  qed
qed simp

lemma isort_is_qsort: "is_qsort isort_cmp"
proof -
  have "consistent cmp xs \<Longrightarrow> sorted_wrt (\<lambda>a b. cmp a b \<le> 0) (isort_cmp cmp xs)"
    for cmp :: "'a \<Rightarrow> 'a \<Rightarrow> int" and xs
  proof (induction xs)
    case (Cons x xs)
    have "consistent cmp (x # isort_cmp cmp xs)" by (rule consistent_mono [OF Cons.prems]) simp
    moreover have "consistent cmp xs" by (rule consistent_mono [OF Cons.prems]) auto
    ultimately show ?case using Cons.IH by (simp add: sorted_insort_cmp)
  qed simp
  then show ?thesis by (simp add: is_qsort_def)
qed

lemma cmp_url_iff: "cmp_url a b \<le> 0 \<longleftrightarrow> snd b \<le> snd a"
  by (auto simp: cmp_url_def)

lemma cmp_url_consistent: "consistent cmp_url xs"
  by (auto simp: consistent_def cmp_url_iff) (auto simp: cmp_url_def)

text \<open>Counts below \<open>2 ^ 31\<close> can be compared by subtraction.\<close>

lemma sint_word_of_int32: "- (2 ^ 31) \<le> d \<Longrightarrow> d < 2 ^ 31 \<Longrightarrow> sint (word_of_int d :: u32) = d"
  by transfer (simp add: signed_take_bit_int_eq_self_iff)

lemma cmp_ref_diff:
  assumes "unat (snd a) < 2 ^ 31" "unat (snd b) < 2 ^ 31"
  shows "cmp_ref a b = int (unat (snd b)) - int (unat (snd a))"
proof -
  let ?d = "int (unat (snd b)) - int (unat (snd a))"
  have "snd b - snd a = word_of_int ?d" by simp
  moreover have "sint (word_of_int ?d :: u32) = ?d"
  proof (rule sint_word_of_int32)
    have p: "(2 :: int) ^ 31 = 2147483648" by simp
    show "- (2 ^ 31) \<le> ?d" unfolding p using assms [simplified] by linarith
    show "?d < 2 ^ 31" unfolding p using assms [simplified] by linarith
  qed
  ultimately show ?thesis by (simp add: cmp_ref_def)
qed

lemma cmp_ref_consistent:
  assumes "\<forall>e \<in> set xs. unat (snd e) < 2 ^ 31"
  shows "consistent cmp_ref xs"
    and "a \<in> set xs \<Longrightarrow> b \<in> set xs \<Longrightarrow> cmp_ref a b \<le> 0 \<longleftrightarrow> unat (snd b) \<le> unat (snd a)"
proof -
  have d: "cmp_ref a b = int (unat (snd b)) - int (unat (snd a))" if "a \<in> set xs" "b \<in> set xs" for a b
    using assms that by (intro cmp_ref_diff) blast+
  have anti: "cmp_ref a b = - cmp_ref b a" if "a \<in> set xs" "b \<in> set xs" for a b
    using d [OF that] d [OF that(2,1)] by simp
  show "consistent cmp_ref xs"
    unfolding consistent_def
  proof (intro conjI ballI impI)
    fix a b assume ab: "a \<in> set xs" "b \<in> set xs"
    have "sgn (cmp_ref a b) = sgn (- cmp_ref b a)" unfolding anti [OF ab] by (rule refl)
    then show "sgn (cmp_ref a b) = - sgn (cmp_ref b a)" by (simp only: sgn_minus)
    fix c assume c: "c \<in> set xs" and le: "cmp_ref a b \<le> 0" "cmp_ref b c \<le> 0"
    then show "cmp_ref a c \<le> 0" using d [OF ab] d [OF ab(2) c] d [OF ab(1) c] by linarith
  qed
  assume "a \<in> set xs" "b \<in> set xs"
  from d [OF this] show "cmp_ref a b \<le> 0 \<longleftrightarrow> unat (snd b) \<le> unat (snd a)" by linarith
qed

section \<open>What the program promises\<close>

lemma log_start_pool:
  assumes "log_options os (None, 1) = Some (Some dir, n)" "dirs dir = Some es" "log_start os dirs = Inr (Some s)"
  shows "s = pool_start (log_paths dir es) (nat (to_int32 n))"
  using assms list_files_paths [of dir es]
  by (auto simp: log_start_def Let_def split: if_splits)

lemma log_reach:
  assumes opts: "log_options os (None, 1) = Some (Some dir, n)" "dirs dir = Some es"
    and reach: "reach (started os dirs) (lr_step fs) r"
  shows "\<exists>s. r = Inr s \<and> pool_ok (log_paths dir es) s \<and> counted fs (log_paths dir es) s \<and>
    length (workers s) = nat (to_int32 n)"
proof -
  let ?ps = "log_paths dir es"
  have init: "started os dirs r \<Longrightarrow> r = Inr (pool_start ?ps (nat (to_int32 n)))" for r
    using log_start_pool [of os dir n dirs es] opts by (auto simp: started_def)
  have "reach (\<lambda>r. r = Inr (pool_start ?ps (nat (to_int32 n)))) (lr_step fs) r"
    using reach by (induction rule: reach.induct) (auto dest: init intro: reach.intros)
  then show ?thesis using log_pool.reach_inv unfolding lr_inv_def by blast
qed

lemma log_start_ok:
  assumes "log_options os (None, 1) = Some (Some dir, n)" "dirs dir = Some es" "0 \<le> to_int32 n"
  shows "started os dirs (Inr (pool_start (log_paths dir es) (nat (to_int32 n))))"
  using assms list_files_paths [of dir es] by (auto simp: started_def log_start_def Let_def)

lemma pool_finishes:
  assumes "reach I (lr_step fs) (Inr s)" "lr_inv fs files n (Inr s)"
  shows "\<exists>t. reach I (lr_step fs) (Inr t) \<and> all_exited t"
  using assms
proof (induction "work_left fs s" arbitrary: s rule: less_induct)
  case less
  have inv: "pool_ok files s" "counted fs files s" using less.prems(2) by (auto simp: lr_inv_def)
  show ?case
  proof (cases "all_exited s")
    case False
    have "\<exists>t. lr_step fs (Inr s) (Inr t) \<and> work_left fs t < work_left fs s"
    proof (cases "main_signalled s")
      case False
      then show ?thesis using main_step_decreases [OF inv(1)] lr_step.signal by blast
    next
      case True
      then obtain i t where "i < length (workers s)" "worker_step fs i s = Some (Inr t)"
        using pool_not_stuck [OF inv \<open>\<not> all_exited s\<close>] by blast
      then show ?thesis using worker_step_decreases [OF inv(1)] lr_step.worker by blast
    qed
    then obtain t where t: "lr_step fs (Inr s) (Inr t)" "work_left fs t < work_left fs s" by blast
    show ?thesis
      using less.hyps [OF t(2)] reach_step [OF less.prems(1) t(1)] lr_step_inv [OF less.prems(2) t(1)]
      by blast
  qed (use less.prems in blast)
qed

text \<open>When all workers have returned, nothing is left to count.\<close>

lemma finished_counts:
  assumes "pool_ok files s" "counted fs files s" "all_exited s" "workers s \<noteq> []"
  shows "total_bytes s = sum_list (map rec_bytes (all_records fs files))"
    "bucket_look (um_buckets (urls s)) = tally_of fst snd (url_recs (all_records fs files))"
    "bucket_look (rm_buckets (refs s)) = tally_of (\<lambda>r. r) (\<lambda>_. 1) (ref_recs (all_records fs files))"
proof -
  have ws: "workers s = replicate (length (workers s)) Exited"
    using assms(3) by (intro replicate_eqI) (auto simp: all_exited_def list_all_iff)
  then have "Exited \<in> set (workers s)" using assms(4) by (metis in_set_replicate length_0_conv)
  then have next_end: "nat (q_next s) = length (q_files s)"
    using assms(1) by (auto simp: pool_ok_def)
  have empty: "todo fs g s = 0" if "g Exited = 0" for g :: "pc \<Rightarrow> 'a::comm_monoid_add"
    using that next_end arg_cong [OF ws, of "map g"] sum_list_replicate_zero by (simp add: todo_def)
  show "total_bytes s = sum_list (map rec_bytes (all_records fs files))"
  proof -
    have "todo fs bytes_todo s = 0" by (rule empty) simp
    then show ?thesis using assms(2) by (simp add: counted_def)
  qed
  obtain h where h: "\<forall>x \<in> set h. snd x \<noteq> 0"
      "bump_all add_url (url_map_init HASH_SIZE) h = Some (Inr (urls s))"
      "mset h = mset (url_recs (all_records fs files))"
    using assms(2) empty [of urls_todo] unfolding counted_def by auto
  have "bucket_look (um_buckets (urls s)) = tally_of fst snd h"
    using url_tally.tally_from_empty [OF url_map_init_ok(1) h(1) url_map_init_ok(2)] h(2) by auto
  then show "bucket_look (um_buckets (urls s)) = tally_of fst snd (url_recs (all_records fs files))"
    using tally_of_mset [OF h(3)] by metis
  obtain h where h: "bump_all ref_map_inc (ref_map_init HASH_SIZE) h = Some (Inr (refs s))"
      "mset h = mset (ref_recs (all_records fs files))"
    using assms(2) empty [of refs_todo] unfolding counted_def by auto
  have "bucket_look (rm_buckets (refs s)) = tally_of (\<lambda>r. r) (\<lambda>_. 1) h"
    using ref_tally.tally_from_empty [OF ref_map_init_ok(1) TrueI ref_map_init_ok(2), of h] h(1) by auto
  then show "bucket_look (rm_buckets (refs s)) = tally_of (\<lambda>r. r) (\<lambda>_. 1) (ref_recs (all_records fs files))"
    using tally_of_mset [OF h(2)] by metis
qed

text \<open>A small run: two files with one record each, read by two threads.\<close>

definition sample :: combined where
  "sample = \<lparr>c_ip = ''1.2.3.4'', c_ident = ''-'', c_user = ''-'', c_date = ''10/Oct'', c_request = ''GET'',
     c_url = ''/a%20b'', c_proto = ''HTTP/1.1'', c_status = ''200'', c_bytes = 5, c_referer = ''r'',
     c_agent = ''x''\<rparr>"

abbreviation sample_opts :: "log_opt list" where
  "sample_opts \<equiv> [DirOpt ''d'', ThreadsOpt ''2'']"

abbreviation sample_dir :: "dirent list" where
  "sample_dir \<equiv> [(''a.log'', True), (''notes'', True), (''a.log.1'', True)]"

abbreviation sample_fs :: "string \<Rightarrow> string option" where
  "sample_fs \<equiv> (\<lambda>_. Some (combined_line sample @ [CHR 0x0A]))"

lemma sample_well_formed: "well_formed sample"
  by (simp add: well_formed_def sample_def is_digit_def)

lemma sample_line:
  "length (combined_line sample) \<le> 8190 \<and> CHR 0x0A \<notin> set (combined_line sample) \<and>
   CHR 0x00 \<notin> set (combined_line sample)"
proof -
  have "dec 5 = ''5''" by code_simp
  then show ?thesis by (simp add: combined_line_def sample_def quote_def)
qed

lemma sample_records: "all_records sample_fs (log_paths ''d'' sample_dir) = [(''/a%20b'', 5, ''r''), (''/a%20b'', 5, ''r'')]"
proof -
  have "file_records (combined_line sample @ [CHR 0x0A]) = [(''/a%20b'', 5, ''r'')]"
    using sample_line parse_combined_line [OF sample_well_formed, of "[CHR 0x0A]"]
    by (simp add: file_records_line file_records_Nil) (simp add: sample_def)
  moreover have "log_paths ''d'' sample_dir = [''d/a.log'', ''d/a.log.1'']"
    by (simp add: log_paths_def is_log_file_def strstr.simps is_digit_def)
  ultimately show ?thesis by (simp add: all_records_def)
qed

lemma sample_options: "log_options sample_opts (None, 1) = Some (Some ''d'', 2)" "to_int32 2 = 2"
  by (simp_all add: strtol10_def strtol_erange_def is_space_def is_digit_def digits_val_def
      clamp_long_def to_int32_def Let_def)

lemma sample_run:
  "\<exists>s. reach (started sample_opts (\<lambda>_. Some sample_dir)) (lr_step sample_fs) (Inr s) \<and> all_exited s"
proof -
  let ?s = "pool_start (log_paths ''d'' sample_dir) 2"
  have "started sample_opts (\<lambda>_. Some sample_dir) (Inr ?s)"
    using log_start_ok [OF sample_options(1), of "\<lambda>_. Some sample_dir" sample_dir]
    by (simp add: sample_options)
  then have "reach (started sample_opts (\<lambda>_. Some sample_dir)) (lr_step sample_fs) (Inr ?s)"
    by (rule reach_init)
  then show ?thesis using pool_finishes pool_start_inv by blast
qed

text \<open>
  Property C5. Whatever the number of threads and however they interleave, when all workers have
  returned the statistics are exact: every log file of the directory has been read once, the total
  is the sum of the sizes of all its records, the URL table holds the bytes of each URL and the
  referer table the number of records of each referer.
\<close>

theorem log_totals_exact:
  assumes "log_options os (None, 1) = Some (Some dir, n)" and "dirs dir = Some es"
    and "reach (started os dirs) (lr_step fs) r" and "0 < to_int32 n"
  shows "\<exists>s. r = Inr s \<and> (all_exited s \<longrightarrow>
    (let recs = all_records fs (log_paths dir es) in
     total_bytes s = sum_list (map rec_bytes recs) \<and>
     map_of (concat (um_buckets (urls s))) = tally_of fst snd (url_recs recs) \<and>
     map_of (concat (rm_buckets (refs s))) = tally_of (\<lambda>r. r) (\<lambda>_. 1) (ref_recs recs)))"
proof -
  obtain s where s: "r = Inr s" "pool_ok (log_paths dir es) s" "counted fs (log_paths dir es) s"
      "length (workers s) = nat (to_int32 n)"
    using log_reach [OF assms(1-3)] by blast
  then have "workers s \<noteq> []" using assms(4) by auto
  then show ?thesis
    using s finished_counts [OF s(2,3)] counted_tables [OF s(3)]
      buckets_entries(2) [of "um_buckets (urls s)"] buckets_entries(2) [of "rm_buckets (refs s)"]
    by (auto simp: Let_def urls_ok_def refs_ok_def)
qed

lemma log_totals_exact_witness:
  "\<exists>s. reach (started sample_opts (\<lambda>_. Some sample_dir)) (lr_step sample_fs) (Inr s) \<and>
     all_exited s \<and> total_bytes s = 10 \<and> map_of (concat (um_buckets (urls s))) ''/a%20b'' = Some 10"
proof -
  obtain s where s: "reach (started sample_opts (\<lambda>_. Some sample_dir)) (lr_step sample_fs) (Inr s)"
      "all_exited s"
    using sample_run by blast
  have "total_bytes s = 10" "map_of (concat (um_buckets (urls s))) ''/a%20b'' = Some 10"
    using log_totals_exact [OF sample_options(1) refl s(1)] s(2) sample_options(2)
    by (simp_all add: Let_def sample_records rec_bytes_def tally_of_def)
  then show ?thesis using s by blast
qed

text \<open>
  Property C8. No schedule keeps the workers from finishing: each step of a worker and of \<open>main\<close>
  decreases the work that is left, a state where not all workers have returned has such a step,
  no step faults, and from every reachable state the pool gets to the end.
\<close>

theorem log_pool_terminates:
  assumes "log_options os (None, 1) = Some (Some dir, n)" and "dirs dir = Some es"
    and "reach (started os dirs) (lr_step fs) r"
  shows "\<exists>s. r = Inr s \<and>
    (\<forall>i < length (workers s). \<forall>r'. worker_step fs i s = Some r' \<longrightarrow>
       (\<exists>t. r' = Inr t \<and> work_left fs t < work_left fs s)) \<and>
    (\<not> main_signalled s \<longrightarrow> work_left fs (main_step s) < work_left fs s) \<and>
    (all_exited s \<or> \<not> main_signalled s \<or> (\<exists>i < length (workers s). worker_step fs i s \<noteq> None)) \<and>
    (\<exists>t. reach (started os dirs) (lr_step fs) (Inr t) \<and> all_exited t)"
proof -
  obtain s where s: "r = Inr s" "pool_ok (log_paths dir es) s" "counted fs (log_paths dir es) s"
      "length (workers s) = nat (to_int32 n)"
    using log_reach [OF assms] by blast
  have "\<exists>t. r' = Inr t \<and> work_left fs t < work_left fs s"
    if "i < length (workers s)" "worker_step fs i s = Some r'" for i r'
    using worker_step_inv [OF s(2,3) that] worker_step_decreases [OF s(2) that(1)] that(2) by blast
  moreover have "\<exists>t. reach (started os dirs) (lr_step fs) (Inr t) \<and> all_exited t"
    using s assms(3) by (intro pool_finishes [of _ _ s]) (auto simp: lr_inv_def)
  ultimately show ?thesis
    using s(1) main_step_decreases [OF s(2)] pool_not_stuck [OF s(2,3)] by (intro exI [of _ s]) blast
qed

lemma log_pool_terminates_witness:
  "\<exists>t. reach (started sample_opts (\<lambda>_. Some sample_dir)) (lr_step sample_fs) (Inr t) \<and> all_exited t"
proof -
  obtain s where "reach (started sample_opts (\<lambda>_. Some sample_dir)) (lr_step sample_fs) (Inr s)"
    using sample_run by blast
  from log_pool_terminates [OF sample_options(1) refl this] show ?thesis by blast
qed

definition traffic :: "(string \<times> u64 \<times> string) list \<Rightarrow> string \<Rightarrow> u64" where
  "traffic recs u = sum_list (map snd (filter (\<lambda>x. fst x = u) (url_recs recs)))"

definition hits :: "(string \<times> u64 \<times> string) list \<Rightarrow> string \<Rightarrow> nat" where
  "hits recs r = count_list (ref_recs recs) r"

lemma sorted_table:
  assumes "distinct (map fst arr)" and "map_of arr = (\<lambda>k. if k \<in> K then Some (T k) else None)"
    and "mset q = mset arr"
  shows "distinct (map fst q)" "set (map fst q) = K" "\<forall>e \<in> set q. snd e = T (fst e)"
    "map f q = map (\<lambda>k. f (k, T k)) (map fst q)"
proof -
  show d: "distinct (map fst q)"
    using assms(1,3) by (metis mset_map mset_eq_imp_distinct_iff)
  have m: "map_of q = map_of arr"
    using assms(1,3) d by (metis map_of_inject_set mset_eq_setD)
  have "set (map fst q) = dom (map_of q)" by (simp add: dom_map_of_conv_image_fst)
  also have "\<dots> = K" unfolding m assms(2) by (auto simp: dom_def)
  finally show "set (map fst q) = K" .
  show val: "\<forall>e \<in> set q. snd e = T (fst e)"
  proof
    fix e assume "e \<in> set q"
    then have "map_of q (fst e) = Some (snd e)" using d by simp
    then show "snd e = T (fst e)" unfolding m assms(2) by (simp split: if_splits)
  qed
  show "map f q = map (\<lambda>k. f (k, T k)) (map fst q)"
    using val by (auto simp: prod_eq_iff intro!: arg_cong [of _ _ f])
qed

lemma unat_of_nat_small: "k < 2 ^ 31 \<Longrightarrow> unat (of_nat k :: u32) = k"
  by (simp add: unat_of_nat take_bit_nat_eq_self_iff)

lemma sorted_urls:
  assumes "distinct (map fst arr)" and "map_of arr = (\<lambda>k. if k \<in> K then Some (T k) else None)"
    and "is_qsort q"
  shows "\<exists>us. distinct us \<and> set us = K \<and> sorted_wrt (\<lambda>a b. T b \<le> T a) us \<and> (us = [] \<longleftrightarrow> arr = []) \<and>
    map f (take n (q cmp_url arr)) = map (\<lambda>u. f (u, T u)) (take n us)"
proof -
  let ?q = "q cmp_url arr"
  have q: "mset ?q = mset arr" "sorted_wrt (\<lambda>a b. cmp_url a b \<le> 0) ?q"
    using assms(3) cmp_url_consistent unfolding is_qsort_def by blast+
  note st = sorted_table [OF assms(1,2) q(1)]
  have "sorted_wrt (\<lambda>a b. T (fst b) \<le> T (fst a)) ?q"
    by (rule sorted_wrt_mono_rel [OF _ q(2)]) (simp add: cmp_url_iff st(3))
  moreover have "?q = [] \<longleftrightarrow> arr = []" using q(1) by (metis mset_zero_iff)
  moreover have "map f (take n ?q) = map (\<lambda>u. f (u, T u)) (take n (map fst ?q))"
    using st(4) [of f] by (simp only: take_map [symmetric])
  ultimately show ?thesis
    using st(1,2) by (intro exI [of _ "map fst ?q"]) (simp add: sorted_wrt_map)
qed

lemma sorted_refs:
  assumes "distinct (map fst arr)"
    and "map_of arr = (\<lambda>k. if k \<in> K then Some (of_nat (T k) :: u32) else None)"
    and small: "\<And>k. T k < 2 ^ 31" and "is_qsort q"
  shows "\<exists>rs. distinct rs \<and> set rs = K \<and> sorted_wrt (\<lambda>a b. T b \<le> T a) rs \<and> (rs = [] \<longleftrightarrow> arr = []) \<and>
    map f (take n (q cmp_ref arr)) = map (\<lambda>u. f (u, of_nat (T u))) (take n rs)"
proof -
  let ?q = "q cmp_ref arr"
  have un: "unat (of_nat (T k) :: u32) = T k" for k
    using small [of k] by (intro unat_of_nat_small)
  have vals: "\<forall>e \<in> set arr. unat (snd e) < 2 ^ 31"
    using sorted_table(3) [OF assms(1,2) refl] un small by simp
  then have q: "mset ?q = mset arr" "sorted_wrt (\<lambda>a b. cmp_ref a b \<le> 0) ?q"
    using assms(4) cmp_ref_consistent(1) unfolding is_qsort_def by blast+
  note st = sorted_table [OF assms(1,2) q(1)]
  have "set ?q = set arr" using q(1) by (rule mset_eq_setD)
  then have "sorted_wrt (\<lambda>a b. T (fst b) \<le> T (fst a)) ?q"
    using st(3) un cmp_ref_consistent(2) [OF vals]
    by (intro sorted_wrt_mono_rel [OF _ q(2)]) simp
  moreover have "?q = [] \<longleftrightarrow> arr = []" using q(1) by (metis mset_zero_iff)
  moreover have "map f (take n ?q) = map (\<lambda>u. f (u, of_nat (T u))) (take n (map fst ?q))"
    using st(4) [of f] by (simp only: take_map [symmetric])
  ultimately show ?thesis
    using st(1,2) by (intro exI [of _ "map fst ?q"]) (simp add: sorted_wrt_map)
qed

lemma collect_all:
  assumes "urls_ok um" "refs_ok rm"
  shows "collect_urls um = (if concat (um_buckets um) = [] then None else Some (concat (um_buckets um)))"
    "collect_refs rm = (if concat (rm_buckets rm) = [] then None else Some (concat (rm_buckets rm)))"
  using assms by (simp_all add: collect_urls_def collect_refs_def urls_ok_def refs_ok_def
      buckets_ok_def HASH_SIZE_def Let_def)

text \<open>
  Property C17. The report at the end: there is a list of all URLs with traffic, each once and in
  descending order of their bytes, and one of all referers in descending order of their records,
  whose first ten are printed, the URLs percent-decoded, after the total number of bytes.
\<close>

theorem log_report_top_ten:
  assumes "log_options os (None, 1) = Some (Some dir, n)" and "dirs dir = Some es"
    and "reach (started os dirs) (lr_step fs) (Inr s)" and "0 < to_int32 n" and "all_exited s"
    and "is_qsort qu" and "is_qsort qr" and "length (all_records fs (log_paths dir es)) < 2 ^ 31"
  shows "let recs = all_records fs (log_paths dir es) in
    \<exists>us rs. distinct us \<and> set us = fst ` set (url_recs recs) \<and>
      sorted_wrt (\<lambda>a b. traffic recs b \<le> traffic recs a) us \<and>
      distinct rs \<and> set rs = set (ref_recs recs) \<and> sorted_wrt (\<lambda>a b. hits recs b \<le> hits recs a) rs \<and>
      log_report qu qr s =
        \<lparr>r_total = sum_list (map rec_bytes recs),
         r_urls = (if us = [] then None
           else Some (map (\<lambda>u. (traffic recs u, c_str (url_decode u))) (take 10 us))),
         r_refs = (if rs = [] then None else Some (map (\<lambda>r. (int (hits recs r), r)) (take 10 rs)))\<rparr>"
proof -
  define recs where "recs = all_records fs (log_paths dir es)"
  obtain s': "pool_ok (log_paths dir es) s" "counted fs (log_paths dir es) s" "workers s \<noteq> []"
    using log_reach [OF assms(1-3)] assms(4) by force
  note fin = finished_counts [OF s'(1,2) assms(5) s'(3), folded recs_def]
  note tabs = counted_tables [OF s'(2)]
  let ?u = "concat (um_buckets (urls s))" and ?r = "concat (rm_buckets (refs s))"
  have bu: "buckets_ok (um_buckets (urls s))" and br: "buckets_ok (rm_buckets (refs s))"
    using tabs by (simp_all add: urls_ok_def refs_ok_def)
  have mu: "map_of ?u = (\<lambda>k. if k \<in> fst ` set (url_recs recs) then Some (traffic recs k) else None)"
    unfolding buckets_entries(2) [OF bu] fin(2) by (simp add: tally_of_def traffic_def fun_eq_iff)
  have mr: "map_of ?r = (\<lambda>k. if k \<in> set (ref_recs recs) then Some (of_nat (hits recs k)) else None)"
    unfolding buckets_entries(2) [OF br] fin(3) by (simp add: tally_count hits_def fun_eq_iff)
  have small: "hits recs k < 2 ^ 31" for k
    using count_le_length [of "ref_recs recs" k] assms(8)
    by (simp add: hits_def ref_recs_def recs_def)
  have sint_hits: "sint (of_nat (hits recs k) :: u32) = int (hits recs k)" for k
    using small [of k] sint_word_of_int32 [of "int (hits recs k)"] by simp
  obtain us where us: "distinct us" "set us = fst ` set (url_recs recs)"
      "sorted_wrt (\<lambda>a b. traffic recs b \<le> traffic recs a) us" "us = [] \<longleftrightarrow> ?u = []"
      "map (\<lambda>e. (snd e, c_str (url_decode (fst e)))) (take 10 (qu cmp_url ?u)) =
         map (\<lambda>u. (traffic recs u, c_str (url_decode u))) (take 10 us)"
    using sorted_urls [OF buckets_entries(1) [OF bu] mu assms(6),
        of "\<lambda>e. (snd e, c_str (url_decode (fst e)))" 10] by auto
  obtain rs where rs: "distinct rs" "set rs = set (ref_recs recs)"
      "sorted_wrt (\<lambda>a b. hits recs b \<le> hits recs a) rs" "rs = [] \<longleftrightarrow> ?r = []"
      "map (\<lambda>e. (sint (snd e), fst e)) (take 10 (qr cmp_ref ?r)) =
         map (\<lambda>r. (int (hits recs r), r)) (take 10 rs)"
    using sorted_refs [OF buckets_entries(1) [OF br] mr small assms(7),
        of "\<lambda>e. (sint (snd e), fst e)" 10] sint_hits by auto
  have "log_report qu qr s =
        \<lparr>r_total = sum_list (map rec_bytes recs),
         r_urls = (if us = [] then None
           else Some (map (\<lambda>u. (traffic recs u, c_str (url_decode u))) (take 10 us))),
         r_refs = (if rs = [] then None else Some (map (\<lambda>r. (int (hits recs r), r)) (take 10 rs)))\<rparr>"
    unfolding log_report_def fin(1) collect_all [OF tabs] us(4) rs(4) TOP_N_def
    by (simp add: us(5) rs(5) del: concat_eq_Nil_conv)
  then show ?thesis
    unfolding recs_def [symmetric] Let_def using us(1-3) rs(1-3) by blast
qed

lemma log_report_top_ten_witness:
  "\<exists>s. reach (started sample_opts (\<lambda>_. Some sample_dir)) (lr_step sample_fs) (Inr s) \<and>
     log_report isort_cmp isort_cmp s =
       \<lparr>r_total = 10, r_urls = Some [(10, ''/a b'')], r_refs = Some [(2, ''r'')]\<rparr>"
proof -
  obtain s where s: "reach (started sample_opts (\<lambda>_. Some sample_dir)) (lr_step sample_fs) (Inr s)"
      "all_exited s"
    using sample_run by blast
  have one: "xs = [x]" if "distinct xs" "set xs = {x}" for xs :: "string list" and x
    using that by (cases xs; cases "tl xs") auto
  have "is_qsort isort_cmp" "is_qsort isort_cmp" by (rule isort_is_qsort)+
  from log_report_top_ten [OF sample_options(1) refl s(1) _ s(2) this] sample_options(2)
  obtain us rs where us: "distinct us" "set us = {''/a%20b''}" and rs: "distinct rs" "set rs = {''r''}"
    and rep: "log_report isort_cmp isort_cmp s =
      \<lparr>r_total = 10,
       r_urls = (if us = [] then None else Some (map (\<lambda>u.
         (traffic [(''/a%20b'', 5, ''r''), (''/a%20b'', 5, ''r'')] u, c_str (url_decode u))) (take 10 us))),
       r_refs = (if rs = [] then None else Some (map (\<lambda>r.
         (int (hits [(''/a%20b'', 5, ''r''), (''/a%20b'', 5, ''r'')] r), r)) (take 10 rs)))\<rparr>"
    by (auto simp: Let_def sample_records rec_bytes_def)
  have "c_str (url_decode ''/a%20b'') = ''/a b''" by code_simp
  moreover have "traffic [(''/a%20b'', 5, ''r''), (''/a%20b'', 5, ''r'')] ''/a%20b'' = 10"
      "hits [(''/a%20b'', 5, ''r''), (''/a%20b'', 5, ''r'')] ''r'' = 2"
    by (simp_all add: traffic_def hits_def)
  ultimately have "log_report isort_cmp isort_cmp s =
      \<lparr>r_total = 10, r_urls = Some [(10, ''/a b'')], r_refs = Some [(2, ''r'')]\<rparr>"
    unfolding rep one [OF us] one [OF rs] by (simp del: url_decode.simps)
  with s(1) show ?thesis by blast
qed

text \<open>
  Property C21. Reading back a file of well-formed Combined Log Format lines, each short enough
  for the buffer, yields for every line its URL, its number of bytes and its referer.
\<close>

theorem combined_log_roundtrip:
  assumes "\<forall>f \<in> set fs. well_formed f \<and> length (combined_line f) \<le> 8190 \<and>
    CHR 0x0A \<notin> set (combined_line f) \<and> CHR 0x00 \<notin> set (combined_line f)"
  shows "file_records (concat (map (\<lambda>f. combined_line f @ [CHR 0x0A]) fs)) =
    map (\<lambda>f. (c_url f, of_nat (c_bytes f), c_referer f)) fs"
  using assms
proof (induction fs)
  case (Cons f fs)
  then show ?case using parse_combined_line [of f "[CHR 0x0A]"] by (simp add: file_records_line)
qed (simp add: file_records_Nil)

lemma combined_log_roundtrip_witness:
  "file_records (combined_line sample @ [CHR 0x0A]) = [(''/a%20b'', 5, ''r'')]"
  using combined_log_roundtrip [of "[sample]"] sample_well_formed sample_line by (simp add: sample_def)

text \<open>
  Percent decoding undoes any percent encoding that does not leave the percent sign
  and the plus sign plain, and its result never outgrows the buffer, which is as long as the text.
\<close>

theorem url_decode_roundtrip:
  assumes "\<not> plain CHR ''%''" and "\<not> plain CHR ''+''"
  shows "url_decode (url_encode plain s) = s \<and> length (url_decode t) \<le> length t"
  using url_decode_encode [of plain s] assms url_decode_length by blast

lemma url_decode_roundtrip_witness:
  "url_decode (url_encode (\<lambda>c. c \<noteq> CHR ''%'' \<and> c \<noteq> CHR ''+'' \<and> c \<noteq> CHR '' '') ''a b+c'') = ''a b+c''"
  using url_decode_roundtrip [of "\<lambda>c. c \<noteq> CHR ''%'' \<and> c \<noteq> CHR ''+'' \<and> c \<noteq> CHR '' ''"] by simp

text \<open>Only the first \<open>.log\<close> of a name is looked at, so this log file is passed over.\<close>

lemma first_log_only: "\<not> is_log_file ''a.login.log''"
  by (simp add: is_log_file_def strstr.simps)

text \<open>
  A number of threads that is a multiple of \<open>2 ^ 32\<close> passes the test and starts none: the program
  reports nothing at all, with success.
\<close>

lemma no_threads_no_statistics:
  "started [DirOpt ''d'', ThreadsOpt ''4294967296''] (\<lambda>_. Some es) (Inr (pool_start (log_paths ''d'' es) 0)) \<and>
   all_exited (pool_start files 0) \<and>
   log_report qu qr (pool_start files 0) = \<lparr>r_total = 0, r_urls = None, r_refs = None\<rparr>"
proof -
  have opts: "log_options [DirOpt ''d'', ThreadsOpt ''4294967296''] (None, 1) = Some (Some ''d'', 4294967296)"
      "to_int32 4294967296 = 0"
    by (simp_all add: strtol10_def strtol_erange_def is_space_def is_digit_def digits_val_def
        clamp_long_def to_int32_def Let_def)
  have "log_report qu qr (pool_start files 0) = \<lparr>r_total = 0, r_urls = None, r_refs = None\<rparr>"
    using collect_all [OF url_map_init_ok(1) ref_map_init_ok(1)]
    by (simp add: log_report_def pool_start_def url_map_init_def ref_map_init_def)
  then show ?thesis
    using log_start_ok [OF opts(1), of "\<lambda>_. Some es" es] opts(2)
    by (simp add: all_exited_def pool_start_def)
qed

end
