(* ===== verification/HttpServer.thy ===== *)
theory HttpServer
  imports CString
begin

text \<open>
  The HTTP server 23_http_server: request parsing, percent decoding, the answers, streaming a file
  through a non-blocking socket, the table of connections and the event loop. What the kernel
  answers is given: files by a record, the bytes that arrive and the number of bytes a socket takes
  by functions of what the code asks for. A buffer is the list of the bytes in use.
\<close>

section \<open>Connections\<close>

definition MAX_CONN :: nat where "MAX_CONN = 1024"
definition RECV_BUF_SIZE :: nat where "RECV_BUF_SIZE = 4096"
definition SEND_BUF_SIZE :: nat where "SEND_BUF_SIZE = 8192"
definition PATH_MAX :: nat where "PATH_MAX = 1024"

lemmas http_sizes = MAX_CONN_def RECV_BUF_SIZE_def SEND_BUF_SIZE_def PATH_MAX_def

datatype conn_state = STATE_READING | STATE_SENDING_HEADER | STATE_SENDING_FILE | STATE_CLOSING

record connection =
  c_fd :: int
  c_state :: conn_state
  recv_buf :: string      \<comment> \<open>the \<open>recv_len\<close> bytes received\<close>
  file_fd :: int
  file_offset :: nat
  file_size :: nat
  send_buf :: string
  send_len :: nat
  send_sent :: nat

definition fresh_connection :: connection where
  "fresh_connection = \<lparr>c_fd = 0, c_state = STATE_READING, recv_buf = [], file_fd = 0, file_offset = 0,
     file_size = 0, send_buf = [], send_len = 0, send_sent = 0\<rparr>"

datatype filter = EVFILT_READ | EVFILT_WRITE

text \<open>What a handler does outside its connection, in order.\<close>

datatype effect =
    Bytes int string          \<comment> \<open>bytes the socket has taken\<close>
  | CloseFd int
  | Watch int filter          \<comment> \<open>\<open>EV_ADD\<close> with the connection as user data\<close>
  | Unwatch int filter        \<comment> \<open>\<open>EV_DELETE\<close>\<close>

datatype stat_result = NoEntry | NoAccess | StatError | NotRegular | Regular nat

record host =
  h_stat :: "string \<Rightarrow> stat_result"
  h_readable :: "string \<Rightarrow> bool"
  h_open :: "string \<Rightarrow> int"                \<comment> \<open>\<open>- 1\<close> for a failure\<close>
  h_watch :: "int \<Rightarrow> filter \<Rightarrow> bool"        \<comment> \<open>whether \<open>EV_ADD\<close> succeeds\<close>

text \<open>Answers of the socket and of the file, to a request for so many bytes.\<close>

datatype recv_result = Received string | RecvAgain | RecvError
datatype send_result = Sent nat | SendAgain | SendError
datatype pread_result = Block string | PreadError

type_synonym sender = "string \<Rightarrow> send_result"

definition close_connection :: "connection \<Rightarrow> connection \<times> effect list" where
  "close_connection conn =
     (conn\<lparr>c_fd := -1, file_fd := -1, c_state := STATE_CLOSING\<rparr>,
      [Unwatch (c_fd conn) EVFILT_READ, Unwatch (c_fd conn) EVFILT_WRITE, CloseFd (c_fd conn)] @
      (if file_fd conn \<noteq> -1 then [CloseFd (file_fd conn)] else []))"

section \<open>Requests\<close>

definition get_mime_type :: "string \<Rightarrow> string" where
  "get_mime_type path =
     (case strrchr CHR ''.'' path of
        None \<Rightarrow> ''application/octet-stream''
      | Some ext \<Rightarrow>
          if ext = ''.html'' \<or> ext = ''.htm'' then ''text/html''
          else if ext = ''.txt'' then ''text/plain''
          else if ext = ''.css'' then ''text/css''
          else if ext = ''.js'' then ''application/javascript''
          else if ext = ''.json'' then ''application/json''
          else if ext = ''.png'' then ''image/png''
          else if ext = ''.jpg'' \<or> ext = ''.jpeg'' then ''image/jpeg''
          else if ext = ''.gif'' then ''image/gif''
          else if ext = ''.ico'' then ''image/x-icon''
          else if ext = ''.svg'' then ''image/svg+xml''
          else if ext = ''.pdf'' then ''application/pdf''
          else ''application/octet-stream'')"

text \<open>
  \<open>strtol\<close> in base 16 of a string of two characters, where it uses both and the value is not
  negative; it also takes a blank or a sign before the digit.
\<close>

definition hex2 :: "char \<Rightarrow> char \<Rightarrow> nat option" where
  "hex2 a b =
     (case (hex_val a, hex_val b) of
        (Some x, Some y) \<Rightarrow> Some (16 * x + y)
      | (None, Some y) \<Rightarrow>
          if is_space a \<or> a = CHR ''+'' then Some y
          else if a = CHR ''-'' \<and> y = 0 then Some 0 else None
      | _ \<Rightarrow> None)"

text \<open>The first argument is the room that is left, without the closing NUL.\<close>

fun http_url_decode :: "nat \<Rightarrow> string \<Rightarrow> string" where
  "http_url_decode 0 src = []"
| "http_url_decode (Suc n) [] = []"
| "http_url_decode (Suc n) (c # s) =
     (if c = CHR ''+'' then CHR '' '' # http_url_decode n s
      else if c = CHR ''%'' then
        (case s of
           a # b # s' \<Rightarrow>
             (case hex2 a b of
                Some v \<Rightarrow> char_of v # http_url_decode n s'
              | None \<Rightarrow> c # http_url_decode n s)
         | _ \<Rightarrow> c # http_url_decode n s)
      else c # http_url_decode n s)"

definition is_safe_path :: "string \<Rightarrow> bool" where
  "is_safe_path path \<longleftrightarrow> strstr ''..'' path = None"

definition crlf :: string where "crlf = [CHR 0x0D, CHR 0x0A]"

definition http_header :: "nat \<Rightarrow> string \<Rightarrow> string \<Rightarrow> nat \<Rightarrow> string" where
  "http_header code status content_type content_len =
     ''HTTP/1.1 '' @ dec code @ '' '' @ status @ crlf @
     ''Content-Type: '' @ content_type @ crlf @
     ''Content-Length: '' @ dec content_len @ crlf @
     ''Connection: close'' @ crlf @ crlf"

definition build_http_status :: "connection \<Rightarrow> nat \<Rightarrow> string \<Rightarrow> string \<Rightarrow> nat \<Rightarrow> connection" where
  "build_http_status conn code status content_type content_len =
     (let text = http_header code status content_type content_len
      in conn\<lparr>send_buf := take (SEND_BUF_SIZE - 1) text, send_len := length text, send_sent := 0,
           c_state := STATE_SENDING_HEADER\<rparr>)"

text \<open>Both ends of an answer: the connection waits to be writable, or is closed.\<close>

definition watch_write :: "host \<Rightarrow> connection \<Rightarrow> connection \<times> effect list" where
  "watch_write h conn =
     (if h_watch h (c_fd conn) EVFILT_WRITE then (conn, [Watch (c_fd conn) EVFILT_WRITE])
      else close_connection conn)"

definition send_error :: "host \<Rightarrow> connection \<Rightarrow> nat \<Rightarrow> string \<Rightarrow> connection \<times> effect list" where
  "send_error h conn code status =
     (let body = status;
          body_len = length body;
          conn = build_http_status conn code status ''text/plain'' body_len;
          conn = (if send_len conn + body_len < SEND_BUF_SIZE
                  then conn\<lparr>send_buf := take (send_len conn) (send_buf conn) @ body,
                         send_len := send_len conn + body_len\<rparr>
                  else conn)
      in watch_write h conn)"

text \<open>One \<open>%s\<close> of \<open>sscanf\<close> with a width: the word, if there is one, and the rest.\<close>

definition scan_word :: "nat \<Rightarrow> string \<Rightarrow> (string \<times> string) option" where
  "scan_word n s =
     (let t = dropWhile is_space s;
          w = take n (takeWhile (\<lambda>c. \<not> is_space c) t)
      in if w = [] then None else Some (w, drop (length w) t))"

definition scan_request :: "string \<Rightarrow> (string \<times> string \<times> string) option" where
  "scan_request s =
     (case scan_word 15 s of None \<Rightarrow> None | Some (meth, s) \<Rightarrow>
        (case scan_word 1023 s of None \<Rightarrow> None | Some (path, s) \<Rightarrow>
           (case scan_word 15 s of None \<Rightarrow> None | Some (version, _) \<Rightarrow> Some (meth, path, version))))"

definition handle_request :: "host \<Rightarrow> string \<Rightarrow> connection \<Rightarrow> connection \<times> effect list" where
  "handle_request h root_dir conn =
     (case scan_request (c_str (recv_buf conn)) of
        None \<Rightarrow> send_error h conn 400 ''Bad Request''
      | Some (meth, path, version) \<Rightarrow>
        if meth \<noteq> ''GET'' then send_error h conn 405 ''Method Not Allowed''
        else
          let decoded_path = c_str (http_url_decode (1024 - 1) path) in
          if \<not> is_safe_path decoded_path then send_error h conn 403 ''Forbidden''
          else
            let full_path = root_dir @ ''/'' @ decoded_path in
            if length full_path \<ge> PATH_MAX then send_error h conn 414 ''URI Too Long''
            else
              (case h_stat h full_path of
                 NoEntry \<Rightarrow> send_error h conn 404 ''Not Found''
               | NoAccess \<Rightarrow> send_error h conn 403 ''Forbidden''
               | StatError \<Rightarrow> send_error h conn 500 ''Internal Server Error''
               | NotRegular \<Rightarrow> send_error h conn 404 ''Not Found''
               | Regular st_size \<Rightarrow>
                 if \<not> h_readable h full_path then send_error h conn 403 ''Forbidden''
                 else
                   let fd = h_open h full_path in
                   if fd = -1 then send_error h conn 500 ''Internal Server Error''
                   else
                     watch_write h (build_http_status
                       (conn\<lparr>file_fd := fd, file_offset := 0, file_size := st_size\<rparr>)
                       200 ''OK'' (get_mime_type full_path) st_size)))"

text \<open>
  \<open>recv\<close> is asked for the room left in the buffer but one byte, where the NUL goes; the answer
  \<open>Received []\<close> is its 0.
\<close>

definition handle_read ::
  "host \<Rightarrow> string \<Rightarrow> (nat \<Rightarrow> recv_result) \<Rightarrow> connection \<Rightarrow> (connection \<times> effect list) cres" where
  "handle_read h root_dir rcv conn =
     (if c_fd conn = -1 then Inr (conn, [])
      else if length (recv_buf conn) \<ge> RECV_BUF_SIZE then Inl OutOfBounds
      else
        case rcv (RECV_BUF_SIZE - length (recv_buf conn) - 1) of
          RecvAgain \<Rightarrow> Inr (conn, [])
        | RecvError \<Rightarrow> Inr (close_connection conn)
        | Received d \<Rightarrow>
          if d = [] then Inr (close_connection conn)
          else
            let conn = conn\<lparr>recv_buf := recv_buf conn @ d\<rparr> in
            if length (recv_buf conn) \<ge> RECV_BUF_SIZE then Inl OutOfBounds
            else if strstr (crlf @ crlf) (c_str (recv_buf conn)) \<noteq> None then
              (case handle_request h root_dir conn of
                 (conn', out) \<Rightarrow> Inr (conn', Unwatch (c_fd conn) EVFILT_READ # out))
            else if length (recv_buf conn) \<ge> RECV_BUF_SIZE - 1
              then Inr (send_error h conn 413 ''Payload Too Large'')
            else Inr (conn, []))"

section \<open>Sending\<close>

text \<open>
  Sending what is left of the buffer, the same for the header and for a block of the file: the
  connection, what happened, and whether the handler goes on.
\<close>

definition send_rest :: "sender \<Rightarrow> connection \<Rightarrow> connection \<times> effect list \<times> bool" where
  "send_rest snd_fn conn =
     (let rest = drop (send_sent conn) (take (send_len conn) (send_buf conn)) in
      case snd_fn rest of
        SendAgain \<Rightarrow> (conn, [], False)
      | SendError \<Rightarrow> (case close_connection conn of (c, out) \<Rightarrow> (c, out, False))
      | Sent k \<Rightarrow> (conn\<lparr>send_sent := send_sent conn + k\<rparr>, [Bytes (c_fd conn) (take k rest)],
          send_len conn \<le> send_sent conn + k))"

definition write_header :: "sender \<Rightarrow> connection \<Rightarrow> connection \<times> effect list \<times> bool" where
  "write_header snd_fn conn =
     (case send_rest snd_fn conn of (conn, out, go) \<Rightarrow>
        if \<not> go then (conn, out, False)
        else if file_fd conn \<noteq> -1
          then (conn\<lparr>c_state := STATE_SENDING_FILE, send_len := 0, send_sent := 0\<rparr>, out, True)
        else (case close_connection conn of (c, out') \<Rightarrow> (c, out @ out', False)))"

definition next_block :: "(nat \<Rightarrow> pread_result) \<Rightarrow> sender \<Rightarrow> connection \<Rightarrow> connection \<times> effect list" where
  "next_block prd snd_fn conn =
     (case prd (file_offset conn) of
        PreadError \<Rightarrow> close_connection conn
      | Block b \<Rightarrow>
        if b = [] then close_connection conn
        else
          let conn = conn\<lparr>send_buf := b, send_len := length b, send_sent := 0,
                       file_offset := file_offset conn + length b\<rparr> in
          (case snd_fn b of
             SendAgain \<Rightarrow> (conn, [])
           | SendError \<Rightarrow> close_connection conn
           | Sent k \<Rightarrow> (conn\<lparr>send_sent := k\<rparr>, [Bytes (c_fd conn) (take k b)])))"

definition write_file :: "sender \<Rightarrow> (nat \<Rightarrow> pread_result) \<Rightarrow> sender \<Rightarrow> connection \<Rightarrow> connection \<times> effect list" where
  "write_file snd1 prd snd2 conn =
     (if send_sent conn < send_len conn then
        (case send_rest snd1 conn of (conn, out, go) \<Rightarrow>
           if go then (case next_block prd snd2 conn of (conn, out') \<Rightarrow> (conn, out @ out'))
           else (conn, out))
      else next_block prd snd2 conn)"

definition handle_write :: "sender \<Rightarrow> (nat \<Rightarrow> pread_result) \<Rightarrow> sender \<Rightarrow> connection \<Rightarrow> connection \<times> effect list" where
  "handle_write snd1 prd snd2 conn =
     (if c_fd conn = -1 then (conn, [])
      else if c_state conn = STATE_SENDING_HEADER then
        (case write_header snd1 conn of (conn, out, go) \<Rightarrow>
           if go then (case write_file snd1 prd snd2 conn of (conn, out') \<Rightarrow> (conn, out @ out'))
           else (conn, out))
      else if c_state conn = STATE_SENDING_FILE then write_file snd1 prd snd2 conn
      else (conn, []))"

section \<open>The server\<close>

record server =
  root_dir :: "string option"
  listen_addr :: "string option"
  listen_fd :: int
  conns :: "connection list"
  nconns :: nat
  kq :: "int \<times> filter \<Rightarrow> nat option option"
    \<comment> \<open>what is registered, with the slot of \<open>conns\<close> its user data points to, or null\<close>

definition server_start :: server where
  "server_start = \<lparr>root_dir = None, listen_addr = None, listen_fd = -1,
     conns = replicate MAX_CONN (fresh_connection\<lparr>c_fd := -1, file_fd := -1\<rparr>), nconns = 0,
     kq = (\<lambda>_. None)\<rparr>"

text \<open>The events of a closed descriptor disappear with it.\<close>

definition kq_effect :: "nat \<Rightarrow> effect \<Rightarrow> (int \<times> filter \<Rightarrow> nat option option) \<Rightarrow> (int \<times> filter \<Rightarrow> nat option option)" where
  "kq_effect slot e m =
     (case e of
        Watch fd f \<Rightarrow> m((fd, f) := Some (Some slot))
      | Unwatch fd f \<Rightarrow> m((fd, f) := None)
      | CloseFd fd \<Rightarrow> m((fd, EVFILT_READ) := None, (fd, EVFILT_WRITE) := None)
      | Bytes fd s \<Rightarrow> m)"

definition kq_effects :: "nat \<Rightarrow> effect list \<Rightarrow> (int \<times> filter \<Rightarrow> nat option option) \<Rightarrow> (int \<times> filter \<Rightarrow> nat option option)" where
  "kq_effects slot es m = fold (kq_effect slot) es m"

text \<open>\<open>accept\<close> returns a descriptor or \<open>- 1\<close>; then \<open>set_nonblocking\<close> and \<open>EV_ADD\<close> may fail.\<close>

definition accept_connection :: "host \<Rightarrow> int \<Rightarrow> bool \<Rightarrow> server \<Rightarrow> server cres" where
  "accept_connection h client_fd nonblocking srv =
     (if client_fd = -1 then Inr srv
      else if nconns srv \<ge> MAX_CONN then Inr srv
      else if \<not> nonblocking then Inr srv
      else if nconns srv \<ge> length (conns srv) then Inl OutOfBounds
      else
        let conn = fresh_connection\<lparr>c_fd := client_fd, c_state := STATE_READING, file_fd := -1\<rparr>;
            slot = nconns srv;
            srv = srv\<lparr>conns := (conns srv)[slot := conn], nconns := nconns srv + 1\<rparr>
        in if h_watch h client_fd EVFILT_READ
           then Inr (srv\<lparr>kq := kq_effect slot (Watch client_fd EVFILT_READ) (kq srv)\<rparr>)
           else Inr (srv\<lparr>nconns := nconns srv - 1\<rparr>))"

datatype activity =
    Acceptable int bool
  | Readable "nat \<Rightarrow> recv_result"
  | Writable sender "nat \<Rightarrow> pread_result" sender

text \<open>An event of \<open>kevent\<close>: the descriptor, the user data, and what the calls on it answer.\<close>

record event =
  ev_ident :: int
  ev_udata :: "nat option"
  ev_activity :: activity

definition handle_event :: "host \<Rightarrow> event \<Rightarrow> server \<Rightarrow> (server \<times> effect list) cres" where
  "handle_event h ev srv =
     (if ev_ident ev = listen_fd srv then
        (case ev_activity ev of
           Acceptable fd nb \<Rightarrow> bindE (accept_connection h fd nb srv) (\<lambda>srv. Inr (srv, []))
         | _ \<Rightarrow> Inr (srv, []))
      else
        (case ev_udata ev of
           None \<Rightarrow> Inr (srv, [])
         | Some slot \<Rightarrow>
           if slot \<ge> length (conns srv) then Inl OutOfBounds
           else
             bindE (case ev_activity ev of
                      Readable rcv \<Rightarrow>
                        (case root_dir srv of
                           None \<Rightarrow> Inl NullDeref
                         | Some dir \<Rightarrow> handle_read h dir rcv (conns srv ! slot))
                    | Writable s1 prd s2 \<Rightarrow> Inr (handle_write s1 prd s2 (conns srv ! slot))
                    | Acceptable _ _ \<Rightarrow> Inr (conns srv ! slot, []))
               (\<lambda>(conn, out). Inr (srv\<lparr>conns := (conns srv)[slot := conn],
                  kq := kq_effects slot out (kq srv)\<rparr>, out))))"

text \<open>The open connections move to the front; what is behind them stays in the array.\<close>

definition free_step :: "connection list \<times> nat \<Rightarrow> nat \<Rightarrow> connection list \<times> nat" where
  "free_step s i =
     (case s of (cs, j) \<Rightarrow>
        if c_fd (cs ! i) \<noteq> -1 then ((if i \<noteq> j then cs[j := cs ! i] else cs), j + 1) else (cs, j))"

definition free_conns :: "server \<Rightarrow> server" where
  "free_conns srv =
     (case foldl free_step (conns srv, 0) [0..<nconns srv] of
        (cs, j) \<Rightarrow> srv\<lparr>conns := cs, nconns := j\<rparr>)"

fun handle_events :: "host \<Rightarrow> event list \<Rightarrow> server \<Rightarrow> (server \<times> effect list) cres" where
  "handle_events h [] srv = Inr (srv, [])"
| "handle_events h (ev # evs) srv =
     bindE (handle_event h ev srv) (\<lambda>(srv, out).
       bindE (handle_events h evs srv) (\<lambda>(srv, out'). Inr (srv, out @ out')))"

definition serve_round :: "host \<Rightarrow> event list \<Rightarrow> server \<Rightarrow> (server \<times> effect list) cres" where
  "serve_round h evs srv =
     bindE (handle_events h evs srv) (\<lambda>(srv, out). Inr (free_conns srv, out))"

section \<open>Start of the server\<close>

datatype http_opt = RootOpt string | ListenOpt string | WrongOpt

fun parse_args :: "http_opt list \<Rightarrow> server \<Rightarrow> server option" where
  "parse_args [] srv = (if root_dir srv = None \<or> listen_addr srv = None then None else Some srv)"
| "parse_args (RootOpt d # os) srv = parse_args os (srv\<lparr>root_dir := Some d\<rparr>)"
| "parse_args (ListenOpt a # os) srv = parse_args os (srv\<lparr>listen_addr := Some a\<rparr>)"
| "parse_args (WrongOpt # os) srv = None"

text \<open>The address and the port of the text after \<open>-l\<close>, of which 63 characters are kept.\<close>

definition listen_address :: "string \<Rightarrow> (string \<times> int) option" where
  "listen_address s =
     (let addr_str = take 63 s in
      case strrchr CHR '':'' addr_str of
        None \<Rightarrow> None
      | Some colon \<Rightarrow>
          (case strtol10 (tl colon) of (port, end_ptr) \<Rightarrow>
             if end_ptr \<noteq> [] \<or> port \<le> 0 \<or> port > 65535 then None
             else Some (take (length addr_str - length colon) addr_str, port)))"

text \<open>The system calls of the set-up: \<open>socket\<close>'s result, and whether the others succeed.\<close>

record net =
  n_socket :: int
  n_setsockopt :: bool
  n_inet_pton :: "string \<Rightarrow> bool"
  n_bind :: "int \<Rightarrow> bool"
  n_listen :: bool
  n_nonblocking :: bool

definition setup_listen_socket :: "net \<Rightarrow> server \<Rightarrow> server \<times> bool" where
  "setup_listen_socket net srv =
     (case listen_addr srv of
        None \<Rightarrow> (srv, False)
      | Some a \<Rightarrow>
          (case listen_address a of
             None \<Rightarrow> (srv, False)
           | Some (addr, port) \<Rightarrow>
               if n_socket net = -1 then (srv\<lparr>listen_fd := -1\<rparr>, False)
               else if \<not> n_setsockopt net \<or> \<not> n_inet_pton net addr \<or> \<not> n_bind net port \<or>
                 \<not> n_listen net \<or> \<not> n_nonblocking net then (srv\<lparr>listen_fd := -1\<rparr>, False)
               else (srv\<lparr>listen_fd := n_socket net\<rparr>, True)))"

definition http_start :: "host \<Rightarrow> net \<Rightarrow> http_opt list \<Rightarrow> server option" where
  "http_start h net os =
     (case parse_args os server_start of
        None \<Rightarrow> None
      | Some srv \<Rightarrow>
          (case setup_listen_socket net srv of (srv, ok) \<Rightarrow>
             if \<not> ok then None
             else if \<not> h_watch h (listen_fd srv) EVFILT_READ then None
             else Some (srv\<lparr>kq := (kq srv)((listen_fd srv, EVFILT_READ) := Some None)\<rparr>)))"

text \<open>What \<open>cleanup\<close> closes at exit.\<close>

definition http_cleanup :: "server \<Rightarrow> int list" where
  "http_cleanup srv =
     (if listen_fd srv \<noteq> -1 then [listen_fd srv] else []) @
     concat (map (\<lambda>c. (if c_fd c \<noteq> -1 then [c_fd c] else []) @ (if file_fd c \<noteq> -1 then [file_fd c] else []))
       (take (nconns srv) (conns srv)))"

section \<open>Streaming a file\<close>

text \<open>
  What the kernel may answer: a socket takes no more than it is offered, and \<open>pread\<close> returns a
  piece of the file at the offset, empty only at its end, at most as long as the buffer.
\<close>

definition sender_ok :: "sender \<Rightarrow> bool" where
  "sender_ok s \<longleftrightarrow> (\<forall>b k. s b = Sent k \<longrightarrow> k \<le> length b)"

definition sender_alive :: "sender \<Rightarrow> bool" where
  "sender_alive s \<longleftrightarrow> (\<forall>b. s b \<noteq> SendError)"

text \<open>A socket that takes at least one byte.\<close>

definition sender_eager :: "sender \<Rightarrow> bool" where
  "sender_eager s \<longleftrightarrow> (\<forall>b. b \<noteq> [] \<longrightarrow> (\<exists>k. s b = Sent k \<and> 0 < k))"

definition file_reads :: "string \<Rightarrow> (nat \<Rightarrow> pread_result) \<Rightarrow> bool" where
  "file_reads c prd \<longleftrightarrow> (\<forall>off. \<exists>n \<le> SEND_BUF_SIZE. prd off = Block (take n (drop off c)) \<and>
     (off < length c \<longrightarrow> 0 < n))"

lemma sender_eager_pos: "sender_eager s \<Longrightarrow> s b = Sent k \<Longrightarrow> b \<noteq> [] \<Longrightarrow> 0 < k"
  unfolding sender_eager_def by (metis send_result.inject)

lemma sender_eager_again: "s b = SendAgain \<Longrightarrow> b \<noteq> [] \<Longrightarrow> \<not> sender_eager s"
  unfolding sender_eager_def by (metis send_result.distinct(1))

fun bytes_out :: "effect list \<Rightarrow> string" where
  "bytes_out [] = []"
| "bytes_out (Bytes fd s # es) = s @ bytes_out es"
| "bytes_out (e # es) = bytes_out es"

lemma bytes_out_append [simp]: "bytes_out (xs @ ys) = bytes_out xs @ bytes_out ys"
  by (induction xs rule: bytes_out.induct) simp_all

fun run_writes :: "(sender \<times> (nat \<Rightarrow> pread_result) \<times> sender) list \<Rightarrow> connection \<Rightarrow> connection \<times> effect list" where
  "run_writes [] conn = (conn, [])"
| "run_writes ((s1, prd, s2) # calls) conn =
     (case handle_write s1 prd s2 conn of (conn, out) \<Rightarrow>
        (case run_writes calls conn of (conn, out') \<Rightarrow> (conn, out @ out')))"

text \<open>
  \<open>w\<close> is what the client has received of the answer \<open>hdr @ c\<close>; in the file phase what is left in
  the buffer continues it up to the offset.
\<close>

definition in_file :: "string \<Rightarrow> string \<Rightarrow> connection \<Rightarrow> string \<Rightarrow> bool" where
  "in_file hdr c conn w \<longleftrightarrow>
     c_fd conn \<noteq> -1 \<and> file_fd conn \<noteq> -1 \<and> c_state conn = STATE_SENDING_FILE \<and> file_offset conn \<le> length c \<and>
     send_sent conn \<le> send_len conn \<and> send_len conn \<le> length (send_buf conn) \<and>
     w @ drop (send_sent conn) (take (send_len conn) (send_buf conn)) = hdr @ take (file_offset conn) c"

definition in_header :: "string \<Rightarrow> connection \<Rightarrow> string \<Rightarrow> bool" where
  "in_header hdr conn w \<longleftrightarrow>
     c_fd conn \<noteq> -1 \<and> file_fd conn \<noteq> -1 \<and> c_state conn = STATE_SENDING_HEADER \<and> file_offset conn = 0 \<and>
     send_buf conn = hdr \<and> send_len conn = length hdr \<and> send_sent conn < length hdr \<and>
     w = take (send_sent conn) hdr"

definition stream :: "string \<Rightarrow> string \<Rightarrow> connection \<Rightarrow> string \<Rightarrow> bool" where
  "stream hdr c conn w \<longleftrightarrow>
     c_fd conn = -1 \<and> w = hdr @ c \<or> in_header hdr conn w \<or> in_file hdr c conn w"

definition to_send :: "string \<Rightarrow> string \<Rightarrow> connection \<Rightarrow> string \<Rightarrow> nat" where
  "to_send hdr c conn w = (if c_fd conn = -1 then 0 else Suc (length (hdr @ c) - length w))"

lemma stream_prefix: "stream hdr c conn w \<Longrightarrow> \<exists>r. w @ r = hdr @ c"
  unfolding stream_def in_header_def in_file_def
  by (metis append.assoc append_Nil2 append_take_drop_id)

lemma stream_length: "stream hdr c conn w \<Longrightarrow> length w \<le> length (hdr @ c)"
  using stream_prefix by (metis length_append le_add1)

lemma close_simps [simp]:
  "c_fd (fst (close_connection conn)) = -1" "bytes_out (snd (close_connection conn)) = []"
  by (simp_all add: close_connection_def)

lemma drop_take_split:
  assumes "k \<le> length (drop i (take n xs))"
  shows "take k (drop i (take n xs)) @ drop (i + k) (take n xs) = drop i (take n xs)"
  by (metis add.commute append_take_drop_id drop_drop)

lemma next_block_stream:
  assumes f: "in_file hdr c conn w" and full: "send_sent conn = send_len conn"
    and prd: "file_reads c prd" and s: "sender_ok s" "sender_alive s"
    and r: "next_block prd s conn = (conn', out)"
  shows "stream hdr c conn' (w @ bytes_out out) \<and>
    (sender_eager s \<longrightarrow> to_send hdr c conn' (w @ bytes_out out) < to_send hdr c conn w)"
proof -
  have w: "w = hdr @ take (file_offset conn) c" using f full by (simp add: in_file_def)
  have off: "file_offset conn \<le> length c" "c_fd conn \<noteq> -1" "file_fd conn \<noteq> -1"
      "c_state conn = STATE_SENDING_FILE"
    using f by (simp_all add: in_file_def)
  obtain n where n: "prd (file_offset conn) = Block (take n (drop (file_offset conn) c))"
      "file_offset conn < length c \<longrightarrow> 0 < n"
    using prd unfolding file_reads_def by blast
  define b where "b = take n (drop (file_offset conn) c)"
  show ?thesis
  proof (cases "b = []")
    case True
    then have "file_offset conn = length c" using n(2) off(1) by (auto simp: b_def)
    then show ?thesis
      using True r n(1) w off(2) close_simps [of conn]
      by (auto simp: next_block_def b_def [symmetric] stream_def to_send_def prod_eq_iff)
  next
    case False
    let ?c1 = "conn\<lparr>send_buf := b, send_len := length b, send_sent := 0,
                 file_offset := file_offset conn + length b\<rparr>"
    have lb: "file_offset conn + length b \<le> length c" using off(1) by (simp add: b_def)
    have "take (file_offset conn) c @ b = take (file_offset conn + length b) c"
      by (simp add: b_def take_add min_def)
    then have wb: "w @ b = hdr @ take (file_offset conn + length b) c" using w by simp
    show ?thesis
    proof (cases "s b")
      case (Sent k)
      then have k: "k \<le> length b" using s(1) by (simp add: sender_ok_def)
      have c': "conn' = ?c1\<lparr>send_sent := k\<rparr>" "out = [Bytes (c_fd conn) (take k b)]"
        using r n(1) False Sent by (simp_all add: next_block_def b_def [symmetric] Let_def)
      have "in_file hdr c conn' (w @ take k b)"
        using c' off lb k wb by (simp add: in_file_def)
      moreover have "0 < k" if "sender_eager s"
        using that False Sent unfolding sender_eager_def by fastforce
      moreover have "length (w @ b) \<le> length (hdr @ c)" using wb lb by simp
      ultimately show ?thesis
        using c' off(2) k by (auto simp: stream_def to_send_def)
    next
      case SendAgain
      then have c': "conn' = ?c1" "out = []"
        using r n(1) False by (simp_all add: next_block_def b_def [symmetric] Let_def)
      have "\<not> sender_eager s" using SendAgain False sender_eager_again by blast
      then show ?thesis using c' off lb wb by (simp add: stream_def in_file_def)
    next
      case SendError
      then show ?thesis using s(2) by (simp add: sender_alive_def)
    qed
  qed
qed

lemma write_file_stream:
  assumes f: "in_file hdr c conn w" and prd: "file_reads c prd"
    and s1: "sender_ok s1" "sender_alive s1" and s2: "sender_ok s2" "sender_alive s2"
    and r: "write_file s1 prd s2 conn = (conn', out)"
  shows "stream hdr c conn' (w @ bytes_out out) \<and>
    (sender_eager s1 \<and> sender_eager s2 \<longrightarrow> to_send hdr c conn' (w @ bytes_out out) < to_send hdr c conn w)"
proof (cases "send_sent conn < send_len conn")
  case False
  then have "send_sent conn = send_len conn" using f by (simp add: in_file_def)
  then show ?thesis using next_block_stream [OF f _ prd s2] r False by (simp add: write_file_def)
next
  case True
  let ?rest = "drop (send_sent conn) (take (send_len conn) (send_buf conn))"
  have ne: "?rest \<noteq> []" using True f by (simp add: in_file_def)
  show ?thesis
  proof (cases "s1 ?rest")
    case (Sent k)
    then have k: "k \<le> length ?rest" using s1(1) unfolding sender_ok_def by blast
    let ?c1 = "conn\<lparr>send_sent := send_sent conn + k\<rparr>"
    have rest: "send_rest s1 conn = (?c1, [Bytes (c_fd conn) (take k ?rest)], send_len conn \<le> send_sent conn + k)"
      using Sent by (simp add: send_rest_def Let_def)
    have eq: "(w @ take k ?rest) @ drop (send_sent conn + k) (take (send_len conn) (send_buf conn)) = w @ ?rest"
      by (simp only: append_assoc drop_take_split [OF k])
    have "send_sent conn + k \<le> send_len conn" using k f by (auto simp: in_file_def)
    then have f1: "in_file hdr c ?c1 (w @ take k ?rest)"
      using f eq unfolding in_file_def by (simp del: append_assoc)
    have pos: "0 < k" if "sender_eager s1" using that Sent ne by (rule sender_eager_pos)
    have fd: "c_fd conn \<noteq> -1" using f by (simp add: in_file_def)
    have "length (w @ ?rest) \<le> length (hdr @ c)"
      using stream_prefix [of hdr c ?c1 "w @ take k ?rest"] f unfolding in_file_def by simp
    then have less: "sender_eager s1 \<longrightarrow> to_send hdr c ?c1 (w @ take k ?rest) < to_send hdr c conn w"
      using pos k fd by (auto simp: to_send_def)
    show ?thesis
    proof (cases "send_len conn \<le> send_sent conn + k")
      case False
      then show ?thesis using r True rest f1 less by (auto simp: write_file_def stream_def)
    next
      case full: True
      then have eq: "send_sent ?c1 = send_len ?c1" using k True f by (simp add: in_file_def)
      obtain out2 where n: "next_block prd s2 ?c1 = (conn', out2)" "out = Bytes (c_fd conn) (take k ?rest) # out2"
        using r True rest full by (auto simp: write_file_def split: prod.splits)
      have "w @ bytes_out out = (w @ take k ?rest) @ bytes_out out2" using n(2) by simp
      then show ?thesis
        using next_block_stream [OF f1 eq prd s2 n(1)] less by (metis less_trans)
    qed
  next
    case SendAgain
    then have "\<not> sender_eager s1" using ne sender_eager_again by blast
    then show ?thesis using r True SendAgain f by (auto simp: write_file_def send_rest_def stream_def)
  next
    case SendError
    then show ?thesis using s1(2) by (simp add: sender_alive_def)
  qed
qed

lemma write_header_stream:
  assumes h: "in_header hdr conn w" and s: "sender_ok s1" "sender_alive s1"
    and r: "write_header s1 conn = (conn', out, go)"
  shows "if go then in_file hdr c conn' (w @ bytes_out out) \<and>
      to_send hdr c conn' (w @ bytes_out out) < to_send hdr c conn w
    else in_header hdr conn' (w @ bytes_out out) \<and>
      (sender_eager s1 \<longrightarrow> to_send hdr c conn' (w @ bytes_out out) < to_send hdr c conn w)"
proof -
  let ?rest = "drop (send_sent conn) hdr"
  have same: "take (send_len conn) (send_buf conn) = hdr" using h by (simp add: in_header_def)
  have ne: "?rest \<noteq> []" using h by (simp add: in_header_def)
  have lw: "length w = send_sent conn" using h by (simp add: in_header_def)
  show ?thesis
  proof (cases "s1 ?rest")
    case (Sent k)
    then have k: "k \<le> length ?rest" using s(1) unfolding sender_ok_def by blast
    then have kl: "send_sent conn + k \<le> length hdr" using h by (auto simp: in_header_def)
    have wk: "w @ take k ?rest = take (send_sent conn + k) hdr"
      using h by (simp add: in_header_def take_add)
    have rest: "send_rest s1 conn = (conn\<lparr>send_sent := send_sent conn + k\<rparr>,
        [Bytes (c_fd conn) (take k ?rest)], send_len conn \<le> send_sent conn + k)"
      using Sent by (simp add: send_rest_def Let_def same)
    have pos: "0 < k" if "sender_eager s1" using that Sent ne by (rule sender_eager_pos)
    show ?thesis
    proof (cases "send_len conn \<le> send_sent conn + k")
      case True
      then have c': "conn' = conn\<lparr>c_state := STATE_SENDING_FILE, send_len := 0, send_sent := 0\<rparr>"
          "out = [Bytes (c_fd conn) (take k ?rest)]" "go"
        using r rest h by (simp_all add: write_header_def in_header_def)
      have sum: "send_sent conn + k = length hdr" using True kl h by (simp add: in_header_def)
      then have whole: "w @ take k ?rest = hdr" unfolding wk by simp
      have "in_file hdr c conn' hdr" using h c'(1) by (simp add: in_header_def in_file_def)
      moreover have "to_send hdr c conn' hdr < to_send hdr c conn w"
        using h c'(1) lw by (auto simp: in_header_def to_send_def)
      ultimately show ?thesis using c'(2,3) whole by simp
    next
      case False
      then have c': "conn' = conn\<lparr>send_sent := send_sent conn + k\<rparr>"
          "out = [Bytes (c_fd conn) (take k ?rest)]" "\<not> go"
        using r rest by (simp_all add: write_header_def)
      then show ?thesis
        using h wk lw kl pos False by (auto simp: in_header_def to_send_def)
    qed
  next
    case SendAgain
    then have "\<not> sender_eager s1" using ne sender_eager_again by blast
    then show ?thesis using r SendAgain h same by (simp add: write_header_def send_rest_def)
  next
    case SendError
    then show ?thesis using s(2) by (simp add: sender_alive_def)
  qed
qed

lemma handle_write_stream:
  assumes st: "stream hdr c conn w" and prd: "file_reads c prd"
    and s1: "sender_ok s1" "sender_alive s1" and s2: "sender_ok s2" "sender_alive s2"
    and r: "handle_write s1 prd s2 conn = (conn', out)"
  shows "stream hdr c conn' (w @ bytes_out out) \<and>
    (sender_eager s1 \<and> sender_eager s2 \<and> c_fd conn \<noteq> -1 \<longrightarrow>
      to_send hdr c conn' (w @ bytes_out out) < to_send hdr c conn w)"
proof -
  consider "c_fd conn = -1" "w = hdr @ c" | "c_fd conn \<noteq> -1" "in_header hdr conn w"
    | "c_fd conn \<noteq> -1" "in_file hdr c conn w"
    using st by (auto simp: stream_def in_header_def in_file_def)
  then show ?thesis
  proof cases
    case 1
    then show ?thesis using r by (auto simp: handle_write_def stream_def)
  next
    case 2
    obtain conn1 out1 go where h: "write_header s1 conn = (conn1, out1, go)"
      by (cases "write_header s1 conn")
    note hs = write_header_stream [OF 2(2) s1 h, of c]
    have st2: "c_state conn = STATE_SENDING_HEADER" using 2 by (simp add: in_header_def)
    show ?thesis
    proof (cases go)
      case True
      obtain out2 where f: "write_file s1 prd s2 conn1 = (conn', out2)" "out = out1 @ out2"
        using r h True 2(1) st2 by (auto simp: handle_write_def split: prod.splits)
      have "in_file hdr c conn1 (w @ bytes_out out1)" using hs True by simp
      from write_file_stream [OF this prd s1 s2 f(1)] show ?thesis
        using hs True f(2) by auto
    next
      case False
      then have "conn' = conn1" "out = out1" using r h 2(1) st2 by (auto simp: handle_write_def)
      then show ?thesis using hs False by (auto simp: stream_def)
    qed
  next
    case 3
    then have "handle_write s1 prd s2 conn = write_file s1 prd s2 conn"
      by (simp add: handle_write_def in_file_def)
    then show ?thesis using write_file_stream [OF 3(2) prd s1 s2] r by simp
  qed
qed

definition calls_ok :: "string \<Rightarrow> (sender \<times> (nat \<Rightarrow> pread_result) \<times> sender) list \<Rightarrow> bool" where
  "calls_ok c calls \<longleftrightarrow> (\<forall>(s1, prd, s2) \<in> set calls.
     sender_ok s1 \<and> sender_alive s1 \<and> file_reads c prd \<and> sender_ok s2 \<and> sender_alive s2)"

definition calls_eager :: "(sender \<times> (nat \<Rightarrow> pread_result) \<times> sender) list \<Rightarrow> bool" where
  "calls_eager calls \<longleftrightarrow> (\<forall>(s1, prd, s2) \<in> set calls. sender_eager s1 \<and> sender_eager s2)"

lemma run_writes_stream:
  assumes "stream hdr c conn w" "calls_ok c calls" "run_writes calls conn = (conn', out)"
  shows "stream hdr c conn' (w @ bytes_out out) \<and>
    (calls_eager calls \<and> to_send hdr c conn w \<le> length calls \<longrightarrow> c_fd conn' = -1)"
  using assms
proof (induction calls arbitrary: conn w out)
  case Nil
  then show ?case by (simp add: to_send_def split: if_splits)
next
  case (Cons call calls)
  obtain s1 prd s2 where call: "call = (s1, prd, s2)" by (cases call)
  obtain conn1 out1 where h: "handle_write s1 prd s2 conn = (conn1, out1)" by fastforce
  obtain out2 where t: "run_writes calls conn1 = (conn', out2)" "out = out1 @ out2"
    using Cons.prems(3) call h by (auto split: prod.splits)
  have ok: "calls_ok c calls" "file_reads c prd" "sender_ok s1" "sender_alive s1" "sender_ok s2" "sender_alive s2"
    using Cons.prems(2) call by (auto simp: calls_ok_def)
  note st = handle_write_stream [OF Cons.prems(1) ok(2-6) h]
  have ih: "stream hdr c conn' ((w @ bytes_out out1) @ bytes_out out2) \<and>
    (calls_eager calls \<and> to_send hdr c conn1 (w @ bytes_out out1) \<le> length calls \<longrightarrow> c_fd conn' = -1)"
    using st by (intro Cons.IH ok t) blast
  have "to_send hdr c conn1 (w @ bytes_out out1) \<le> length calls"
    if "calls_eager (call # calls)" "to_send hdr c conn w \<le> length (call # calls)"
  proof (cases "c_fd conn = -1")
    case True
    then have "conn1 = conn" using h by (simp add: handle_write_def)
    then show ?thesis using True by (simp add: to_send_def)
  next
    case False
    then show ?thesis using st that call by (auto simp: calls_eager_def)
  qed
  then show ?case using ih t(2) by (auto simp: calls_eager_def)
qed

section \<open>A request for a file\<close>

lemma scan_word_plain:
  assumes "w \<noteq> []" "list_all (\<lambda>c. \<not> is_space c) w" "length w \<le> n" "is_space c"
  shows "scan_word n (w @ c # r) = Some (w, c # r)" "scan_word n (CHR '' '' # w @ c # r) = Some (w, c # r)"
proof -
  have "dropWhile is_space (w @ c # r) = w @ c # r" using assms(1,2) by (cases w) auto
  moreover have "takeWhile (\<lambda>c. \<not> is_space c) (w @ c # r) = w"
    using assms(2,4) by (simp add: takeWhile_append list_all_iff)
  ultimately show "scan_word n (w @ c # r) = Some (w, c # r)"
    using assms(1,3) by (cases w) (auto simp: scan_word_def Let_def)
  moreover have "is_space CHR '' ''" by (simp add: is_space_def)
  ultimately show "scan_word n (CHR '' '' # w @ c # r) = Some (w, c # r)"
    by (simp add: scan_word_def)
qed

lemma get_request_scan:
  assumes "path \<noteq> []" "list_all (\<lambda>c. \<not> is_space c) path" "length path \<le> 1023"
  shows "scan_request (''GET '' @ path @ '' HTTP/1.1'' @ crlf @ crlf) = Some (''GET'', path, ''HTTP/1.1'')"
proof -
  have sp: "is_space CHR '' ''" "is_space CHR 0x0D" by (simp_all add: is_space_def)
  have "scan_word 15 (''GET'' @ CHR '' '' # path @ '' HTTP/1.1'' @ crlf @ crlf) =
      Some (''GET'', CHR '' '' # path @ '' HTTP/1.1'' @ crlf @ crlf)"
    using sp by (intro scan_word_plain) (simp_all add: is_space_def)
  moreover have "scan_word 1023 (CHR '' '' # path @ CHR '' '' # ''HTTP/1.1'' @ crlf @ crlf) =
      Some (path, CHR '' '' # ''HTTP/1.1'' @ crlf @ crlf)"
    using assms sp by (intro scan_word_plain) simp_all
  moreover have "scan_word 15 (CHR '' '' # ''HTTP/1.1'' @ CHR 0x0D # CHR 0x0A # crlf) =
      Some (''HTTP/1.1'', CHR 0x0D # CHR 0x0A # crlf)"
    using sp by (intro scan_word_plain) (simp_all add: is_space_def)
  ultimately show ?thesis by (simp add: scan_request_def crlf_def)
qed

lemma length_mime: "length (get_mime_type path) \<le> 24"
  by (simp add: get_mime_type_def split: option.split)

lemma length_header:
  assumes "code < 1000" "length status \<le> 100" "length ctype \<le> 100" "n < 2 ^ 63"
  shows "length (http_header code status ctype n) \<le> 400"
proof -
  have "length (dec code) \<le> 3" using assms(1) by (intro length_dec) simp_all
  moreover have "length (dec n) \<le> 19" using assms(4) by (intro length_dec) simp_all
  ultimately show ?thesis using assms(2,3) by (simp add: http_header_def crlf_def)
qed

lemma header_ne: "http_header code status ctype n \<noteq> []"
  by (simp add: http_header_def)

text \<open>The answer to a request for a readable regular file is ready to be sent.\<close>

lemma handle_request_file:
  assumes "scan_request (c_str (recv_buf conn)) = Some (''GET'', path, version)"
    and d: "d = c_str (http_url_decode 1023 path)" "is_safe_path d"
    and full: "full = dir @ ''/'' @ d" "length full < 1024"
    and host: "h_stat h full = Regular (length c)" "length c < 2 ^ 63" "h_readable h full"
      "h_open h full \<noteq> -1" "h_watch h (c_fd conn) EVFILT_WRITE" and fd: "c_fd conn \<noteq> -1"
  shows "\<exists>conn'. handle_request h dir conn = (conn', [Watch (c_fd conn) EVFILT_WRITE]) \<and>
    stream (http_header 200 ''OK'' (get_mime_type full) (length c)) c conn' []"
proof -
  let ?hdr = "http_header 200 ''OK'' (get_mime_type full) (length c)"
  have len: "length ?hdr \<le> 400"
    using host(2) length_mime [of full] by (intro length_header) simp_all
  define conn' where "conn' = build_http_status
    (conn\<lparr>file_fd := h_open h full, file_offset := 0, file_size := length c\<rparr>)
    200 ''OK'' (get_mime_type full) (length c)"
  have "handle_request h dir conn = watch_write h conn'"
    unfolding handle_request_def assms(1) using d full host
    by (simp add: Let_def PATH_MAX_def conn'_def)
  moreover have "c_fd conn' = c_fd conn" by (simp add: conn'_def build_http_status_def Let_def)
  moreover have "stream ?hdr c conn' []"
    using len header_ne fd host(4)
    by (simp add: conn'_def build_http_status_def Let_def stream_def in_header_def SEND_BUF_SIZE_def)
  ultimately show ?thesis using host(5) by (auto simp: watch_write_def)
qed

text \<open>
  Property C3. A GET for a readable regular file below the root is answered, through any sequence
  of writes that the socket cuts short or puts off, with the 200 header for its size and type
  followed by exactly the bytes of the file: at any time the client has a prefix of that, the
  connection closes only when all of it is sent, and it does close once the socket takes at least
  one byte in each of enough calls.
\<close>

theorem http_get_serves_file:
  assumes "recv_buf conn = []" and "c_fd conn \<noteq> -1"
    and "rcv 4095 = Received (''GET '' @ path @ '' HTTP/1.1'' @ crlf @ crlf)"
    and "path \<noteq> []" and "list_all (\<lambda>c. \<not> is_space c \<and> c \<noteq> CHR 0x00) path" and "length path \<le> 1023"
    and "d = c_str (http_url_decode 1023 path)" and "is_safe_path d"
    and "full = dir @ ''/'' @ d" and "length full < 1024"
    and "h_stat h full = Regular (length c)" and "length c < 2 ^ 63" and "h_readable h full"
    and "h_open h full \<noteq> -1" and "h_watch h (c_fd conn) EVFILT_WRITE"
    and "calls_ok c calls"
    and "answer = http_header 200 ''OK'' (get_mime_type full) (length c) @ c"
  shows "\<exists>conn1 out1 conn2 out2. handle_read h dir rcv conn = Inr (conn1, out1) \<and>
    run_writes calls conn1 = (conn2, out2) \<and> (\<exists>rest. bytes_out out2 @ rest = answer) \<and>
    (c_fd conn2 = -1 \<longrightarrow> bytes_out out2 = answer) \<and>
    (calls_eager calls \<and> length answer < length calls \<longrightarrow> c_fd conn2 = -1)"
proof -
  let ?req = "''GET '' @ path @ '' HTTP/1.1'' @ crlf @ crlf" and ?conn = "conn\<lparr>recv_buf :=
    ''GET '' @ path @ '' HTTP/1.1'' @ crlf @ crlf\<rparr>"
  let ?hdr = "http_header 200 ''OK'' (get_mime_type full) (length c)"
  have plain: "list_all (\<lambda>c. \<not> is_space c) path" "CHR 0x00 \<notin> set path"
    using assms(5) by (auto simp: list_all_iff)
  have nul: "c_str ?req = ?req" using plain(2) by (intro c_str_plain) (simp add: crlf_def)
  have "strstr (crlf @ crlf) ?req \<noteq> None"
    unfolding strstr_None_iff by (auto intro: exI [of _ "''GET '' @ path @ '' HTTP/1.1''"] exI [of _ "[]"])
  then have found: "strstr (crlf @ crlf) (c_str ?req) \<noteq> None" unfolding nul .
  have scan: "scan_request (c_str (recv_buf ?conn)) = Some (''GET'', path, ''HTTP/1.1'')"
    using get_request_scan [OF assms(4) plain(1) assms(6)] nul by simp
  obtain conn1 where c1: "handle_request h dir ?conn = (conn1, [Watch (c_fd conn) EVFILT_WRITE])"
      "stream ?hdr c conn1 []"
    using handle_request_file [OF scan assms(7-14)] assms(2,15) by auto
  have "length ?req < RECV_BUF_SIZE" using assms(6) by (simp add: RECV_BUF_SIZE_def crlf_def)
  then have read: "handle_read h dir rcv conn =
      Inr (conn1, [Unwatch (c_fd conn) EVFILT_READ, Watch (c_fd conn) EVFILT_WRITE])"
    using assms(1-3) found c1(1) by (simp add: handle_read_def Let_def RECV_BUF_SIZE_def)
  obtain conn2 out2 where run: "run_writes calls conn1 = (conn2, out2)" by fastforce
  note st = run_writes_stream [OF c1(2) assms(16) run]
  have "stream ?hdr c conn2 (bytes_out out2)" using st by simp
  moreover from this have "c_fd conn2 = -1 \<longrightarrow> bytes_out out2 = answer"
    by (auto simp: stream_def in_header_def in_file_def assms(17))
  moreover have "to_send ?hdr c conn1 [] \<le> length calls" if "length answer < length calls"
    using that by (simp add: to_send_def assms(17))
  ultimately show ?thesis
    using read run st stream_prefix [of ?hdr c conn2 "bytes_out out2"] assms(17) by blast
qed

text \<open>A small site: one file, a socket that takes seven bytes at a time, reads of three bytes.\<close>

definition sample_host :: host where
  "sample_host = \<lparr>h_stat = (\<lambda>p. if p = ''/srv//a.txt'' then Regular 5 else NoEntry),
     h_readable = (\<lambda>_. True), h_open = (\<lambda>_. 9), h_watch = (\<lambda>_ _. True)\<rparr>"

definition sample_conn :: connection where
  "sample_conn = fresh_connection\<lparr>c_fd := 7, file_fd := -1\<rparr>"

definition slow_socket :: sender where
  "slow_socket b = Sent (min 7 (length b))"

definition sample_calls :: "(sender \<times> (nat \<Rightarrow> pread_result) \<times> sender) list" where
  "sample_calls = replicate 500 (slow_socket, (\<lambda>off. Block (take 3 (drop off ''hello''))), slow_socket)"

lemma decode_plain:
  "list_all (\<lambda>c. c \<noteq> CHR ''%'' \<and> c \<noteq> CHR ''+'') s \<Longrightarrow> length s \<le> n \<Longrightarrow> http_url_decode n s = s"
proof (induction s arbitrary: n)
  case Nil
  then show ?case by (cases n) simp_all
next
  case (Cons c s)
  then show ?case by (cases n) simp_all
qed

lemma sample_calls_ok: "calls_ok ''hello'' sample_calls" "calls_eager sample_calls"
proof -
  have s: "sender_ok slow_socket" "sender_alive slow_socket" "sender_eager slow_socket"
    by (simp_all add: sender_ok_def sender_alive_def sender_eager_def slow_socket_def)
  have "\<exists>n \<le> SEND_BUF_SIZE. Block (take 3 (drop off ''hello'')) = Block (take n (drop off ''hello'')) \<and>
      (off < length ''hello'' \<longrightarrow> 0 < n)" for off
    by (rule exI [of _ 3]) (simp add: SEND_BUF_SIZE_def)
  then have "file_reads ''hello'' (\<lambda>off. Block (take 3 (drop off ''hello'')))"
    by (simp only: file_reads_def) blast
  then show "calls_ok ''hello'' sample_calls" "calls_eager sample_calls"
    using s by (simp_all add: calls_ok_def calls_eager_def sample_calls_def)
qed

lemma http_get_serves_file_witness:
  "\<exists>conn1 out1 conn2 out2.
     handle_read sample_host ''/srv'' (\<lambda>_. Received (''GET '' @ ''/a.txt'' @ '' HTTP/1.1'' @ crlf @ crlf)) sample_conn =
       Inr (conn1, out1) \<and>
     run_writes sample_calls conn1 = (conn2, out2) \<and>
     bytes_out out2 = http_header 200 ''OK'' ''text/plain'' 5 @ ''hello''"
proof -
  have d: "''/a.txt'' = c_str (http_url_decode 1023 ''/a.txt'')"
    by (subst decode_plain) (simp_all add: c_str_def)
  have safe: "is_safe_path ''/a.txt''" by (simp add: is_safe_path_def strstr.simps)
  have mime: "get_mime_type ''/srv//a.txt'' = ''text/plain''" by (simp add: get_mime_type_def)
  have five: "Suc (Suc (Suc (Suc (Suc 0)))) = 5" by simp
  have len: "length (http_header 200 ''OK'' ''text/plain'' 5 @ ''hello'') < length sample_calls"
    using length_header [of 200 "''OK''" "''text/plain''" 5] by (simp add: sample_calls_def)
  have "\<exists>conn1 out1 conn2 out2.
     handle_read sample_host ''/srv'' (\<lambda>_. Received (''GET '' @ ''/a.txt'' @ '' HTTP/1.1'' @ crlf @ crlf)) sample_conn =
       Inr (conn1, out1) \<and>
     run_writes sample_calls conn1 = (conn2, out2) \<and>
     (\<exists>rest. bytes_out out2 @ rest = http_header 200 ''OK'' ''text/plain'' 5 @ ''hello'') \<and>
     (c_fd conn2 = -1 \<longrightarrow> bytes_out out2 = http_header 200 ''OK'' ''text/plain'' 5 @ ''hello'') \<and>
     (calls_eager sample_calls \<and> length (http_header 200 ''OK'' ''text/plain'' 5 @ ''hello'') < length sample_calls
        \<longrightarrow> c_fd conn2 = -1)"
    by (rule http_get_serves_file [OF _ _ refl _ _ _ d safe refl _ _ _ _ _ _ sample_calls_ok(1)])
      (simp_all add: sample_conn_def sample_host_def fresh_connection_def is_space_def mime five)
  then show ?thesis using len sample_calls_ok(2) by blast
qed

section \<open>Nothing outside the root\<close>

fun path_parts :: "string \<Rightarrow> string list" where
  "path_parts [] = [[]]"
| "path_parts (c # s) =
     (if c = CHR ''/'' then [] # path_parts s
      else case path_parts s of [] \<Rightarrow> [[c]] | p # ps \<Rightarrow> (c # p) # ps)"

text \<open>Paths below the root whose parts are never the parent directory.\<close>

definition below :: "string \<Rightarrow> string \<Rightarrow> bool" where
  "below dir p \<longleftrightarrow> (\<exists>d. p = dir @ ''/'' @ d \<and> ''..'' \<notin> set (path_parts d) \<and> length p < PATH_MAX)"

lemma path_parts_ne: "path_parts s \<noteq> []"
  by (cases s) (auto split: list.split)

lemma path_parts_inside:
  "(\<exists>r. s = hd (path_parts s) @ r) \<and> (\<forall>q \<in> set (path_parts s). \<exists>p r. s = p @ q @ r)"
proof (induction s)
  case (Cons c s)
  obtain p ps where ps: "path_parts s = p # ps" using path_parts_ne by (cases "path_parts s") auto
  have up: "\<exists>u r. c # s = u @ q @ r" if "q \<in> set (path_parts s)" for q
    using Cons that by (metis append_Cons)
  obtain r where r: "s = p @ r" using Cons ps by auto
  then have "\<exists>u r'. c # s = u @ (c # p) @ r'" by (intro exI [of _ "[]"] exI [of _ r]) simp
  moreover have "\<exists>u r'. c # s = u @ [] @ r'" by (rule exI [of _ "[]"]) simp
  ultimately show ?case using up ps r by auto
qed simp

lemma safe_path_parts: "is_safe_path d \<Longrightarrow> ''..'' \<notin> set (path_parts d)"
  unfolding is_safe_path_def strstr_None_iff using path_parts_inside by blast

text \<open>
  Property C4. Requests cannot reach outside the root directory: what the server does with
  received data depends on the file system only at paths below the root that have no parent
  directory among their parts, so two file systems that agree there are answered alike.
\<close>

theorem http_confined_to_root:
  assumes "\<forall>p. below dir p \<longrightarrow> h_stat h p = h_stat h' p \<and> h_readable h p = h_readable h' p \<and>
    h_open h p = h_open h' p"
    and "h_watch h = h_watch h'"
  shows "handle_read h dir rcv conn = handle_read h' dir rcv conn"
proof -
  have same: "watch_write h c = watch_write h' c" "send_error h c = send_error h' c" for c
    using assms(2) by (simp_all add: watch_write_def send_error_def fun_eq_iff)
  have req_eq: "handle_request h dir c = handle_request h' dir c" for c
  proof (cases "scan_request (c_str (recv_buf c))")
    case None
    then show ?thesis by (simp add: handle_request_def same)
  next
    case (Some req)
    obtain meth path version where req: "req = (meth, path, version)" by (cases req)
    let ?d = "c_str (http_url_decode (1024 - 1) path)"
    let ?full = "dir @ ''/'' @ ?d"
    show ?thesis
    proof (cases "is_safe_path ?d \<and> length ?full < PATH_MAX")
      case True
      then have "below dir ?full" using safe_path_parts unfolding below_def by blast
      then have hh: "h_stat h ?full = h_stat h' ?full" "h_readable h ?full = h_readable h' ?full"
          "h_open h ?full = h_open h' ?full" using assms(1) by blast+
      show ?thesis
        unfolding handle_request_def Some req Let_def prod.case option.case same hh by (rule refl)
    next
      case False
      then have "\<not> is_safe_path ?d \<or> length ?full \<ge> PATH_MAX" by linarith
      then show ?thesis unfolding handle_request_def Some req Let_def prod.case option.case same by simp
    qed
  qed
  show ?thesis unfolding handle_read_def req_eq same by (rule refl)
qed

lemma http_confined_to_root_witness:
  "\<forall>h rcv conn. handle_read h ''/srv'' rcv conn =
     handle_read (h\<lparr>h_stat := (\<lambda>p. if p = ''/etc/passwd'' then Regular 1 else h_stat h p)\<rparr>) ''/srv'' rcv conn"
proof (intro allI)
  fix h rcv conn
  show "handle_read h ''/srv'' rcv conn =
     handle_read (h\<lparr>h_stat := (\<lambda>p. if p = ''/etc/passwd'' then Regular 1 else h_stat h p)\<rparr>) ''/srv'' rcv conn"
    by (rule http_confined_to_root) (auto simp: below_def)
qed

section \<open>The buffers and the table stay within bounds\<close>

definition conn_ok :: "connection \<Rightarrow> bool" where
  "conn_ok c \<longleftrightarrow> length (recv_buf c) < RECV_BUF_SIZE \<and> length (send_buf c) \<le> SEND_BUF_SIZE \<and>
     send_len c \<le> length (send_buf c) \<and> send_sent c \<le> send_len c"

definition srv_ok :: "server \<Rightarrow> bool" where
  "srv_ok srv \<longleftrightarrow> root_dir srv \<noteq> None \<and> length (conns srv) = MAX_CONN \<and> nconns srv \<le> MAX_CONN \<and>
     list_all conn_ok (conns srv) \<and> (\<forall>k i. kq srv k = Some (Some i) \<longrightarrow> i < MAX_CONN)"

definition host_ok :: "host \<Rightarrow> bool" where
  "host_ok h \<longleftrightarrow> (\<forall>p n. h_stat h p = Regular n \<longrightarrow> n < 2 ^ 63)"

definition activity_ok :: "activity \<Rightarrow> bool" where
  "activity_ok a \<longleftrightarrow> (case a of
     Acceptable fd nb \<Rightarrow> True
   | Readable rcv \<Rightarrow> (\<forall>n d. rcv n = Received d \<longrightarrow> length d \<le> n)
   | Writable s1 prd s2 \<Rightarrow> sender_ok s1 \<and> sender_ok s2 \<and>
       (\<forall>off b. prd off = Block b \<longrightarrow> length b \<le> SEND_BUF_SIZE))"

text \<open>A round handles events that were registered when \<open>kevent\<close> returned.\<close>

definition events_ok :: "server \<Rightarrow> event list \<Rightarrow> bool" where
  "events_ok srv evs \<longleftrightarrow> (\<forall>ev \<in> set evs. activity_ok (ev_activity ev) \<and>
     (ev_ident ev \<noteq> listen_fd srv \<longrightarrow> (\<exists>f. kq srv (ev_ident ev, f) = Some (ev_udata ev))))"

inductive http_step :: "host \<Rightarrow> server cres \<Rightarrow> server cres \<Rightarrow> bool" for h where
  round: "events_ok srv evs \<Longrightarrow> serve_round h evs srv = Inr (srv', out) \<Longrightarrow> http_step h (Inr srv) (Inr srv')"
| round_fault: "events_ok srv evs \<Longrightarrow> serve_round h evs srv = Inl e \<Longrightarrow> http_step h (Inr srv) (Inl e)"

lemma close_ok: "conn_ok c \<Longrightarrow> conn_ok (fst (close_connection c))"
  by (simp add: close_connection_def conn_ok_def)

lemma watch_write_ok: "conn_ok c \<Longrightarrow> conn_ok (fst (watch_write h c))"
  using close_ok by (simp add: watch_write_def)

lemma build_ok:
  assumes "conn_ok c" "code < 1000" "length status \<le> 100" "length ctype \<le> 100" "n < 2 ^ 63"
  shows "conn_ok (build_http_status c code status ctype n)"
    "send_len (build_http_status c code status ctype n) \<le> 400"
  using assms(1) length_header [OF assms(2-5)]
  by (simp_all add: build_http_status_def conn_ok_def Let_def http_sizes)

lemma send_error_ok:
  assumes "conn_ok c" "code < 1000" "length status \<le> 100"
  shows "conn_ok (fst (send_error h c code status))"
proof -
  have "length status < 2 ^ 63" using assms(3) by simp
  then have "conn_ok (build_http_status c code status ''text/plain'' (length status))"
      "send_len (build_http_status c code status ''text/plain'' (length status)) \<le> 400"
    using assms by (intro build_ok; simp)+
  then show ?thesis
    unfolding send_error_def Let_def
    by (intro watch_write_ok) (auto simp: conn_ok_def http_sizes)
qed

lemma handle_request_ok:
  assumes "host_ok h" "conn_ok c"
  shows "conn_ok (fst (handle_request h dir c))"
proof -
  have err: "conn_ok (fst (send_error h c code status))" if "code < 1000" "length status \<le> 100" for code status
    using send_error_ok [OF assms(2) that] .
  have ok: "conn_ok (fst (watch_write h (build_http_status
      (c\<lparr>file_fd := f, file_offset := 0, file_size := n\<rparr>) 200 ''OK'' (get_mime_type p) n)))"
    if "h_stat h q = Regular n" for f n p q
  proof (intro watch_write_ok build_ok)
    show "n < 2 ^ 63" using assms(1) that by (auto simp: host_ok_def)
    show "length (get_mime_type p) \<le> 100" using length_mime [of p] by simp
  qed (use assms(2) in \<open>simp_all add: conn_ok_def\<close>)
  show ?thesis
    unfolding handle_request_def Let_def
    by (auto split: option.split prod.split stat_result.split intro: err ok)
qed

lemma handle_read_ok:
  assumes h: "host_ok h" and c: "conn_ok c" and rcv: "\<And>n d. rcv n = Received d \<Longrightarrow> length d \<le> n"
  shows "case handle_read h dir rcv c of Inl e \<Rightarrow> False | Inr r \<Rightarrow> conn_ok (fst r)"
proof -
  let ?cap = "RECV_BUF_SIZE - length (recv_buf c) - 1"
  have room: "length (recv_buf c) < RECV_BUF_SIZE" using c by (simp add: conn_ok_def)
  show ?thesis
  proof (cases "rcv ?cap")
    case (Received d)
    have "length d \<le> ?cap" using rcv Received by blast
    then have len: "length (recv_buf c @ d) < RECV_BUF_SIZE" using room by simp
    then have c': "conn_ok (c\<lparr>recv_buf := recv_buf c @ d\<rparr>)" using c by (simp add: conn_ok_def)
    have "conn_ok (fst (handle_request h dir (c\<lparr>recv_buf := recv_buf c @ d\<rparr>)))"
      using h c' by (rule handle_request_ok)
    moreover have "conn_ok (fst (send_error h (c\<lparr>recv_buf := recv_buf c @ d\<rparr>) 413 ''Payload Too Large''))"
      using c' by (rule send_error_ok) simp_all
    ultimately show ?thesis
      using c c' len room close_ok [OF c] Received
      by (auto simp: handle_read_def Let_def not_le simp del: length_append split: prod.split)
  qed (use c close_ok [OF c] room in \<open>simp_all add: handle_read_def\<close>)
qed

lemma send_rest_ok:
  assumes "conn_ok c" "sender_ok s" "send_rest s c = (c', out, go)"
  shows "conn_ok c'"
proof (cases "s (drop (send_sent c) (take (send_len c) (send_buf c)))")
  case (Sent k)
  then have "k \<le> length (drop (send_sent c) (take (send_len c) (send_buf c)))"
    using assms(2) unfolding sender_ok_def by blast
  then show ?thesis using assms(1,3) Sent by (auto simp: send_rest_def conn_ok_def)
next
  case SendError
  then show ?thesis
    using assms(1,3) close_ok [OF assms(1)] by (auto simp: send_rest_def split: prod.splits)
qed (use assms in \<open>auto simp: send_rest_def\<close>)

lemma next_block_ok:
  assumes "conn_ok c" "sender_ok s" "\<And>off b. prd off = Block b \<Longrightarrow> length b \<le> SEND_BUF_SIZE"
  shows "conn_ok (fst (next_block prd s c))"
proof (cases "prd (file_offset c)")
  case (Block b)
  let ?c1 = "c\<lparr>send_buf := b, send_len := length b, send_sent := 0, file_offset := file_offset c + length b\<rparr>"
  have "conn_ok ?c1" using assms(1) assms(3) [OF Block] by (simp add: conn_ok_def)
  moreover have "conn_ok (?c1\<lparr>send_sent := k\<rparr>)" if "s b = Sent k" for k
    using that assms(1,2) assms(3) [OF Block] by (simp add: conn_ok_def sender_ok_def)
  ultimately show ?thesis
    using Block close_ok assms(1) by (auto simp: next_block_def Let_def split: send_result.split)
qed (use close_ok assms(1) in \<open>simp add: next_block_def\<close>)

lemma write_file_ok:
  assumes "conn_ok c" "sender_ok s1" "sender_ok s2" "\<And>off b. prd off = Block b \<Longrightarrow> length b \<le> SEND_BUF_SIZE"
  shows "conn_ok (fst (write_file s1 prd s2 c))"
proof (cases "send_sent c < send_len c")
  case True
  obtain c1 out go where r: "send_rest s1 c = (c1, out, go)" by (cases "send_rest s1 c")
  have c1: "conn_ok c1" using send_rest_ok [OF assms(1,2) r] .
  obtain c2 out2 where n: "next_block prd s2 c1 = (c2, out2)" by fastforce
  have "conn_ok (fst (next_block prd s2 c1))" using c1 assms(3,4) by (rule next_block_ok)
  then have "conn_ok c2" by (simp add: n)
  then show ?thesis using True r n c1 by (simp add: write_file_def)
next
  case False
  then show ?thesis using next_block_ok [OF assms(1,3,4)] by (simp add: write_file_def)
qed

lemma handle_write_ok:
  assumes "conn_ok c" "sender_ok s1" "sender_ok s2" "\<And>off b. prd off = Block b \<Longrightarrow> length b \<le> SEND_BUF_SIZE"
  shows "conn_ok (fst (handle_write s1 prd s2 c))"
proof -
  obtain c1 out1 go where h: "write_header s1 c = (c1, out1, go)" by (cases "write_header s1 c")
  obtain c2 out2 go2 where r: "send_rest s1 c = (c2, out2, go2)" by (cases "send_rest s1 c")
  have c2: "conn_ok c2" using send_rest_ok [OF assms(1,2) r] .
  then have "conn_ok (c2\<lparr>c_state := STATE_SENDING_FILE, send_len := 0, send_sent := 0\<rparr>)"
    by (simp add: conn_ok_def)
  then have c1: "conn_ok c1"
    using h r c2 close_ok [OF c2] by (auto simp: write_header_def split: if_splits prod.splits)
  have f: "conn_ok (fst (write_file s1 prd s2 c'))" if "conn_ok c'" for c'
    using write_file_ok [OF that assms(2-4)] .
  obtain c3 out3 where w: "write_file s1 prd s2 c1 = (c3, out3)" by fastforce
  have "conn_ok c3" using f [OF c1] by (simp add: w)
  then show ?thesis using assms(1) f c1 h w by (simp add: handle_write_def)
qed

lemma kq_effects_slots:
  assumes "\<forall>k i. m k = Some (Some i) \<longrightarrow> i < n" "slot < n"
  shows "\<forall>k i. kq_effects slot es m k = Some (Some i) \<longrightarrow> i < n"
  using assms(1)
proof (induction es arbitrary: m)
  case Nil
  then show ?case by (simp add: kq_effects_def)
next
  case (Cons e es)
  have "\<forall>k i. kq_effect slot e m k = Some (Some i) \<longrightarrow> i < n"
    using Cons.prems assms(2) by (cases e) (auto simp: kq_effect_def)
  from Cons.IH [OF this] show ?case by (simp add: kq_effects_def)
qed

lemma fresh_ok: "conn_ok (fresh_connection\<lparr>c_fd := f, c_state := st, file_fd := g\<rparr>)"
  by (simp add: conn_ok_def fresh_connection_def http_sizes)

lemma list_all_update: "list_all P xs \<Longrightarrow> P x \<Longrightarrow> list_all P (xs[i := x])"
  by (metis (mono_tags, lifting) list_all_iff set_update_subset_insert insertE subsetD)

lemma accept_ok:
  assumes "srv_ok srv"
  shows "case accept_connection h fd nb srv of Inl e \<Rightarrow> False
    | Inr srv' \<Rightarrow> srv_ok srv' \<and> listen_fd srv' = listen_fd srv"
  using assms
  by (auto simp: accept_connection_def srv_ok_def Let_def kq_effect_def intro!: list_all_update fresh_ok)

lemma handle_event_ok:
  assumes h: "host_ok h" and srv: "srv_ok srv" and act: "activity_ok (ev_activity ev)"
    and slot: "ev_ident ev \<noteq> listen_fd srv \<longrightarrow> (\<forall>i. ev_udata ev = Some i \<longrightarrow> i < MAX_CONN)"
  shows "case handle_event h ev srv of Inl e \<Rightarrow> False
    | Inr r \<Rightarrow> srv_ok (fst r) \<and> listen_fd (fst r) = listen_fd srv"
proof (cases "ev_ident ev = listen_fd srv")
  case True
  show ?thesis
  proof (cases "ev_activity ev")
    case (Acceptable fd nb)
    then show ?thesis
      using accept_ok [OF srv, of h fd nb] True
      by (cases "accept_connection h fd nb srv") (simp_all add: handle_event_def)
  qed (use True srv in \<open>simp_all add: handle_event_def\<close>)
next
  case False
  show ?thesis
  proof (cases "ev_udata ev")
    case None
    then show ?thesis using False srv by (simp add: handle_event_def)
  next
    case (Some i)
    then have i: "i < length (conns srv)" using slot False srv by (simp add: srv_ok_def)
    have c: "conn_ok (conns srv ! i)" using srv i by (simp add: srv_ok_def list_all_length)
    obtain dir where dir: "root_dir srv = Some dir" using srv by (auto simp: srv_ok_def)
    have store: "srv_ok (srv\<lparr>conns := (conns srv)[i := c'], kq := kq_effects i out (kq srv)\<rparr>)"
      if "conn_ok c'" for c' out
    proof -
      have "\<forall>k i'. kq_effects i out (kq srv) k = Some (Some i') \<longrightarrow> i' < MAX_CONN"
        using srv i by (intro kq_effects_slots) (simp_all add: srv_ok_def del: split_paired_All)
      moreover have "list_all conn_ok ((conns srv)[i := c'])"
        using srv that by (intro list_all_update) (simp_all add: srv_ok_def del: split_paired_All)
      ultimately show ?thesis
        using srv by (simp add: srv_ok_def del: split_paired_All)
    qed
    show ?thesis
    proof (cases "ev_activity ev")
      case (Readable rcv)
      have "case handle_read h dir rcv (conns srv ! i) of Inl e \<Rightarrow> False | Inr r \<Rightarrow> conn_ok (fst r)"
        using act Readable by (intro handle_read_ok [OF h c]) (simp add: activity_ok_def)
      then obtain c' out where "handle_read h dir rcv (conns srv ! i) = Inr (c', out)" "conn_ok c'"
        by (auto split: sum.splits)
      then show ?thesis
        using False Some i dir Readable store by (simp add: handle_event_def)
    next
      case (Writable s1 prd s2)
      obtain c' out where w: "handle_write s1 prd s2 (conns srv ! i) = (c', out)" by fastforce
      have "conn_ok (fst (handle_write s1 prd s2 (conns srv ! i)))"
        using act Writable by (intro handle_write_ok [OF c]) (simp_all add: activity_ok_def)
      then show ?thesis
        using False Some i Writable store w by (simp add: handle_event_def)
    next
      case (Acceptable fd nb)
      then show ?thesis using False Some i store [OF c] by (simp add: handle_event_def)
    qed
  qed
qed

lemma free_step_keeps:
  assumes "list_all conn_ok cs" "i < length cs" "j \<le> i"
  shows "list_all conn_ok (fst (free_step (cs, j) i)) \<and> length (fst (free_step (cs, j) i)) = length cs \<and>
    snd (free_step (cs, j) i) \<le> Suc i"
  using assms by (auto simp: free_step_def list_all_length nth_list_update)

lemma free_fold_keeps:
  assumes "list_all conn_ok cs" "n \<le> length cs"
  shows "case foldl free_step (cs, 0) [0..<n] of (cs', j) \<Rightarrow>
    list_all conn_ok cs' \<and> length cs' = length cs \<and> j \<le> n"
  using assms(2)
proof (induction n)
  case 0
  then show ?case using assms(1) by simp
next
  case (Suc n)
  obtain cs' j where f: "foldl free_step (cs, 0) [0..<n] = (cs', j)" by fastforce
  then have "list_all conn_ok cs'" "length cs' = length cs" "j \<le> n" using Suc by auto
  then show ?case
    using free_step_keeps [of cs' n j] Suc.prems f by (auto split: prod.split)
qed

lemma free_conns_ok: "srv_ok srv \<Longrightarrow> srv_ok (free_conns srv)"
  using free_fold_keeps [of "conns srv" "nconns srv"]
  by (auto simp: free_conns_def srv_ok_def split: prod.split)

lemma handle_events_ok:
  assumes "host_ok h" "srv_ok srv" "\<forall>ev \<in> set evs. activity_ok (ev_activity ev)"
    and "\<forall>ev \<in> set evs. ev_ident ev \<noteq> listen_fd srv \<longrightarrow> (\<forall>i. ev_udata ev = Some i \<longrightarrow> i < MAX_CONN)"
  shows "case handle_events h evs srv of Inl e \<Rightarrow> False | Inr r \<Rightarrow> srv_ok (fst r)"
  using assms(2-4)
proof (induction evs arbitrary: srv)
  case (Cons ev evs)
  have "case handle_event h ev srv of Inl e \<Rightarrow> False
    | Inr r \<Rightarrow> srv_ok (fst r) \<and> listen_fd (fst r) = listen_fd srv"
    using Cons.prems by (intro handle_event_ok [OF assms(1)]) simp_all
  then obtain srv1 out where e: "handle_event h ev srv = Inr (srv1, out)" "srv_ok srv1"
      "listen_fd srv1 = listen_fd srv" by (auto split: sum.splits)
  then show ?case
    using Cons.IH [OF e(2)] Cons.prems(2,3) by (auto split: sum.splits)
qed simp

lemma serve_round_ok:
  assumes "host_ok h" "srv_ok srv" "events_ok srv evs"
  shows "case serve_round h evs srv of Inl e \<Rightarrow> False | Inr r \<Rightarrow> srv_ok (fst r)"
proof -
  have "case handle_events h evs srv of Inl e \<Rightarrow> False | Inr r \<Rightarrow> srv_ok (fst r)"
    using assms by (intro handle_events_ok) (force simp: events_ok_def srv_ok_def)+
  then show ?thesis by (auto simp: serve_round_def free_conns_ok split: sum.splits)
qed

definition http_started :: "host \<Rightarrow> net \<Rightarrow> http_opt list \<Rightarrow> server cres \<Rightarrow> bool" where
  "http_started h net os r \<longleftrightarrow> (\<exists>srv. http_start h net os = Some srv \<and> r = Inr srv)"

definition http_inv :: "server cres \<Rightarrow> bool" where
  "http_inv r \<longleftrightarrow> (\<exists>srv. r = Inr srv \<and> srv_ok srv)"

lemma parse_args_ok:
  "parse_args os srv = Some srv' \<Longrightarrow> conns srv' = conns srv \<and> nconns srv' = nconns srv \<and>
   kq srv' = kq srv \<and> root_dir srv' \<noteq> None \<and> listen_addr srv' \<noteq> None"
  by (induction os srv rule: parse_args.induct) (auto split: if_splits)

lemma setup_ok:
  "setup_listen_socket net srv = (srv', ok) \<Longrightarrow> conns srv' = conns srv \<and> nconns srv' = nconns srv \<and>
   kq srv' = kq srv \<and> root_dir srv' = root_dir srv"
  by (auto simp: setup_listen_socket_def split: option.splits prod.splits if_splits)

lemma http_start_ok:
  assumes "http_start h net os = Some srv"
  shows "srv_ok srv"
proof -
  obtain s1 where s1: "parse_args os server_start = Some s1"
    using assms by (auto simp: http_start_def split: option.splits)
  obtain s2 where s2: "setup_listen_socket net s1 = (s2, True)"
      "srv = s2\<lparr>kq := (kq s2)((listen_fd s2, EVFILT_READ) := Some None)\<rparr>"
    using assms s1 by (auto simp: http_start_def split: prod.splits if_splits)
  have "list_all conn_ok (replicate MAX_CONN (fresh_connection\<lparr>c_fd := -1, file_fd := -1\<rparr>))"
    by (simp add: list_all_iff conn_ok_def fresh_connection_def http_sizes)
  then show ?thesis
    using parse_args_ok [OF s1] setup_ok [OF s2(1)] s2(2)
    by (auto simp: srv_ok_def server_start_def)
qed

interpretation http: invariant_system "\<lambda>r. host_ok h \<and> http_started h net os r" "http_step h"
  "\<lambda>r. host_ok h \<and> http_inv r" for h net os
proof unfold_locales
  fix r assume "host_ok h \<and> http_started h net os r"
  then show "host_ok h \<and> http_inv r" using http_start_ok by (auto simp: http_started_def http_inv_def)
next
  fix r r' assume inv: "host_ok h \<and> http_inv r" and step: "http_step h r r'"
  from step inv show "host_ok h \<and> http_inv r'"
  proof cases
    case (round srv evs srv' out)
    then show ?thesis using inv serve_round_ok [of h srv evs] by (simp add: http_inv_def)
  next
    case (round_fault srv evs e)
    then show ?thesis using inv serve_round_ok [of h srv evs] by (simp add: http_inv_def)
  qed
qed

lemma http_url_decode_length: "length (http_url_decode n s) \<le> n"
  by (induction n s rule: http_url_decode.induct) (auto split: list.split option.split)

text \<open>
  Property C10. In every state the server can reach, whatever arrives and however the sockets
  behave, no array is overrun and no null pointer used: the table holds at most 1024 connections,
  each with room for the closing NUL in its receive buffer and a send buffer within its 8192
  bytes of which no more is sent than filled, and percent decoding respects the size it is given.
\<close>

theorem http_buffers_bounded:
  assumes "host_ok h" and "reach (http_started h net os) (http_step h) r"
  shows "\<exists>srv. r = Inr srv \<and> nconns srv \<le> 1024 \<and> length (conns srv) = 1024 \<and>
    (\<forall>c \<in> set (conns srv). length (recv_buf c) < 4096 \<and> send_sent c \<le> send_len c \<and>
       send_len c \<le> length (send_buf c) \<and> length (send_buf c) \<le> 8192) \<and>
    (\<forall>k i. kq srv k = Some (Some i) \<longrightarrow> i < length (conns srv)) \<and>
    (\<forall>n s. length (http_url_decode n s) \<le> n)"
proof -
  obtain srv where srv: "r = Inr srv" "srv_ok srv"
    using http.reach_inv [of h net os r] reach_mono [OF assms(2), of "\<lambda>r. host_ok h \<and> http_started h net os r"]
      assms(1) by (auto simp: http_inv_def)
  then have "\<forall>c \<in> set (conns srv). conn_ok c" by (simp add: srv_ok_def list_all_iff)
  then show ?thesis
    using srv http_url_decode_length by (auto simp: srv_ok_def conn_ok_def http_sizes)
qed

definition sample_net :: net where
  "sample_net = \<lparr>n_socket = 3, n_setsockopt = True, n_inet_pton = (\<lambda>_. True), n_bind = (\<lambda>_. True),
     n_listen = True, n_nonblocking = True\<rparr>"

lemma listen_address_example: "listen_address ''127.0.0.1:8080'' = Some (''127.0.0.1'', 8080)"
  by (simp add: listen_address_def Let_def strtol10_def is_space_def is_digit_def digits_val_def clamp_long_def)

lemma http_buffers_bounded_witness:
  "\<exists>srv. reach (http_started sample_host sample_net [RootOpt ''/srv'', ListenOpt ''127.0.0.1:8080''])
      (http_step sample_host) (Inr srv) \<and> nconns srv = 1 \<and>
    (\<forall>c \<in> set (conns srv). length (recv_buf c) < 4096)"
proof -
  let ?os = "[RootOpt ''/srv'', ListenOpt ''127.0.0.1:8080'']"
  have h: "host_ok sample_host" by (simp add: host_ok_def sample_host_def)
  obtain srv where srv: "http_start sample_host sample_net ?os = Some srv" "nconns srv = 0" "listen_fd srv = 3"
      "length (conns srv) = 1024" "conns srv = replicate MAX_CONN (fresh_connection\<lparr>c_fd := -1, file_fd := -1\<rparr>)"
    by (simp add: http_start_def server_start_def setup_listen_socket_def listen_address_example
        sample_net_def sample_host_def MAX_CONN_def)
  let ?ev = "\<lparr>ev_ident = 3, ev_udata = None, ev_activity = Acceptable 7 True\<rparr>"
  have "events_ok srv [?ev]" using srv by (simp add: events_ok_def activity_ok_def)
  moreover obtain srv' where "serve_round sample_host [?ev] srv = Inr (srv', [])" "nconns srv' = 1"
    using srv by (simp add: serve_round_def handle_event_def accept_connection_def free_conns_def
        free_step_def sample_host_def MAX_CONN_def Let_def)
  moreover have "reach (http_started sample_host sample_net ?os) (http_step sample_host) (Inr srv)"
    using srv(1) by (intro reach_init) (simp add: http_started_def)
  ultimately have r: "reach (http_started sample_host sample_net ?os) (http_step sample_host) (Inr srv')"
    "nconns srv' = 1" by (auto intro: reach_step http_step.round)
  then show ?thesis using http_buffers_bounded [OF h r(1)] by auto
qed

text \<open>
  \<open>free_conns\<close> moves connections to the front but the user data of their events still points to
  the old slots. The next client is then put into the slot that the moved client's events name:
  what the first one sends is handled on the connection of the second.
\<close>

lemma moved_connection_mixes_clients:
  assumes "conns srv = a # b # cs" "c_fd a = -1" "c_fd b = fd" "fd \<noteq> -1" "nconns srv = 2"
    and "kq srv (fd, EVFILT_READ) = Some (Some 1)" "length (conns srv) = MAX_CONN"
    and "fd' \<noteq> -1" "fd' \<noteq> fd" "h_watch h fd' EVFILT_READ"
  shows "\<exists>srv'. accept_connection h fd' True (free_conns srv) = Inr srv' \<and>
    c_fd (conns srv' ! 0) = fd \<and> kq srv' (fd, EVFILT_READ) = Some (Some 1) \<and> c_fd (conns srv' ! 1) = fd'"
proof -
  have "[0..<2] = [0, 1 :: nat]" by (simp add: upt_rec)
  then have "free_conns srv = srv\<lparr>conns := b # b # cs, nconns := 1\<rparr>"
    using assms by (simp add: free_conns_def free_step_def)
  then show ?thesis
    using assms by (simp add: accept_connection_def MAX_CONN_def Let_def kq_effect_def)
qed

text \<open>
  After the answer 413 has been prepared the connection still waits for input; the buffer is full,
  so \<open>recv\<close> is asked for nothing, returns 0, and the connection is closed before the answer is sent.
\<close>

lemma payload_too_large_not_sent:
  assumes "length (recv_buf conn) = 4095" "c_fd conn \<noteq> -1" "rcv 0 = Received []"
  shows "handle_read h dir rcv conn = Inr (close_connection conn)"
  using assms by (simp add: handle_read_def RECV_BUF_SIZE_def)

text \<open>\<open>strtol\<close> accepts a sign, so a percent sign before a sign and a digit is decoded as well.\<close>

lemma percent_sign_decoded: "http_url_decode 9 ''%+5'' = [char_of (5 :: nat)]"
proof -
  have "hex2 CHR ''+'' CHR ''5'' = Some 5" by (simp add: hex2_def hex_val_def)
  then show ?thesis by (simp add: eval_nat_numeral)
qed

end
