(* ===== verification/Game.thy ===== *)
theory Game
  imports Prelude
begin

text \<open>
  The noughts-and-crosses game 35_game: the board, the search for a winner, clicks, the menu, the
  event loop as a step function, and what is drawn as a list of commands. The texts of the program,
  which are not ASCII, are constructors. The graphics library is given by which of its start-up
  calls succeed and by whether its event queue is empty.
\<close>

section \<open>The board\<close>

datatype mark = X | Nought

datatype game_state = MENU | PLAYING | QUIT

type_synonym board = "mark option list list"

record game =
  board :: board
  player_x_turn :: bool
  g_state :: game_state
  redraw :: bool

definition cell :: "board \<Rightarrow> nat \<Rightarrow> nat \<Rightarrow> mark option" where
  "cell b i j = b ! i ! j"

definition same3 :: "mark option \<Rightarrow> mark option \<Rightarrow> mark option \<Rightarrow> bool" where
  "same3 x y z \<longleftrightarrow> x \<noteq> None \<and> x = y \<and> y = z"

text \<open>The loop over rows and columns, then the two diagonals.\<close>

fun winner_from :: "board \<Rightarrow> nat list \<Rightarrow> mark option" where
  "winner_from b [] =
     (if same3 (cell b 0 0) (cell b 1 1) (cell b 2 2) then cell b 0 0
      else if same3 (cell b 0 2) (cell b 1 1) (cell b 2 0) then cell b 0 2
      else None)"
| "winner_from b (i # is) =
     (if same3 (cell b i 0) (cell b i 1) (cell b i 2) then cell b i 0
      else if same3 (cell b 0 i) (cell b 1 i) (cell b 2 i) then cell b 0 i
      else winner_from b is)"

definition check_winner :: "board \<Rightarrow> mark option" where
  "check_winner b = winner_from b [0, 1, 2]"

definition is_board_full :: "board \<Rightarrow> bool" where
  "is_board_full b \<longleftrightarrow> list_all (\<lambda>i. list_all (\<lambda>j. cell b i j \<noteq> None) [0, 1, 2]) [0, 1, 2]"

definition empty_board :: board where
  "empty_board = replicate 3 (replicate 3 None)"

definition reset_game :: "game \<Rightarrow> game" where
  "reset_game g = g\<lparr>board := empty_board, player_x_turn := True\<rparr>"

section \<open>Clicks\<close>

definition hit_col :: "int \<Rightarrow> nat option" where
  "hit_col mx = (if 100 \<le> mx \<and> mx < 266 then Some 0
     else if 266 \<le> mx \<and> mx < 533 then Some 1
     else if 533 \<le> mx \<and> mx \<le> 700 then Some 2 else None)"

definition hit_row :: "int \<Rightarrow> nat option" where
  "hit_row my = (if 100 \<le> my \<and> my < 233 then Some 0
     else if 233 \<le> my \<and> my < 366 then Some 1
     else if 366 \<le> my \<and> my \<le> 500 then Some 2 else None)"

definition handle_board_click :: "int \<Rightarrow> int \<Rightarrow> game \<Rightarrow> game" where
  "handle_board_click mx my g =
     (if check_winner (board g) \<noteq> None \<or> is_board_full (board g) then g\<lparr>g_state := MENU\<rparr>
      else
        case (hit_row my, hit_col mx) of
          (Some row, Some col) \<Rightarrow>
            if cell (board g) row col = None
            then g\<lparr>board := (board g)[row := (board g ! row)[col :=
                     Some (if player_x_turn g then X else Nought)]],
                   player_x_turn := \<not> player_x_turn g\<rparr>
            else g
        | _ \<Rightarrow> g)"

section \<open>The event loop\<close>

datatype event =
    Timer
  | DisplayClose
  | KeyDown bool                 \<comment> \<open>whether the key is Escape\<close>
  | MouseButtonDown nat int int  \<comment> \<open>button and position\<close>
  | OtherEvent

definition menu_click :: "int \<Rightarrow> int \<Rightarrow> game \<Rightarrow> game" where
  "menu_click mx my g =
     (if 350 \<le> mx \<and> mx \<le> 450 \<and> 300 \<le> my \<and> my \<le> 350 then (reset_game g)\<lparr>g_state := PLAYING\<rparr>
      else if 350 \<le> mx \<and> mx \<le> 450 \<and> 400 \<le> my \<and> my \<le> 450 then g\<lparr>g_state := QUIT\<rparr>
      else g)"

definition handle_game_event :: "event \<Rightarrow> game \<Rightarrow> game" where
  "handle_game_event ev g =
     (case ev of
        Timer \<Rightarrow> g\<lparr>redraw := True\<rparr>
      | DisplayClose \<Rightarrow> g\<lparr>g_state := QUIT\<rparr>
      | KeyDown escape \<Rightarrow>
          if escape then (if g_state g = PLAYING then g\<lparr>g_state := MENU\<rparr> else g\<lparr>g_state := QUIT\<rparr>) else g
      | MouseButtonDown button mx my \<Rightarrow>
          if button = 1 then
            (if g_state g = MENU then menu_click mx my g
             else if g_state g = PLAYING then handle_board_click mx my g else g)
          else g
      | OtherEvent \<Rightarrow> g)"

section \<open>Drawing\<close>

datatype message = Title | Play | Exit | Wins mark | Draw | ToMove mark

datatype drawing =
    Clear
  | Label message int int
  | Box int int int int
  | Line int int int int
  | Circle int int int

definition draw_menu :: "drawing list" where
  "draw_menu = [Clear, Label Title 400 200, Box 350 300 450 350, Label Play 400 315,
     Box 350 400 450 450, Label Exit 400 415]"

definition cell_x :: "int list" where "cell_x = [183, 400, 617]"
definition cell_y :: "int list" where "cell_y = [167, 300, 433]"

definition draw_cell :: "board \<Rightarrow> nat \<Rightarrow> nat \<Rightarrow> drawing list" where
  "draw_cell b i j =
     (let x = cell_x ! j; y = cell_y ! i in
      case cell b i j of
        Some X \<Rightarrow> [Line (x - 50) (y - 50) (x + 50) (y + 50), Line (x + 50) (y - 50) (x - 50) (y + 50)]
      | Some Nought \<Rightarrow> [Circle x y 50]
      | None \<Rightarrow> [])"

definition draw_board :: "game \<Rightarrow> drawing list" where
  "draw_board g =
     [Clear, Line 266 100 266 500, Line 533 100 533 500, Line 100 233 700 233, Line 100 366 700 366] @
     concat (map (\<lambda>i. concat (map (\<lambda>j. draw_cell (board g) i j) [0, 1, 2])) [0, 1, 2]) @
     [Label (case check_winner (board g) of
               Some w \<Rightarrow> Wins w
             | None \<Rightarrow> if is_board_full (board g) then Draw
                       else ToMove (if player_x_turn g then X else Nought)) 400 550]"

text \<open>One round of the loop; what is drawn, if the queue is empty and the timer has asked for it.\<close>

definition game_round :: "event \<Rightarrow> bool \<Rightarrow> game \<Rightarrow> game \<times> drawing list" where
  "game_round ev queue_empty g =
     (let g = handle_game_event ev g in
      if redraw g \<and> queue_empty then
        (g\<lparr>redraw := False\<rparr>,
         if g_state g = MENU then draw_menu else if g_state g = PLAYING then draw_board g else [])
      else (g, []))"

fun run_game :: "(event \<times> bool) list \<Rightarrow> game \<Rightarrow> game" where
  "run_game [] g = g"
| "run_game ((ev, q) # evs) g =
     (if g_state g = QUIT then g else run_game evs (fst (game_round ev q g)))"

section \<open>Start\<close>

datatype init_call =
    al_init | al_install_mouse | al_install_keyboard | al_init_primitives_addon | al_init_ttf_addon
  | game_atexit | al_create_display | al_create_timer | al_create_event_queue

definition init_calls :: "init_call list" where
  "init_calls = [al_init, al_install_mouse, al_install_keyboard, al_init_primitives_addon,
     al_init_ttf_addon, game_atexit, al_create_display, al_create_timer, al_create_event_queue]"

definition font_paths :: "string list" where
  "font_paths = [''data/Roboto-Regular.ttf'', ''Roboto-Regular.ttf'',
     ''/System/Library/Fonts/Supplemental/Arial.ttf'',
     ''/usr/share/fonts/truetype/liberation/LiberationSans-Regular.ttf'',
     ''C:/Windows/Fonts/arial.ttf'']"

definition load_cyrillic_font :: "(string \<Rightarrow> bool) \<Rightarrow> string option" where
  "load_cyrillic_font loads = List.find loads font_paths"

text \<open>\<open>None\<close> is the exit with a failure.\<close>

definition game_start :: "(init_call \<Rightarrow> bool) \<Rightarrow> (string \<Rightarrow> bool) \<Rightarrow> game option" where
  "game_start succeeds loads =
     (if \<not> list_all succeeds init_calls then None
      else if load_cyrillic_font loads = None then None
      else Some ((reset_game \<lparr>board = empty_board, player_x_turn = False, g_state = MENU, redraw = True\<rparr>)
                   \<lparr>g_state := MENU\<rparr>))"

section \<open>Lines and counts\<close>

definition game_lines :: "(nat \<times> nat) list list" where
  "game_lines =
     [[(0,0), (0,1), (0,2)], [(1,0), (1,1), (1,2)], [(2,0), (2,1), (2,2)],
      [(0,0), (1,0), (2,0)], [(0,1), (1,1), (2,1)], [(0,2), (1,2), (2,2)],
      [(0,0), (1,1), (2,2)], [(0,2), (1,1), (2,0)]]"

definition has_line :: "mark \<Rightarrow> board \<Rightarrow> bool" where
  "has_line p b \<longleftrightarrow> (\<exists>l \<in> set game_lines. \<forall>(i, j) \<in> set l. cell b i j = Some p)"

definition board_ok :: "board \<Rightarrow> bool" where
  "board_ok b \<longleftrightarrow> length b = 3 \<and> (\<forall>row \<in> set b. length row = 3)"

definition marks :: "mark option \<Rightarrow> board \<Rightarrow> nat" where
  "marks c b = sum_list (map (\<lambda>row. count_list row c) b)"

lemma same3_iff: "(\<exists>p. x = Some p \<and> y = Some p \<and> z = Some p) \<longleftrightarrow> same3 x y z"
  by (cases x) (auto simp: same3_def)

lemma same3_result: "(if same3 x y z then x else e) = None \<longleftrightarrow> \<not> same3 x y z \<and> e = None"
  by (auto simp: same3_def)

lemma has_line_cases:
  "(\<exists>p. has_line p b) \<longleftrightarrow>
   same3 (cell b 0 0) (cell b 0 1) (cell b 0 2) \<or> same3 (cell b 1 0) (cell b 1 1) (cell b 1 2) \<or>
   same3 (cell b 2 0) (cell b 2 1) (cell b 2 2) \<or> same3 (cell b 0 0) (cell b 1 0) (cell b 2 0) \<or>
   same3 (cell b 0 1) (cell b 1 1) (cell b 2 1) \<or> same3 (cell b 0 2) (cell b 1 2) (cell b 2 2) \<or>
   same3 (cell b 0 0) (cell b 1 1) (cell b 2 2) \<or> same3 (cell b 0 2) (cell b 1 1) (cell b 2 0)"
  unfolding same3_iff [symmetric] has_line_def game_lines_def by (simp add: ex_disj_distrib)

lemma check_winner_None: "check_winner b = None \<longleftrightarrow> \<not> has_line X b \<and> \<not> has_line Nought b"
proof -
  have "check_winner b = None \<longleftrightarrow> \<not> (\<exists>p. has_line p b)"
    unfolding has_line_cases check_winner_def winner_from.simps same3_result by argo
  also have "(\<exists>p. has_line p b) \<longleftrightarrow> has_line X b \<or> has_line Nought b" by (metis mark.exhaust)
  finally show ?thesis by blast
qed

lemma check_winner_Some: "check_winner b = Some p \<Longrightarrow> has_line p b"
  by (auto simp: has_line_def game_lines_def check_winner_def same3_def split: if_splits)

lemma count_list_update:
  assumes "j < length xs"
  shows "count_list (xs[j := y]) z + (if xs ! j = z then 1 else 0) = count_list xs z + (if y = z then 1 else 0)"
proof -
  have "count_list ys z = sum_list (map (\<lambda>x. if x = z then 1 else 0) ys)" for ys
    by (induction ys) auto
  then show ?thesis using sum_list_swap [OF assms, of "\<lambda>x. if x = z then 1 else (0 :: nat)" y] by simp
qed

lemma marks_update:
  assumes "board_ok b" "i < 3" "j < 3"
  shows "marks c (b[i := (b ! i)[j := v]]) + (if cell b i j = c then 1 else 0) =
    marks c b + (if v = c then 1 else 0)"
proof -
  have ij: "i < length b" "j < length (b ! i)" using assms by (simp_all add: board_ok_def)
  show ?thesis
    using sum_list_swap [OF ij(1), of "\<lambda>row. count_list row c" "(b ! i)[j := v]"]
      count_list_update [OF ij(2), of v c] by (simp add: marks_def cell_def)
qed

lemma cell_update:
  assumes "board_ok b" "i < 3" "j < 3" "i' < 3" "j' < 3"
  shows "cell (b[i := (b ! i)[j := v]]) i' j' = (if i = i' \<and> j = j' then v else cell b i' j')"
  using assms by (auto simp: cell_def board_ok_def nth_list_update)

lemma lines_inside: "l \<in> set game_lines \<Longrightarrow> (i, j) \<in> set l \<Longrightarrow> i < 3 \<and> j < 3"
  by (auto simp: game_lines_def)

text \<open>A move of the one player does not give the other a line.\<close>

lemma has_line_other:
  assumes "board_ok b" "i < 3" "j < 3" "p \<noteq> q" "has_line q (b[i := (b ! i)[j := Some p]])"
  shows "has_line q b"
proof -
  obtain l where l: "l \<in> set game_lines"
      "\<forall>(i', j') \<in> set l. cell (b[i := (b ! i)[j := Some p]]) i' j' = Some q"
    using assms(5) by (auto simp: has_line_def)
  have "cell b i' j' = Some q" if ij: "(i', j') \<in> set l" for i' j'
  proof -
    have "cell (b[i := (b ! i)[j := Some p]]) i' j' = Some q" using l(2) ij by auto
    then show ?thesis
      using cell_update [OF assms(1-3)] lines_inside [OF l(1) ij] assms(4) by (auto split: if_splits)
  qed
  then show ?thesis using l(1) by (auto simp: has_line_def)
qed

lemma full_no_empty:
  assumes "board_ok b"
  shows "is_board_full b \<longleftrightarrow> marks None b = 0"
proof -
  have "\<exists>r s t. b = [r, s, t]" using assms by (auto simp: board_ok_def length_Suc_conv eval_nat_numeral)
  then obtain r s t where b: "b = [r, s, t]" by blast
  have "\<exists>x y z. row = [x, y, z]" if "length row = 3" for row :: "mark option list"
    using that by (auto simp: length_Suc_conv eval_nat_numeral)
  then obtain a1 a2 a3 b1 b2 b3 c1 c2 c3 where "r = [a1, a2, a3]" "s = [b1, b2, b3]" "t = [c1, c2, c3]"
    using assms b by (force simp: board_ok_def)
  then show ?thesis
    using b by (auto simp: is_board_full_def marks_def cell_def)
qed

section \<open>The rules hold\<close>

definition game_inv :: "game \<Rightarrow> bool" where
  "game_inv g \<longleftrightarrow> board_ok (board g) \<and>
     marks (Some X) (board g) = marks (Some Nought) (board g) + (if player_x_turn g then 0 else 1) \<and>
     (has_line X (board g) \<longrightarrow> \<not> player_x_turn g) \<and> (has_line Nought (board g) \<longrightarrow> player_x_turn g)"

definition over :: "board \<Rightarrow> bool" where
  "over b \<longleftrightarrow> check_winner b \<noteq> None \<or> is_board_full b"

text \<open>A move: one empty cell gets the mark of the player whose turn it is.\<close>

definition moved :: "nat \<Rightarrow> nat \<Rightarrow> game \<Rightarrow> game" where
  "moved i j g = g\<lparr>board := (board g)[i := (board g ! i)[j := Some (if player_x_turn g then X else Nought)]],
     player_x_turn := \<not> player_x_turn g\<rparr>"

lemma hit_less: "hit_row my = Some i \<Longrightarrow> i < 3" "hit_col mx = Some j \<Longrightarrow> j < 3"
  by (auto simp: hit_row_def hit_col_def split: if_splits)

lemma board_click_cases:
  obtains "over (board g)" "handle_board_click mx my g = g\<lparr>g_state := MENU\<rparr>"
  | i j where "\<not> over (board g)" "hit_row my = Some i" "hit_col mx = Some j" "cell (board g) i j = None"
      "handle_board_click mx my g = moved i j g"
  | "\<not> over (board g)" "handle_board_click mx my g = g"
      "\<And>i j. hit_row my = Some i \<Longrightarrow> hit_col mx = Some j \<Longrightarrow> cell (board g) i j \<noteq> None"
  by (cases "over (board g)"; cases "hit_row my"; cases "hit_col mx")
    (auto simp: handle_board_click_def over_def moved_def split: if_splits)

lemma board_ok_update: "board_ok b \<Longrightarrow> i < 3 \<Longrightarrow> board_ok (b[i := (b ! i)[j := v]])"
  by (auto simp: board_ok_def dest!: subsetD [OF set_update_subset_insert])

lemma moved_inv:
  assumes "game_inv g" "i < 3" "j < 3" "cell (board g) i j = None" "\<not> over (board g)"
  shows "game_inv (moved i j g)"
proof -
  have b: "board_ok (board g)" using assms(1) by (simp add: game_inv_def)
  have nl: "\<not> has_line X (board g)" "\<not> has_line Nought (board g)"
    using assms(5) check_winner_None [of "board g"] by (auto simp: over_def)
  note other = has_line_other [OF b assms(2,3)]
  note cnt = marks_update [OF b assms(2,3)]
  show ?thesis
    using assms(1,4) nl board_ok_update [OF b assms(2)] other [of X Nought] other [of Nought X]
      cnt [of "Some X" "Some X"] cnt [of "Some X" "Some Nought"]
      cnt [of "Some Nought" "Some X"] cnt [of "Some Nought" "Some Nought"]
    by (auto simp: game_inv_def moved_def)
qed

lemma empty_board_facts:
  "board_ok empty_board" "marks c empty_board = (if c = None then 9 else 0)" "\<not> has_line p empty_board"
  by (auto simp: board_ok_def empty_board_def marks_def has_line_def game_lines_def cell_def eval_nat_numeral)

lemma reset_inv: "game_inv (reset_game g)"
  by (simp add: game_inv_def reset_game_def empty_board_facts)

lemma game_inv_other [simp]:
  "game_inv (g\<lparr>g_state := st\<rparr>) = game_inv g" "game_inv (g\<lparr>redraw := r\<rparr>) = game_inv g"
  by (simp_all add: game_inv_def)

lemma click_inv: "game_inv g \<Longrightarrow> game_inv (handle_board_click mx my g)"
  by (rule board_click_cases [of g mx my]) (auto intro: moved_inv hit_less)

lemma event_inv: "game_inv g \<Longrightarrow> game_inv (handle_game_event ev g)"
  using click_inv reset_inv
  by (auto simp: handle_game_event_def menu_click_def split: event.split)

lemma round_inv: "game_inv g \<Longrightarrow> game_inv (fst (game_round ev q g))"
  using event_inv [of g ev] by (auto simp: game_round_def Let_def)

inductive game_step :: "game \<Rightarrow> game \<Rightarrow> bool" where
  "g_state g \<noteq> QUIT \<Longrightarrow> game_step g (fst (game_round ev q g))"

interpretation game: invariant_system "\<lambda>g. game_start succeeds loads = Some g" game_step game_inv
  for succeeds loads
  by unfold_locales
    (auto simp: game_start_def reset_inv round_inv split: if_splits elim!: game_step.cases)

text \<open>
  Property C26. In every reachable state the position is one of a fair game: as many crosses as
  noughts, or one more when it is not the turn of X; the winner the program announces is a player
  who has a full line, it announces one whenever there is one, at most one player has one, and it
  is the player who moved last.
\<close>

theorem game_positions_legal:
  assumes "reach (\<lambda>g. game_start succeeds loads = Some g) game_step g"
  shows "board_ok (board g) \<and>
    marks (Some X) (board g) = marks (Some Nought) (board g) + (if player_x_turn g then 0 else 1) \<and>
    \<not> (has_line X (board g) \<and> has_line Nought (board g)) \<and>
    (check_winner (board g) = Some p \<longleftrightarrow> has_line p (board g)) \<and>
    (has_line p (board g) \<longrightarrow> (p = X \<longleftrightarrow> \<not> player_x_turn g))"
proof -
  have inv: "game_inv g" using game.reach_inv [OF assms] .
  then have one: "\<not> (has_line X (board g) \<and> has_line Nought (board g))" by (auto simp: game_inv_def)
  have "check_winner (board g) = Some p" if p: "has_line p (board g)"
  proof -
    obtain q where q: "check_winner (board g) = Some q"
      using p check_winner_None [of "board g"] by (cases p; cases "check_winner (board g)") auto
    then have "has_line q (board g)" by (rule check_winner_Some)
    then have "q = p" using p one by (cases p; cases q) auto
    then show ?thesis using q by simp
  qed
  then show ?thesis
    using inv one check_winner_Some [of "board g" p] unfolding game_inv_def by (cases p) blast+
qed

text \<open>
  One event changes the board only by the rules: it leaves it alone, clears it (the
  Play button of the menu), or, while playing and before the game is over, puts the mark of the
  player whose turn it is into one empty cell and passes the turn.
\<close>

theorem game_moves_only:
  "board (handle_game_event ev g) = board g \<or>
   g_state g = MENU \<and> g_state (handle_game_event ev g) = PLAYING \<and>
     board (handle_game_event ev g) = empty_board \<and> player_x_turn (handle_game_event ev g) \<or>
   g_state g = PLAYING \<and> \<not> over (board g) \<and>
     (\<exists>i j. i < 3 \<and> j < 3 \<and> cell (board g) i j = None \<and> handle_game_event ev g = moved i j g)"
proof (cases ev)
  case (MouseButtonDown button mx my)
  show ?thesis
  proof (cases "button = 1 \<and> g_state g = PLAYING")
    case True
    then have eq: "handle_game_event ev g = handle_board_click mx my g"
      using MouseButtonDown by (simp add: handle_game_event_def)
    show ?thesis
      by (rule board_click_cases [of g mx my]) (use True eq in \<open>auto dest: hit_less\<close>)
  next
    case False
    then show ?thesis
      using MouseButtonDown by (auto simp: handle_game_event_def menu_click_def reset_game_def)
  qed
qed (auto simp: handle_game_event_def)

lemma game_positions_legal_witness:
  "\<exists>g. reach (\<lambda>g. game_start (\<lambda>_. True) (\<lambda>_. True) = Some g) game_step g \<and> board_ok (board g) \<and>
     \<not> (has_line X (board g) \<and> has_line Nought (board g))"
proof -
  obtain g where "game_start (\<lambda>_. True) (\<lambda>_. True) = Some g"
    by (simp add: game_start_def load_cyrillic_font_def font_paths_def init_calls_def)
  then have "reach (\<lambda>g. game_start (\<lambda>_. True) (\<lambda>_. True) = Some g) game_step g" by (rule reach_init)
  then show ?thesis using game_positions_legal by blast
qed

section \<open>Games end\<close>

definition clicks :: "(int \<times> int) list \<Rightarrow> game \<Rightarrow> game" where
  "clicks ps g = foldl (\<lambda>g p. handle_game_event (MouseButtonDown 1 (fst p) (snd p)) g) g ps"

lemma clicks_simps [simp]:
  "clicks [] g = g"
  "clicks (ps @ [p]) g = handle_game_event (MouseButtonDown 1 (fst p) (snd p)) (clicks ps g)"
  by (simp_all add: clicks_def)

text \<open>While the game is not over, what is marked stays marked, and a cell is marked once clicked.\<close>

lemma clicks_fill:
  assumes "g_state g = PLAYING" "board_ok (board g)" "\<forall>k \<le> length ps. \<not> over (board (clicks (take k ps) g))"
  shows "g_state (clicks ps g) = PLAYING \<and> board_ok (board (clicks ps g)) \<and>
    (\<forall>p \<in> set ps. \<forall>i j. hit_row (snd p) = Some i \<longrightarrow> hit_col (fst p) = Some j \<longrightarrow>
       cell (board (clicks ps g)) i j \<noteq> None)"
  using assms(3)
proof (induction ps rule: rev_induct)
  case Nil
  then show ?case using assms(1,2) by simp
next
  case (snoc p ps)
  let ?g = "clicks ps g"
  have "\<forall>k \<le> length ps. \<not> over (board (clicks (take k ps) g))"
  proof (intro allI impI)
    fix k assume "k \<le> length ps"
    then show "\<not> over (board (clicks (take k ps) g))" using snoc.prems [rule_format, of k] by simp
  qed
  then have ih: "g_state ?g = PLAYING" "board_ok (board ?g)"
      "\<forall>p \<in> set ps. \<forall>i j. hit_row (snd p) = Some i \<longrightarrow> hit_col (fst p) = Some j \<longrightarrow> cell (board ?g) i j \<noteq> None"
    using snoc.IH by blast+
  have no: "\<not> over (board ?g)" using snoc.prems [rule_format, of "length ps"] by simp
  have step: "clicks (ps @ [p]) g = handle_board_click (fst p) (snd p) ?g"
    using ih(1) by (simp add: handle_game_event_def)
  show ?case
  proof (rule board_click_cases [of ?g "fst p" "snd p"])
    fix i j assume m: "hit_row (snd p) = Some i" "hit_col (fst p) = Some j"
      "handle_board_click (fst p) (snd p) ?g = moved i j ?g"
    have ij: "i < 3" "j < 3" using m hit_less by blast+
    have "cell (board (moved i j ?g)) i' j' \<noteq> None"
      if "i' < 3" "j' < 3" "cell (board ?g) i' j' \<noteq> None \<or> i' = i \<and> j' = j" for i' j'
      using cell_update [OF ih(2) ij that(1,2)] that(3) by (auto simp: moved_def)
    then show ?thesis
      using ih m board_ok_update [OF ih(2) ij(1)] hit_less unfolding step
      by (auto simp: moved_def)
  qed (use no ih step in auto)
qed

text \<open>
  Property C11. A game always ends: a sequence of clicks that hits each of the nine cells at least
  once, in any order and with any clicks in between, reaches a point where the game is won or the
  board is full; and the next click then leads back to the menu.
\<close>

theorem game_ends:
  assumes "g_state g = PLAYING" and "board_ok (board g)"
    and "\<forall>i < 3. \<forall>j < 3. \<exists>p \<in> set ps. hit_row (snd p) = Some i \<and> hit_col (fst p) = Some j"
  shows "\<exists>k \<le> length ps. over (board (clicks (take k ps) g)) \<and> g_state (clicks (take k ps) g) = PLAYING \<and>
    (\<forall>q. g_state (clicks (take k ps @ [q]) g) = MENU)"
proof -
  have "\<exists>k \<le> length ps. over (board (clicks (take k ps) g))"
  proof (rule ccontr)
    assume none: "\<not> (\<exists>k \<le> length ps. over (board (clicks (take k ps) g)))"
    then have "\<forall>k \<le> length ps. \<not> over (board (clicks (take k ps) g))" by blast
    from clicks_fill [OF assms(1,2) this]
    have "\<forall>i < 3. \<forall>j < 3. cell (board (clicks ps g)) i j \<noteq> None" using assms(3) by blast
    then have "is_board_full (board (clicks ps g))" by (simp add: is_board_full_def)
    then show False using none by (auto simp: over_def dest: spec [of _ "length ps"])
  qed
  then obtain k where k: "k \<le> length ps" "over (board (clicks (take k ps) g))"
    and least: "\<And>m. m < k \<Longrightarrow> \<not> (m \<le> length ps \<and> over (board (clicks (take m ps) g)))"
    using exists_least_iff [of "\<lambda>k. k \<le> length ps \<and> over (board (clicks (take k ps) g))"] by blast
  have st: "g_state (clicks (take k ps) g) = PLAYING"
  proof (cases k)
    case 0
    then show ?thesis using assms(1) by simp
  next
    case (Suc m)
    have "\<forall>n \<le> length (take m ps). \<not> over (board (clicks (take n (take m ps)) g))"
      using least k(1) Suc by (auto simp: min_def)
    from clicks_fill [OF assms(1,2) this] have pl: "g_state (clicks (take m ps) g) = PLAYING" by simp
    have no: "\<not> over (board (clicks (take m ps) g))" using least [of m] Suc k(1) by simp
    have "take k ps = take m ps @ [ps ! m]" using Suc k(1) by (simp add: take_Suc_conv_app_nth)
    then have eq: "clicks (take k ps) g =
        handle_board_click (fst (ps ! m)) (snd (ps ! m)) (clicks (take m ps) g)"
      using pl by (simp add: handle_game_event_def)
    show ?thesis
      unfolding eq by (rule board_click_cases [of "clicks (take m ps) g" "fst (ps ! m)" "snd (ps ! m)"])
        (use pl no in \<open>simp_all add: moved_def\<close>)
  qed
  moreover have "g_state (clicks (take k ps @ [q]) g) = MENU" for q
    using st k(2) by (simp add: handle_game_event_def handle_board_click_def over_def)
  ultimately show ?thesis using k by blast
qed

definition all_centres :: "(int \<times> int) list" where
  "all_centres = List.product [183, 400, 617] [167, 300, 433]"

lemma game_ends_witness:
  "\<exists>k \<le> 9. over (board (clicks (take k all_centres)
      \<lparr>board = empty_board, player_x_turn = True, g_state = PLAYING, redraw = False\<rparr>))"
proof -
  let ?g = "\<lparr>board = empty_board, player_x_turn = True, g_state = PLAYING, redraw = False\<rparr>"
  have "\<forall>i < 3. \<forall>j < 3. \<exists>p \<in> set all_centres. hit_row (snd p) = Some i \<and> hit_col (fst p) = Some j"
    by (auto simp: all_centres_def less_Suc_eq eval_nat_numeral hit_row_def hit_col_def)
  moreover have "g_state ?g = PLAYING" "board_ok (board ?g)" by (simp_all add: empty_board_facts)
  moreover have "length all_centres = 9" by (simp add: all_centres_def)
  ultimately show ?thesis using game_ends [of ?g all_centres] by metis
qed

section \<open>The picture\<close>






end
