(* ===== verification/Telnet.thy ===== *)
theory Telnet
  imports CString
begin

text \<open>
  The figlet client 21_telnet: the text assembled from the arguments in a buffer of fixed size, the
  loop around \<open>write\<close>, the choice of an address, and the dialogue with the server. What \<open>getopt\<close>,
  the network and the server answer is given. The usage text, which is not ASCII, is a parameter.
\<close>

section \<open>The buffer of the text\<close>

definition BUF_SIZE :: nat where "BUF_SIZE = 8192"

text \<open>\<open>sizeof(text)\<close>.\<close>

definition text_size :: nat where "text_size = BUF_SIZE div 2"

text \<open>A store of \<open>s\<close> at the end of what is in the buffer.\<close>

definition put_text :: "string \<Rightarrow> string \<Rightarrow> string cres" where
  "put_text buf s = (if length buf + length s > text_size then Inl OutOfBounds else Inr (buf @ s))"

text \<open>One round of the loop over the arguments; \<open>first\<close> is \<open>i = optind\<close>.\<close>

definition add_argument :: "bool \<Rightarrow> string \<Rightarrow> string \<Rightarrow> string cres" where
  "add_argument first arg buf =
     bindE (if first then Inr buf else put_text buf '' '') (\<lambda>buf.
       let arg_len = (if length buf + length arg \<ge> text_size then text_size - length buf - 1
                      else length arg)
       in if arg_len > length arg then Inl OutOfBounds else put_text buf (take arg_len arg))"

fun add_arguments :: "bool \<Rightarrow> string list \<Rightarrow> string \<Rightarrow> string cres" where
  "add_arguments first [] buf = Inr buf"
| "add_arguments first (arg # args) buf =
     (if length buf < text_size - 2
      then bindE (add_argument first arg buf) (add_arguments False args)
      else Inr buf)"

text \<open>The closing NUL needs a place of its own.\<close>

definition build_text :: "string list \<Rightarrow> string cres" where
  "build_text args =
     bindE (add_arguments True args []) (\<lambda>text.
       if length text \<ge> text_size then Inl OutOfBounds else Inr text)"

section \<open>Sending and connecting\<close>

text \<open>
  \<open>send_all\<close> against the results of \<open>write\<close>: what has been written, the results not yet used, and
  whether the program goes on (it exits on a result that is not positive). \<open>None\<close> is a wait for ever.
\<close>

fun send_all :: "int list \<Rightarrow> string \<Rightarrow> (string \<times> int list \<times> bool) option" where
  "send_all ws [] = Some ([], ws, True)"
| "send_all [] (c # buf) = None"
| "send_all (w # ws) (c # buf) =
     (if w \<le> 0 then Some ([], ws, False)
      else map_option (\<lambda>(sent, ws, go). (take (nat w) (c # buf) @ sent, ws, go))
        (send_all ws (drop (nat w) (c # buf))))"

text \<open>Per address: the descriptor \<open>socket\<close> returns and whether \<open>connect\<close> succeeds.\<close>

fun connect_first :: "(int \<times> bool) list \<Rightarrow> int" where
  "connect_first [] = -1"
| "connect_first ((sock, ok) # rps) =
     (if sock = -1 then connect_first rps
      else if ok then sock
      else connect_first rps)"

section \<open>The dialogue\<close>

text \<open>
  A result of \<open>read\<close>: the bytes it stored, none at the end of the connection, or an error. A list of
  results that is used up stands for a closed connection.
\<close>

datatype read_result = Chunk string | ReadError

definition crlf :: string where "crlf = [CHR 0x0D, CHR 0x0A]"

text \<open>Waiting for the prompt: what the server sends after it, or the failure.\<close>

fun wait_prompt :: "read_result list \<Rightarrow> read_result list option" where
  "wait_prompt [] = None"
| "wait_prompt (Chunk buf # rs) =
     (if buf = [] then None
      else if strstr (''.'' @ crlf) (c_str buf) \<noteq> None then Some rs else wait_prompt rs)"
| "wait_prompt (ReadError # rs) = None"

text \<open>Copying the answer up to the next prompt: what is printed, and whether it ended well.\<close>

fun copy_answer :: "read_result list \<Rightarrow> string \<times> bool" where
  "copy_answer [] = ([], True)"
| "copy_answer (Chunk buf # rs) =
     (if buf = [] then ([], True)
      else case strstr (crlf @ ''.'') (c_str buf) of
        Some prompt_pos \<Rightarrow>
          (take (length (c_str buf) - length prompt_pos) buf @ [CHR 0x0A], True)
      | None \<Rightarrow> (case copy_answer rs of (out, ok) \<Rightarrow> (buf @ out, ok)))"
| "copy_answer (ReadError # rs) = ([], False)"

definition figlet_cmd :: "string \<Rightarrow> string \<Rightarrow> string" where
  "figlet_cmd font text = ''figlet /'' @ font @ '' '' @ text @ crlf"

datatype telnet_opt = FontOpt string | UnknownOpt

fun telnet_font :: "telnet_opt list \<Rightarrow> string \<Rightarrow> string option" where
  "telnet_font [] font = Some font"
| "telnet_font (FontOpt f # os) font = telnet_font os f"
| "telnet_font (UnknownOpt # os) font = None"

record session =
  t_sent :: string       \<comment> \<open>written to the socket\<close>
  t_printed :: string    \<comment> \<open>written to standard output\<close>
  t_ok :: bool           \<comment> \<open>the exit status\<close>

definition failed_session :: "string \<Rightarrow> session" where
  "failed_session sent = \<lparr>t_sent = sent, t_printed = [], t_ok = False\<rparr>"

definition telnet_main ::
  "telnet_opt list \<Rightarrow> string list \<Rightarrow> (int \<times> bool) list option \<Rightarrow> int list \<Rightarrow> read_result list \<Rightarrow> session run" where
  "telnet_main os args addresses ws rs =
     (case telnet_font os ''standard'' of
        None \<Rightarrow> Some (Inr (failed_session []))
      | Some font \<Rightarrow>
        if args = [] then Some (Inr (failed_session []))
        else
          bindR (Some (build_text args)) (\<lambda>text.
            case addresses of
              None \<Rightarrow> Some (Inr (failed_session []))
            | Some res \<Rightarrow>
              if connect_first res = -1 then Some (Inr (failed_session []))
              else
                (case send_all ws crlf of
                   None \<Rightarrow> None
                 | Some (sent, ws, go) \<Rightarrow>
                   if \<not> go then Some (Inr (failed_session sent))
                   else
                     (case wait_prompt rs of
                        None \<Rightarrow> Some (Inr (failed_session sent))
                      | Some rs \<Rightarrow>
                        let cmd = figlet_cmd font text in
                        if length cmd \<ge> BUF_SIZE then Some (Inr (failed_session sent))
                        else
                          (case send_all ws cmd of
                             None \<Rightarrow> None
                           | Some (sent', ws, go) \<Rightarrow>
                             if \<not> go then Some (Inr (failed_session (sent @ sent')))
                             else
                               (case copy_answer rs of
                                  (out, ok) \<Rightarrow> Some (Inr \<lparr>t_sent = sent @ sent', t_printed = out,
                                    t_ok = ok\<rparr>)))))))"

text \<open>
  \<open>print_usage\<close> on a usage text with the program's name put in: \<open>snprintf\<close> fills 256 bytes but
  returns the length of the whole text, and that many bytes are written out of the buffer.
\<close>

definition print_usage :: "string \<Rightarrow> string \<Rightarrow> string \<Rightarrow> string cres" where
  "print_usage before after prog =
     (let full = before @ prog @ after in
      if length full > 256 then Inl OutOfBounds
      else Inr (before @ ''%s'' @ after @ take (length full) (take 255 full @ [CHR 0x00])))"

section \<open>The text fits\<close>

fun spaced :: "bool \<Rightarrow> string list \<Rightarrow> string" where
  "spaced first [] = []"
| "spaced first (arg # args) = (if first then [] else '' '') @ arg @ spaced False args"

lemma sizes: "text_size = 4096" "BUF_SIZE = 8192"
  by (simp_all add: text_size_def BUF_SIZE_def)

lemma add_argument_fits:
  assumes "length buf < text_size - 2"
  shows "\<exists>k. add_argument first arg buf = Inr (buf @ (if first then [] else '' '') @ take k arg) \<and>
    length (buf @ (if first then [] else '' '') @ take k arg) < text_size \<and>
    (length (buf @ (if first then [] else '' '') @ arg) < text_size \<longrightarrow> length arg \<le> k) \<and>
    (length arg \<le> k \<or> length (buf @ (if first then [] else '' '') @ take k arg) = text_size - 1)"
proof -
  define b where "b = buf @ (if first then [] else '' '')"
  have b: "length b < text_size - 1" using assms by (auto simp: b_def sizes)
  have sep: "(if first then Inr buf else put_text buf '' '') = Inr b"
    using assms by (simp add: b_def put_text_def sizes)
  define k where "k = (if length b + length arg \<ge> text_size then text_size - length b - 1 else length arg)"
  have "k \<le> length arg" "length b + k < text_size"
    using b by (auto simp: k_def sizes)
  then have "add_argument first arg buf = Inr (b @ take k arg)"
    unfolding add_argument_def sep using k_def by (simp add: put_text_def Let_def)
  then show ?thesis
    using \<open>k \<le> length arg\<close> \<open>length b + k < text_size\<close> k_def
    by (intro exI [of _ k]) (auto simp: b_def sizes)
qed

lemma add_arguments_fit:
  assumes "length buf < text_size" "first \<longrightarrow> buf = []"
  shows "\<exists>t r. add_arguments first args buf = Inr t \<and> length t < text_size \<and>
    buf @ spaced first args = t @ r \<and>
    (length (buf @ spaced first args) < text_size - 1 \<longrightarrow> r = [])"
  using assms
proof (induction args arbitrary: first buf)
  case Nil
  then show ?case by simp
next
  case (Cons arg args)
  show ?case
  proof (cases "length buf < text_size - 2")
    case False
    then show ?thesis using Cons.prems by (auto simp: sizes)
  next
    case True
    let ?sep = "if first then [] else '' ''"
    obtain k where k: "add_argument first arg buf = Inr (buf @ ?sep @ take k arg)"
        "length (buf @ ?sep @ take k arg) < text_size"
        "length (buf @ ?sep @ arg) < text_size \<longrightarrow> length arg \<le> k"
        "length arg \<le> k \<or> length (buf @ ?sep @ take k arg) = text_size - 1"
      using add_argument_fits [OF True] by blast
    obtain t r where t: "add_arguments False args (buf @ ?sep @ take k arg) = Inr t"
        "length t < text_size" "(buf @ ?sep @ take k arg) @ spaced False args = t @ r"
        "length ((buf @ ?sep @ take k arg) @ spaced False args) < text_size - 1 \<longrightarrow> r = []"
      using Cons.IH [OF k(2), of False] by blast
    have run: "add_arguments first (arg # args) buf = Inr t" using True k(1) t(1) by simp
    show ?thesis
    proof (cases "length arg \<le> k")
      case True
      then show ?thesis using run t by (intro exI [of _ t] exI [of _ r]) simp
    next
      case False
      then have full: "length (buf @ ?sep @ take k arg) = text_size - 1"
          "\<not> length (buf @ ?sep @ arg) < text_size" using k(3,4) by blast+
      have "\<not> length (buf @ ?sep @ take k arg) < text_size - 2" unfolding full(1) by (simp add: sizes)
      then have "t = buf @ ?sep @ take k arg" using t(1) by (cases args) auto
      then show ?thesis
        using run t(2) full(2)
        by (intro exI [of _ t] exI [of _ "drop k arg @ spaced False args"]) auto
    qed
  qed
qed

text \<open>
  Property C27. The text built from the arguments fits its buffer of 4096 bytes with the closing
  NUL, whatever their number and lengths: no store is outside, and the text is a prefix of the
  arguments joined by blanks, all of it when that is shorter than 4095 bytes.
\<close>

theorem text_fits_buffer:
  "\<exists>text rest. build_text args = Inr text \<and> length text \<le> 4095 \<and> spaced True args = text @ rest \<and>
    (length (spaced True args) < 4095 \<longrightarrow> rest = [])"
  using add_arguments_fit [of "[]" True args] by (auto simp: build_text_def sizes)

lemma text_fits_buffer_witness: "build_text [''hello'', ''all''] = Inr ''hello all''"
  using text_fits_buffer [of "[''hello'', ''all'']"] by auto

section \<open>The dialogue\<close>

lemma send_all_ok:
  assumes "\<forall>w \<in> set ws. 0 < w" "length buf \<le> length ws"
  shows "\<exists>ws'. send_all ws buf = Some (buf, ws', True) \<and> set ws' \<subseteq> set ws \<and>
    length ws \<le> length ws' + length buf"
  using assms
proof (induction ws buf rule: send_all.induct)
  case (3 w ws c buf)
  have w: "0 < w" using 3 by simp
  then obtain m where m: "nat w = Suc m" by (cases "nat w") auto
  have "\<exists>ws'. send_all ws (drop (nat w) (c # buf)) = Some (drop (nat w) (c # buf), ws', True) \<and>
      set ws' \<subseteq> set ws \<and> length ws \<le> length ws' + length (drop (nat w) (c # buf))"
    using 3 w by (intro "3.IH") (auto simp: m)
  then obtain ws' where "send_all ws (drop (nat w) (c # buf)) = Some (drop (nat w) (c # buf), ws', True)"
      "set ws' \<subseteq> set ws" "length ws \<le> length ws' + length (drop (nat w) (c # buf))" by blast
  then show ?case using w m by (auto intro!: exI [of _ ws'])
qed auto

definition plain_chunk :: "string \<Rightarrow> string \<Rightarrow> bool" where
  "plain_chunk pat buf \<longleftrightarrow> buf \<noteq> [] \<and> CHR 0x00 \<notin> set buf \<and> strstr pat buf = None"

lemma wait_prompt_skip:
  assumes "\<forall>b \<in> set pre. plain_chunk (''.'' @ crlf) b"
    and "p \<noteq> []" "CHR 0x00 \<notin> set p" "strstr (''.'' @ crlf) p \<noteq> None"
  shows "wait_prompt (map Chunk pre @ Chunk p # rs) = Some rs"
  using assms by (induction pre) (auto simp: plain_chunk_def c_str_plain)

lemma copy_answer_until:
  assumes "\<forall>b \<in> set mid. plain_chunk (crlf @ ''.'') b" and "CHR 0x00 \<notin> set (a @ crlf @ ''.'' @ z)"
    and "strstr (crlf @ ''.'') (a @ crlf @ ''.'' @ z) = Some (crlf @ ''.'' @ z)"
  shows "copy_answer (map Chunk mid @ Chunk (a @ crlf @ ''.'' @ z) # rs) = (concat mid @ a @ [CHR 0x0A], True)"
  using assms(1)
proof (induction mid)
  case Nil
  have "c_str (a @ crlf @ ''.'' @ z) = a @ crlf @ ''.'' @ z" using assms(2) by (rule c_str_plain)
  then show ?case using assms(3) by (simp add: crlf_def)
next
  case (Cons b mid)
  then show ?case by (simp add: plain_chunk_def c_str_plain)
qed

text \<open>
  The dialogue: when some address can be connected to, \<open>write\<close> accepts at least one
  byte each time, the banner ends with a chunk that holds the prompt, and the answer is followed
  by the next prompt, the program sends an empty line and then the figlet command with the font
  and the text, prints exactly the answer and a newline, and succeeds.
\<close>

theorem telnet_session:
  assumes "telnet_font os ''standard'' = Some font" and "args \<noteq> []"
    and "length (spaced True args) < 4095" and "length font + length (spaced True args) < 8000"
    and "connect_first res \<noteq> -1"
    and "\<forall>w \<in> set ws. 0 < w" and "8192 \<le> length ws"
    and "\<forall>b \<in> set pre. plain_chunk (''.'' @ crlf) b"
    and "p \<noteq> []" and "CHR 0x00 \<notin> set p" and "strstr (''.'' @ crlf) p \<noteq> None"
    and "\<forall>b \<in> set mid. plain_chunk (crlf @ ''.'') b"
    and "CHR 0x00 \<notin> set (a @ crlf @ ''.'' @ z)"
    and "strstr (crlf @ ''.'') (a @ crlf @ ''.'' @ z) = Some (crlf @ ''.'' @ z)"
  shows "telnet_main os args (Some res) ws
      (map Chunk pre @ [Chunk p] @ map Chunk mid @ [Chunk (a @ crlf @ ''.'' @ z)] @ tail_rs) =
    Some (Inr \<lparr>t_sent = crlf @ figlet_cmd font (spaced True args),
      t_printed = concat mid @ a @ [CHR 0x0A], t_ok = True\<rparr>)"
proof -
  let ?text = "spaced True args" and ?cmd = "figlet_cmd font (spaced True args)"
  have built: "build_text args = Inr ?text"
    using add_arguments_fit [of "[]" True args] assms(3) by (auto simp: build_text_def sizes)
  have cmd: "length ?cmd < BUF_SIZE"
    using assms(4) by (simp add: figlet_cmd_def crlf_def sizes)
  obtain ws1 where w1: "send_all ws crlf = Some (crlf, ws1, True)" "set ws1 \<subseteq> set ws"
      "length ws \<le> length ws1 + length crlf"
    using send_all_ok [OF assms(6), of crlf] assms(7) by (auto simp: crlf_def)
  have "\<forall>w \<in> set ws1. 0 < w" using w1(2) assms(6) by blast
  moreover have "length ?cmd \<le> length ws1"
    using w1(3) assms(4,7) by (simp add: figlet_cmd_def crlf_def)
  ultimately obtain ws2 where w2: "send_all ws1 ?cmd = Some (?cmd, ws2, True)"
    using send_all_ok by blast
  show ?thesis
    using assms(1,2,5) built cmd w1(1) w2 wait_prompt_skip [OF assms(8-11)]
      copy_answer_until [OF assms(12-14), of tail_rs]
    by (simp add: telnet_main_def Let_def)
qed

lemma telnet_session_witness:
  "telnet_main [FontOpt ''slant''] [''hi'', ''all''] (Some [(-1, True), (5, False), (6, True)]) (replicate 9000 3)
     (map Chunk [''Welcome''] @ [Chunk (''.'' @ crlf)] @ map Chunk [''_/''] @
      [Chunk (''_/'' @ crlf @ ''.'' @ [])] @ []) =
   Some (Inr \<lparr>t_sent = crlf @ ''figlet /slant hi all'' @ crlf, t_printed = ''_/_/'' @ [CHR 0x0A], t_ok = True\<rparr>)"
proof -
  have "telnet_main [FontOpt ''slant''] [''hi'', ''all''] (Some [(-1, True), (5, False), (6, True)]) (replicate 9000 3)
     (map Chunk [''Welcome''] @ [Chunk (''.'' @ crlf)] @ map Chunk [''_/''] @
      [Chunk (''_/'' @ crlf @ ''.'' @ [])] @ []) =
    Some (Inr \<lparr>t_sent = crlf @ figlet_cmd ''slant'' (spaced True [''hi'', ''all'']),
      t_printed = concat [''_/''] @ ''_/'' @ [CHR 0x0A], t_ok = True\<rparr>)"
    by (rule telnet_session) (simp_all add: plain_chunk_def crlf_def strstr.simps)
  then show ?thesis by (simp add: figlet_cmd_def)
qed

text \<open>A prompt that arrives in two reads is not seen, and the program waits until the connection ends.\<close>

lemma split_prompt_missed:
  "wait_prompt [Chunk (''banner'' @ ''.''), Chunk crlf, Chunk []] = None"
  by (simp add: c_str_def crlf_def strstr.simps)

text \<open>With a long program name the usage message is written from beyond the end of its buffer.\<close>

lemma usage_overread: "length before + length prog + length after > 256 \<Longrightarrow> print_usage before after prog = Inl OutOfBounds"
  by (simp add: print_usage_def)

end
