(* ===== verification/Daemon.thy ===== *)
theory Daemon
  imports CString
begin

text \<open>
  The daemon 15_daemon that tells the size of a file: the configuration read from the events of the
  YAML parser, the PID file that keeps a second instance out, the server loop, and \<open>main\<close>. The
  parser and the results of system calls are given; allocations succeed, and file names hold no NUL.
\<close>

section \<open>The configuration\<close>

record config =
  file_path :: string
  socket_path :: string
  pid_path :: string

text \<open>What a call of \<open>yaml_parser_parse\<close> gives: an event or a failure.\<close>

datatype yaml_event = Scalar string | StreamEnd | OtherEvent | ParseError

text \<open>The pointers of the structure while it is filled, and the three flags.\<close>

record parse_state =
  ps_file :: "string option"
  ps_socket :: "string option"
  ps_pid :: "string option"
  in_file_path :: bool
  in_socket_path :: bool
  in_pid_path :: bool

definition parse_init :: parse_state where
  "parse_init = \<lparr>ps_file = None, ps_socket = None, ps_pid = None,
     in_file_path = False, in_socket_path = False, in_pid_path = False\<rparr>"

definition scalar_event :: "string \<Rightarrow> parse_state \<Rightarrow> parse_state" where
  "scalar_event v s =
     (if in_file_path s then s\<lparr>ps_file := Some (c_str v), in_file_path := False\<rparr>
      else if in_socket_path s then s\<lparr>ps_socket := Some (c_str v), in_socket_path := False\<rparr>
      else if in_pid_path s then s\<lparr>ps_pid := Some (c_str v), in_pid_path := False\<rparr>
      else if c_str v = ''file_path'' then s\<lparr>in_file_path := True\<rparr>
      else if c_str v = ''socket_path'' then s\<lparr>in_socket_path := True\<rparr>
      else if c_str v = ''pid_path'' then s\<lparr>in_pid_path := True\<rparr>
      else s)"

text \<open>The loop over the events; \<open>None\<close> is a parse error, and so is an end without \<open>StreamEnd\<close>.\<close>

fun parse_events :: "yaml_event list \<Rightarrow> parse_state \<Rightarrow> parse_state option" where
  "parse_events [] s = None"
| "parse_events (Scalar v # es) s = parse_events es (scalar_event v s)"
| "parse_events (StreamEnd # es) s = Some s"
| "parse_events (OtherEvent # es) s = parse_events es s"
| "parse_events (ParseError # es) s = None"

text \<open>\<open>load_config\<close> of a file that cannot be opened (\<open>None\<close>) or of its content.\<close>

definition load_config :: "(string \<Rightarrow> yaml_event list) \<Rightarrow> string option \<Rightarrow> config option" where
  "load_config yaml fh =
     (case fh of
        None \<Rightarrow> None
      | Some content \<Rightarrow>
          (case parse_events (yaml content) parse_init of
             None \<Rightarrow> None
           | Some s \<Rightarrow>
               (case (ps_file s, ps_socket s, ps_pid s) of
                  (Some f, Some so, Some p) \<Rightarrow> Some \<lparr>file_path = f, socket_path = so, pid_path = p\<rparr>
                | _ \<Rightarrow> None)))"

section \<open>Files\<close>

text \<open>The files by absolute name, with their contents, and the working directory.\<close>

record world =
  w_files :: "string \<Rightarrow> string option"
  w_cwd :: string

definition resolve :: "string \<Rightarrow> string \<Rightarrow> string" where
  "resolve cwd p =
     (if p \<noteq> [] \<and> hd p = CHR ''/'' then p
      else if cwd = ''/'' then ''/'' @ p else cwd @ ''/'' @ p)"

definition fopen_r :: "world \<Rightarrow> string \<Rightarrow> string option" where
  "fopen_r w p = w_files w (resolve (w_cwd w) p)"

definition set_file :: "world \<Rightarrow> string \<Rightarrow> string option \<Rightarrow> world" where
  "set_file w p c = w\<lparr>w_files := (w_files w)(resolve (w_cwd w) p := c)\<rparr>"

abbreviation unlink :: "world \<Rightarrow> string \<Rightarrow> world" where
  "unlink w p \<equiv> set_file w p None"

section \<open>The PID file\<close>

datatype kill_result = Alive | NoProcess | KillError

text \<open>\<open>check_pid_file\<close>: whether the start may go on, and the files after it.\<close>

definition check_pid_file :: "(int \<Rightarrow> kill_result) \<Rightarrow> world \<Rightarrow> string \<Rightarrow> bool \<times> world" where
  "check_pid_file kill w path =
     (case fopen_r w path of
        None \<Rightarrow> (True, w)
      | Some content \<Rightarrow>
          (case fgets 32 content of
             None \<Rightarrow> (True, w)
           | Some (buf, _) \<Rightarrow>
               (case strtol10 buf of
                  (pid_long, endptr) \<Rightarrow>
                    if strtol_erange buf \<or> endptr = buf
                       \<or> (endptr \<noteq> [] \<and> hd endptr \<noteq> CHR 0x0A)
                       \<or> pid_long \<le> 0 \<or> pid_long > 2 ^ 31 - 1
                    then (False, w)
                    else
                      (case kill pid_long of
                         Alive \<Rightarrow> (False, w)
                       | NoProcess \<Rightarrow> (True, unlink w path)
                       | KillError \<Rightarrow> (False, w)))))"

section \<open>The server\<close>

text \<open>What \<open>stat\<close> answers: a size, or the text of the error.\<close>

datatype stat_result = Size int | StatError string

text \<open>
  One round of the loop: a client is accepted and the reply sent, the client has gone and \<open>send\<close>
  raises \<open>SIGPIPE\<close> (no handler is set for it), or \<open>accept\<close> fails. With each the signals that arrive
  in the round: whether \<open>SIGINT\<close> or \<open>SIGTERM\<close> does.
\<close>

datatype accepted = Client stat_result | GoneClient stat_result | AcceptFails

datatype serving = Stopped "string list" | BrokenPipe "string list"

fun response :: "stat_result \<Rightarrow> string" where
  "response (Size n) = take 255 (dec_int n @ [CHR 0x0A])"
| "response (StatError e) = take 255 (''error: '' @ e @ [CHR 0x0A])"

definition reply_first :: "string \<Rightarrow> serving option \<Rightarrow> serving option" where
  "reply_first r = map_option (\<lambda>s. case s of Stopped rs \<Rightarrow> Stopped (r # rs) | BrokenPipe rs \<Rightarrow> BrokenPipe (r # rs))"

text \<open>The loop; \<open>None\<close> when it waits for the next client for ever.\<close>

fun serve :: "bool \<Rightarrow> (accepted \<times> bool) list \<Rightarrow> serving option" where
  "serve False es = Some (Stopped [])"
| "serve True [] = None"
| "serve True ((Client st, sig) # es) = reply_first (response st) (serve (\<not> sig) es)"
| "serve True ((GoneClient st, sig) # es) = Some (BrokenPipe [])"
| "serve True ((AcceptFails, sig) # es) = serve (\<not> sig) es"

text \<open>The results of the system calls.\<close>

record sys =
  fork1 :: int
  setsid_ok :: bool
  fork2 :: int
  chdir_ok :: bool
  kill_res :: "int \<Rightarrow> kill_result"
  getpid :: nat
  pid_file_ok :: bool
  socket_ok :: bool
  bind_ok :: bool
  listen_ok :: bool
  early_signal :: bool
  accepts :: "(accepted \<times> bool) list"

text \<open>
  How \<open>run_server\<close> ends: with an error and \<open>cleanup_socket\<close> not registered; with 0, when it is
  registered and the path it holds is freed; or the process is killed. With the replies.
\<close>

datatype server_end = ServerError | ServerStopped "string list" | ServerKilled "string list"

definition run_server :: "sys \<Rightarrow> config \<Rightarrow> world \<Rightarrow> (server_end \<times> world) option" where
  "run_server sy cfg w =
     (if \<not> socket_ok sy then Some (ServerError, w)
      else
        let w = unlink w (socket_path cfg) in
        if \<not> bind_ok sy then Some (ServerError, w)
        else
          let w = set_file w (take 107 (socket_path cfg)) (Some []) in
          if \<not> listen_ok sy then Some (ServerError, unlink w (socket_path cfg))
          else map_option (\<lambda>s. case s of
                 Stopped rs \<Rightarrow> (ServerStopped rs, unlink w (socket_path cfg))
               | BrokenPipe rs \<Rightarrow> (ServerKilled rs, w))
             (serve (\<not> early_signal sy) (accepts sy)))"

section \<open>The program\<close>

datatype options = Go bool "string option" | Quit bool

fun daemon_opts :: "(char \<times> string option) list \<Rightarrow> bool \<Rightarrow> string option \<Rightarrow> options" where
  "daemon_opts [] d cf = Go d cf"
| "daemon_opts ((c, optarg) # os) d cf =
     (if c = CHR ''d'' then daemon_opts os True cf
      else if c = CHR ''c'' then daemon_opts os d optarg
      else if c = CHR ''h'' then Quit True
      else Quit False)"

text \<open>\<open>daemonize\<close>: the exit status of this process, or nothing in the process that goes on.\<close>

definition daemonize :: "sys \<Rightarrow> bool option" where
  "daemonize sy =
     (if fork1 sy < 0 then Some False
      else if fork1 sy > 0 then Some True
      else if \<not> setsid_ok sy then Some False
      else if fork2 sy < 0 then Some False
      else if fork2 sy > 0 then Some True
      else if \<not> chdir_ok sy then Some False
      else None)"

text \<open>\<open>create_pid_file\<close>, unless \<open>fopen\<close> fails; \<open>remove_pid_file\<close> runs at the exit after it.\<close>

definition create_pid_file :: "sys \<Rightarrow> string \<Rightarrow> world \<Rightarrow> world option" where
  "create_pid_file sy path w =
     (if \<not> pid_file_ok sy then None else Some (set_file w path (Some (dec (getpid sy) @ [CHR 0x0A]))))"

definition remove_pid_file :: "string \<Rightarrow> world \<Rightarrow> world" where
  "remove_pid_file pid_path_global w = unlink w pid_path_global"

declare create_pid_file_def [simp] remove_pid_file_def [simp]

text \<open>\<open>main\<close> up to the server: an exit with its status, or the configuration in use.\<close>

datatype started = Exited bool | Started config

definition start_daemon ::
  "(string \<Rightarrow> yaml_event list) \<Rightarrow> sys \<Rightarrow> string list \<Rightarrow> world \<Rightarrow> (started \<times> world) cres" where
  "start_daemon yaml sy argv w =
     (case daemon_opts (getopt_all ''dch:'' [] argv) False (Some ''config.yaml'') of
        Quit ok \<Rightarrow> Inr (Exited ok, w)
      | Go d None \<Rightarrow> Inl NullDeref
      | Go d (Some config_file) \<Rightarrow>
          (case load_config yaml (fopen_r w config_file) of
             None \<Rightarrow> Inr (Exited False, w)
           | Some cfg \<Rightarrow>
               (case check_pid_file (kill_res sy) w (pid_path cfg) of
                  (False, w) \<Rightarrow> Inr (Exited False, w)
                | (True, w) \<Rightarrow>
                    (case (if d then daemonize sy else None) of
                       Some ok \<Rightarrow> Inr (Exited ok, w)
                     | None \<Rightarrow>
                         let w = (if d then w\<lparr>w_cwd := ''/''\<rparr> else w) in
                         (case create_pid_file sy (pid_path cfg) w of
                            None \<Rightarrow> Inr (Exited False, w)
                          | Some w \<Rightarrow> Inr (Started cfg, w))))))"

text \<open>
  The whole of \<open>main\<close>. On \<open>exit\<close> the handlers run, the last registered first: \<open>cleanup_socket\<close>
  reads the path that \<open>run_server\<close> freed, then \<open>remove_pid_file\<close>. A signal that kills runs none.
\<close>

datatype ending = Exit bool | Killed

definition daemon_main ::
  "(string \<Rightarrow> yaml_event list) \<Rightarrow> sys \<Rightarrow> string list \<Rightarrow> world \<Rightarrow> (ending \<times> world) run" where
  "daemon_main yaml sy argv w =
     bindR (Some (start_daemon yaml sy argv w)) (\<lambda>(st, w).
       case st of
         Exited ok \<Rightarrow> Some (Inr (Exit ok, w))
       | Started cfg \<Rightarrow>
           (case run_server sy cfg w of
              None \<Rightarrow> None
            | Some (ServerError, w) \<Rightarrow> Some (Inr (Exit False, remove_pid_file (pid_path cfg) w))
            | Some (ServerStopped rs, w) \<Rightarrow> Some (Inl UseAfterFree)
            | Some (ServerKilled rs, w) \<Rightarrow> Some (Inr (Killed, w))))"

section \<open>Loading a flat mapping\<close>


text \<open>The events of a document that is one mapping from scalars to scalars.\<close>

definition flat_events :: "(string \<times> string) list \<Rightarrow> yaml_event list" where
  "flat_events kvs =
     [OtherEvent, OtherEvent, OtherEvent] @ concat (map (\<lambda>(k, v). [Scalar k, Scalar v]) kvs)
     @ [OtherEvent, OtherEvent, StreamEnd]"







text \<open>A value that is named like a key is taken for the key, and the next scalar for its value.\<close>

lemma value_taken_for_key:
  "load_config (\<lambda>_. flat_events [(''note'', ''pid_path''), (''file_path'', ''/f''),
      (''socket_path'', ''/s''), (''pid_path'', ''/p'')]) (Some ''yaml'') = None"
  by (simp add: load_config_def flat_events_def parse_init_def scalar_event_def c_str_def)

section \<open>The PID file keeps a second instance out\<close>

lemma check_written_pid:
  assumes "0 < pid" and "pid < 2 ^ 31"
    and "fopen_r w path = Some (dec pid @ [CHR 0x0A])"
  shows "check_pid_file kill w path =
    (case kill (int pid) of Alive \<Rightarrow> (False, w) | NoProcess \<Rightarrow> (True, unlink w path) | KillError \<Rightarrow> (False, w))"
proof -
  let ?nl = "[CHR 0x0A] :: string"
  have small: "pid < 10 ^ 10" "pid < 2 ^ 63" using assms(2) by simp_all
  have len: "length (dec pid) \<le> 10" using length_dec [OF small(1)] by simp
  have digits: "list_all is_digit (dec pid)" by (rule dec_digits)
  then have chars: "CHR 0x0A \<notin> set (dec pid)" "CHR 0x00 \<notin> set (dec pid @ ?nl)"
    by (auto simp: list_all_iff is_digit_def)
  have line: "fgets 32 (dec pid @ ?nl) = Some (dec pid @ ?nl, [])"
    using fgets_split_line [OF chars(1), of 31 "[]"] len c_str_plain [OF chars(2)] dec_ne [of pid]
    by (simp add: fgets_def)
  have rest: "?nl = [] \<or> \<not> is_digit (hd ?nl)" by (simp add: is_digit_def)
  have "int pid \<le> 2 ^ 31 - 1" using assms(2) by simp
  then show ?thesis
    using assms(1,3) line strtol10_dec [OF small(2) rest] strtol_erange_dec [OF small(2) rest] dec_ne [of pid]
    by (simp add: check_pid_file_def)
qed

lemma start_daemon_Started:
  assumes "start_daemon yaml sy argv w = Inr (Started cfg, w')"
  shows "fopen_r w' (pid_path cfg) = Some (dec (getpid sy) @ [CHR 0x0A])"
proof -
  have written: "fopen_r (set_file v p (Some c)) p = Some c" for v p c
    by (simp add: fopen_r_def set_file_def)
  show ?thesis
    using assms written
    by (auto simp: start_daemon_def Let_def split: options.splits option.splits prod.splits bool.splits if_splits)
qed

text \<open>
  Property C28. Once an instance has started, a second one, with options of its own and a
  configuration that names the same PID file, exits with a failure and leaves every file as it is
  for as long as the first process lives. The PID written is read back as it was written.
\<close>

theorem second_instance_refused:
  assumes "start_daemon yaml sy argv w = Inr (Started cfg, w1)"
    and "0 < getpid sy" and "getpid sy < 2 ^ 31"
    and "daemon_opts (getopt_all ''dch:'' [] argv2) False (Some ''config.yaml'') = Go d2 (Some file2)"
    and "load_config yaml (fopen_r (w1\<lparr>w_cwd := cwd\<rparr>) file2) = Some cfg2"
    and "resolve cwd (pid_path cfg2) = resolve (w_cwd w1) (pid_path cfg)"
    and "kill_res sy2 (int (getpid sy)) = Alive"
  shows "start_daemon yaml sy2 argv2 (w1\<lparr>w_cwd := cwd\<rparr>) = Inr (Exited False, w1\<lparr>w_cwd := cwd\<rparr>)"
proof -
  have "fopen_r (w1\<lparr>w_cwd := cwd\<rparr>) (pid_path cfg2) = Some (dec (getpid sy) @ [CHR 0x0A])"
    using start_daemon_Started [OF assms(1)] assms(6) by (simp add: fopen_r_def)
  then show ?thesis
    using check_written_pid [OF assms(2,3)] assms(4,5,7) by (simp add: start_daemon_def)
qed

definition sys_a :: sys where
  "sys_a = \<lparr>fork1 = 0, setsid_ok = True, fork2 = 0, chdir_ok = True, kill_res = (\<lambda>_. Alive), getpid = 7,
     pid_file_ok = True, socket_ok = True, bind_ok = True, listen_ok = True, early_signal = False,
     accepts = []\<rparr>"

definition yaml_a :: "string \<Rightarrow> string \<Rightarrow> yaml_event list" where
  "yaml_a p _ = flat_events [(''file_path'', ''/f''), (''socket_path'', ''/s''), (''pid_path'', p)]"

definition world_a :: world where
  "world_a = \<lparr>w_files = [''/home/config.yaml'' \<mapsto> ''yaml''], w_cwd = ''/home''\<rparr>"

lemma load_a: "load_config (yaml_a p) (Some c) =
    Some \<lparr>file_path = ''/f'', socket_path = ''/s'', pid_path = c_str p\<rparr>"
  by (simp add: load_config_def yaml_a_def flat_events_def parse_init_def scalar_event_def c_str_def)

lemma started_a:
  "start_daemon (yaml_a ''/p'') sys_a [''-d''] world_a =
    Inr (Started \<lparr>file_path = ''/f'', socket_path = ''/s'', pid_path = ''/p''\<rparr>,
      \<lparr>w_files = [''/home/config.yaml'' \<mapsto> ''yaml'', ''/p'' \<mapsto> dec 7 @ [CHR 0x0A]], w_cwd = ''/''\<rparr>)"
  by (simp add: start_daemon_def load_a fopen_r_def world_a_def resolve_def check_pid_file_def daemonize_def
      sys_a_def set_file_def c_str_def)

lemma second_instance_refused_witness:
  "start_daemon (yaml_a ''/p'') sys_a []
      (\<lparr>w_files = [''/home/config.yaml'' \<mapsto> ''yaml'', ''/p'' \<mapsto> dec 7 @ [CHR 0x0A]], w_cwd = ''/''\<rparr>\<lparr>w_cwd := ''/home''\<rparr>) =
    Inr (Exited False,
      \<lparr>w_files = [''/home/config.yaml'' \<mapsto> ''yaml'', ''/p'' \<mapsto> dec 7 @ [CHR 0x0A]], w_cwd = ''/''\<rparr>\<lparr>w_cwd := ''/home''\<rparr>)"
  by (rule second_instance_refused [OF started_a, where ?d2.0 = False and ?file2.0 = "''config.yaml''" and
        ?cfg2.0 = "\<lparr>file_path = ''/f'', socket_path = ''/s'', pid_path = ''/p''\<rparr>"])
    (simp_all add: load_a fopen_r_def resolve_def sys_a_def c_str_def)

text \<open>
  With a relative PID path a daemonized instance writes the file in the root directory, and a
  second one looks for it in the directory it is started from: both run.
\<close>

lemma relative_pid_path_not_seen:
  "case start_daemon (yaml_a ''p'') sys_a [''-d''] world_a of
     Inr (Started cfg, w1) \<Rightarrow>
       (case start_daemon (yaml_a ''p'') sys_a [''-d''] (w1\<lparr>w_cwd := ''/home''\<rparr>) of
          Inr (Started _, _) \<Rightarrow> True | _ \<Rightarrow> False)
   | _ \<Rightarrow> False"
  by (simp add: start_daemon_def load_a fopen_r_def world_a_def resolve_def check_pid_file_def daemonize_def
      sys_a_def set_file_def c_str_def)

section \<open>The server answers\<close>

text \<open>The clients served in a sequence of rounds, and a round after which the loop goes on.\<close>

definition asked :: "(accepted \<times> bool) list \<Rightarrow> stat_result list" where
  "asked es = concat (map (\<lambda>(a, _). case a of Client st \<Rightarrow> [st] | _ \<Rightarrow> []) es)"

definition stays :: "accepted \<Rightarrow> bool" where
  "stays a \<longleftrightarrow> (case a of GoneClient _ \<Rightarrow> False | _ \<Rightarrow> True)"

lemma serve_until_signal:
  assumes "\<forall>(b, sig) \<in> set es. stays b \<and> \<not> sig" and "stays a"
  shows "serve True (es @ (a, True) # later) = Some (Stopped (map response (asked (es @ [(a, True)]))))"
  using assms(1)
proof (induction es)
  case Nil
  then show ?case using assms(2) by (cases a) (simp_all add: asked_def stays_def reply_first_def)
next
  case (Cons e es)
  obtain b where e: "e = (b, False)" "stays b" using Cons.prems by (cases e) auto
  then show ?case using Cons by (cases b) (simp_all add: asked_def stays_def reply_first_def)
qed

lemma response_size:
  assumes "0 \<le> n" "n < 2 ^ 63"
  shows "strtol10 (response (Size n)) = (n, [CHR 0x0A])"
proof -
  have "nat n < 10 ^ 19" using assms by (simp add: nat_less_iff)
  then have "length (dec_int n) \<le> 19" using assms length_dec [of "nat n" 19] by (simp add: dec_int_def)
  then have "response (Size n) = dec_int n @ [CHR 0x0A]" by simp
  then show ?thesis using strtol10_dec_int [OF assms, of "[CHR 0x0A]"] by (simp add: is_digit_def)
qed

text \<open>
  Until a signal arrives, and while no client leaves before its answer, each accepted
  client gets the answer of \<open>stat\<close> in the order of acceptance, failures of \<open>accept\<close> change
  nothing, a size reads back as the size, and when the loop stops the socket file is gone.
\<close>

theorem clients_get_sizes:
  assumes "socket_ok sy" "bind_ok sy" "listen_ok sy" "\<not> early_signal sy"
    and "accepts sy = es @ (a, True) # later"
    and "\<forall>(b, sig) \<in> set es. stays b \<and> \<not> sig" and "stays a"
    and "length (socket_path cfg) \<le> 107"
  shows "run_server sy cfg w =
      Some (ServerStopped (map response (asked (es @ [(a, True)]))), unlink w (socket_path cfg)) \<and>
    (\<forall>n. 0 \<le> n \<longrightarrow> n < 2 ^ 63 \<longrightarrow> strtol10 (response (Size n)) = (n, [CHR 0x0A]))"
proof -
  have "unlink (set_file (unlink w p) p (Some [])) p = unlink w p" for p
    by (simp add: set_file_def)
  then show ?thesis
    using assms serve_until_signal [OF assms(6,7), of later] response_size
    by (simp add: run_server_def)
qed

lemma clients_get_sizes_witness:
  "run_server (sys_a\<lparr>accepts := [(Client (Size 35), False), (AcceptFails, False),
        (Client (StatError ''No such file or directory''), False)] @ (AcceptFails, True) # []\<rparr>)
      \<lparr>file_path = ''/f'', socket_path = ''/s'', pid_path = ''/p''\<rparr> world_a =
    Some (ServerStopped [''35'' @ [CHR 0x0A], ''error: No such file or directory'' @ [CHR 0x0A]],
      unlink world_a ''/s'')"
proof -
  have "run_server (sys_a\<lparr>accepts := [(Client (Size 35), False), (AcceptFails, False),
        (Client (StatError ''No such file or directory''), False)] @ (AcceptFails, True) # []\<rparr>)
      \<lparr>file_path = ''/f'', socket_path = ''/s'', pid_path = ''/p''\<rparr> world_a =
    Some (ServerStopped (map response (asked ([(Client (Size 35), False), (AcceptFails, False),
        (Client (StatError ''No such file or directory''), False)] @ [(AcceptFails, True)]))), unlink world_a ''/s'')"
    using clients_get_sizes [of "sys_a\<lparr>accepts := [(Client (Size 35), False), (AcceptFails, False),
        (Client (StatError ''No such file or directory''), False)] @ (AcceptFails, True) # []\<rparr>"
      "[(Client (Size 35), False), (AcceptFails, False), (Client (StatError ''No such file or directory''), False)]"
      AcceptFails "[]" "\<lparr>file_path = ''/f'', socket_path = ''/s'', pid_path = ''/p''\<rparr>" world_a]
    by (simp add: sys_a_def stays_def)
  moreover have "char_of (51 :: nat) = CHR ''3''" "char_of (53 :: nat) = CHR ''5''" by code_simp+
  ultimately show ?thesis by (simp add: asked_def dec_int_def dec.simps)
qed

section \<open>What goes wrong\<close>

text \<open>Every orderly stop uses the path after it is freed.\<close>

lemma stop_uses_freed_path:
  assumes "start_daemon yaml sy argv w = Inr (Started cfg, w1)"
    and "run_server sy cfg w1 = Some (ServerStopped rs, w2)"
  shows "daemon_main yaml sy argv w = Some (Inl UseAfterFree)"
  using assms by (simp add: daemon_main_def)

text \<open>A client that has closed before its answer kills the daemon, and the PID file stays.\<close>

lemma gone_client_kills:
  "daemon_main (yaml_a ''/p'') (sys_a\<lparr>accepts := [(GoneClient (Size 35), False)]\<rparr>) [] world_a =
    Some (Inr (Killed, \<lparr>w_files = [''/home/config.yaml'' \<mapsto> ''yaml'', ''/p'' \<mapsto> dec 7 @ [CHR 0x0A], ''/s'' \<mapsto> []],
      w_cwd = ''/home''\<rparr>))"
  by (simp add: daemon_main_def start_daemon_def load_a fopen_r_def world_a_def resolve_def
      check_pid_file_def sys_a_def set_file_def c_str_def run_server_def fun_upd_twist)

text \<open>
  The option string is \<open>dch:\<close>: \<open>-c\<close> takes no argument, its null pointer goes to \<open>fopen\<close>, and
  \<open>-h\<close> alone lacks one.
\<close>

lemma config_option_null:
  "hd filename \<noteq> CHR ''-'' \<Longrightarrow> start_daemon yaml sy [''-c'', filename] w = Inl NullDeref"
  "start_daemon yaml sy [''-h''] w = Inr (Exited False, w)"
  by (auto simp: start_daemon_def)

end
