(* ===== verification/Double.thy ===== *)
theory Double
  imports Complex_Main Prelude
begin

text \<open>
  The type \<open>double\<close> of C: IEEE 754 binary64 with rounding to nearest, ties to even, as executable
  operations on sign, mantissa and exponent. Every operation computes the exact rational result and
  rounds it once. The lemmas give the value of a number as a real, the error of a rounding, and
  the signs of results. Functions of the mathematical library are not defined here.
\<close>

section \<open>Numbers\<close>

text \<open>
  \<open>Fin s m e\<close> is \<open>m * 2 ^ e\<close>, negative when \<open>s\<close>. A number is in normal form: \<open>m < 2 ^ 53\<close>,
  \<open>-1074 \<le> e \<le> 971\<close>, and \<open>2 ^ 52 \<le> m\<close> unless \<open>e = -1074\<close>.
\<close>

datatype double = NaN | Infty bool | Fin bool int int

fun normal :: "double \<Rightarrow> bool" where
  "normal (Fin s m e) \<longleftrightarrow> 0 \<le> m \<and> m < 2 ^ 53 \<and> -1074 \<le> e \<and> e \<le> 971 \<and> (2 ^ 52 \<le> m \<or> e = -1074)"
| "normal _ \<longleftrightarrow> True"

section \<open>Rounding\<close>

text \<open>Mantissas and the fractions to round are not negative; the sign is kept apart.\<close>

function bit_len :: "int \<Rightarrow> int" where
  "bit_len n = (if n \<le> 0 then 0 else 1 + bit_len (n div 2))"
  by auto
termination by (relation "measure nat") auto

declare bit_len.simps [simp del]

text \<open>The fraction \<open>n / d / 2 ^ e\<close>.\<close>

definition scale2 :: "int \<Rightarrow> int \<Rightarrow> int \<Rightarrow> int \<times> int" where
  "scale2 n d e = (if 0 \<le> e then (n, d * 2 ^ nat e) else (n * 2 ^ nat (- e), d))"

text \<open>The exponent at which \<open>n / d\<close> is rounded: 53 bits are left before the binary point.\<close>

definition round_exp :: "int \<Rightarrow> int \<Rightarrow> int" where
  "round_exp n d =
     (let e = bit_len n - bit_len d - 53
      in max (-1074) (case scale2 n d e of (a, b) \<Rightarrow> if 2 ^ 53 * b \<le> a then e + 1 else e))"

text \<open>The integer nearest to \<open>a / b\<close>, the even one on a tie.\<close>

definition nearest :: "int \<Rightarrow> int \<Rightarrow> int" where
  "nearest a b =
     (let q = a div b; r = a mod b in if b < 2 * r \<or> (2 * r = b \<and> odd q) then q + 1 else q)"

text \<open>\<open>n / d\<close> rounded, with the sign \<open>s\<close>.\<close>

definition rounded :: "bool \<Rightarrow> int \<Rightarrow> int \<Rightarrow> double" where
  "rounded s n d =
     (if n = 0 then Fin s 0 (-1074)
      else let e = round_exp n d;
               q = (case scale2 n d e of (a, b) \<Rightarrow> nearest a b)
           in if q = 2 ^ 53 then (if 970 < e then Infty s else Fin s (2 ^ 52) (e + 1))
              else if 971 < e then Infty s else Fin s q e)"

text \<open>\<open>n / d * 2 ^ e\<close> rounded.\<close>

definition rounded2 :: "bool \<Rightarrow> int \<Rightarrow> int \<Rightarrow> int \<Rightarrow> double" where
  "rounded2 s n d e = (case scale2 n d (- e) of (a, b) \<Rightarrow> rounded s a b)"

section \<open>Operations\<close>

definition with_sign :: "bool \<Rightarrow> int \<Rightarrow> int" where
  "with_sign s m = (if s then - m else m)"

text \<open>An exponent at which both numbers are integers; that of a zero does not matter.\<close>

definition common :: "int \<Rightarrow> int \<Rightarrow> int \<Rightarrow> int \<Rightarrow> int" where
  "common m e n f = (if m = 0 then f else if n = 0 then e else min e f)"

instantiation double :: "{zero, one, plus, minus, uminus, times, inverse, ord}"
begin

definition zero_double :: double where "0 = Fin False 0 (-1074)"

definition one_double :: double where "1 = Fin False (2 ^ 52) (-52)"

fun uminus_double :: "double \<Rightarrow> double" where
  "- NaN = NaN"
| "- Infty s = Infty (\<not> s)"
| "- Fin s m e = Fin (\<not> s) m e"

fun plus_double :: "double \<Rightarrow> double \<Rightarrow> double" where
  "NaN + y = NaN"
| "Infty s + NaN = NaN"
| "Infty s + Infty t = (if s = t then Infty s else NaN)"
| "Infty s + Fin t m e = Infty s"
| "Fin s m e + NaN = NaN"
| "Fin s m e + Infty t = Infty t"
| "Fin s m e + Fin t n f =
     (let k = common m e n f;
          z = with_sign s m * 2 ^ nat (e - k) + with_sign t n * 2 ^ nat (f - k)
      in if z = 0 then Fin (s \<and> t) 0 (-1074) else rounded2 (z < 0) \<bar>z\<bar> 1 k)"

definition minus_double :: "double \<Rightarrow> double \<Rightarrow> double" where
  "x - y = x + - (y :: double)"

fun times_double :: "double \<Rightarrow> double \<Rightarrow> double" where
  "NaN * y = NaN"
| "Infty s * NaN = NaN"
| "Infty s * Infty t = Infty (s \<noteq> t)"
| "Infty s * Fin t m e = (if m = 0 then NaN else Infty (s \<noteq> t))"
| "Fin s m e * NaN = NaN"
| "Fin s m e * Infty t = (if m = 0 then NaN else Infty (s \<noteq> t))"
| "Fin s m e * Fin t n f = rounded2 (s \<noteq> t) (m * n) 1 (e + f)"

fun divide_double :: "double \<Rightarrow> double \<Rightarrow> double" where
  "divide NaN y = (NaN :: double)"
| "divide (Infty s) NaN = NaN"
| "divide (Infty s) (Infty t) = NaN"
| "divide (Infty s) (Fin t m e) = Infty (s \<noteq> t)"
| "divide (Fin s m e) NaN = NaN"
| "divide (Fin s m e) (Infty t) = Fin (s \<noteq> t) 0 (-1074)"
| "divide (Fin s m e) (Fin t n f) =
     (if n = 0 then (if m = 0 then NaN else Infty (s \<noteq> t))
      else rounded2 (s \<noteq> t) m n (e - f))"

definition inverse_double :: "double \<Rightarrow> double" where
  "inverse x = divide 1 (x :: double)"

text \<open>Comparisons are those of the values; \<open>NaN\<close> compares with nothing.\<close>

fun less_double :: "double \<Rightarrow> double \<Rightarrow> bool" where
  "NaN < y \<longleftrightarrow> False"
| "Infty s < NaN \<longleftrightarrow> False"
| "Infty s < Infty t \<longleftrightarrow> s \<and> \<not> t"
| "Infty s < Fin t m e \<longleftrightarrow> s"
| "Fin s m e < NaN \<longleftrightarrow> False"
| "Fin s m e < Infty t \<longleftrightarrow> \<not> t"
| "Fin s m e < Fin t n f \<longleftrightarrow>
     (let k = common m e n f in with_sign s m * 2 ^ nat (e - k) < with_sign t n * 2 ^ nat (f - k))"

fun less_eq_double :: "double \<Rightarrow> double \<Rightarrow> bool" where
  "NaN \<le> y \<longleftrightarrow> False"
| "Infty s \<le> NaN \<longleftrightarrow> False"
| "Infty s \<le> Infty t \<longleftrightarrow> s \<or> \<not> t"
| "Infty s \<le> Fin t m e \<longleftrightarrow> s"
| "Fin s m e \<le> NaN \<longleftrightarrow> False"
| "Fin s m e \<le> Infty t \<longleftrightarrow> \<not> t"
| "Fin s m e \<le> Fin t n f \<longleftrightarrow>
     (let k = common m e n f in with_sign s m * 2 ^ nat (e - k) \<le> with_sign t n * 2 ^ nat (f - k))"

instance ..

end

text \<open>A decimal constant \<open>n / d\<close>, and the conversion of a count.\<close>

definition d_lit :: "int \<Rightarrow> int \<Rightarrow> double" where "d_lit n d = rounded False n d"

text \<open>The conversion to an \<open>int\<close> of 32 bits after \<open>ceil\<close> or \<open>floor\<close>; outside the range C defines nothing.\<close>

definition fits_int :: "int \<Rightarrow> int option" where
  "fits_int z = (if - (2 ^ 31) \<le> z \<and> z < 2 ^ 31 then Some z else None)"

fun floor_of :: "double \<Rightarrow> int option" where
  "floor_of (Fin s m e) = Some (if 0 \<le> e then with_sign s m * 2 ^ nat e else with_sign s m div 2 ^ nat (- e))"
| "floor_of _ = None"

definition d_floor :: "double \<Rightarrow> int option" where
  "d_floor x = Option.bind (floor_of x) fits_int"

definition d_ceil :: "double \<Rightarrow> int option" where
  "d_ceil x = Option.bind (floor_of (- x)) (\<lambda>z. fits_int (- z))"

section \<open>Values\<close>

fun val :: "double \<Rightarrow> real" where
  "val (Fin s m e) = of_int (with_sign s m) * 2 powi e"
| "val _ = 0"

text \<open>The exact fraction that a rounding starts from.\<close>

abbreviation ratio :: "int \<Rightarrow> int \<Rightarrow> real" where
  "ratio n d \<equiv> of_int n / of_int d"

lemma powi_split: "2 powi (i + j) = (2 :: real) powi i * 2 powi j"
  by (simp add: power_int_add)

lemma powi_nat: "0 \<le> i \<Longrightarrow> (2 :: real) powi i = 2 ^ nat i"
  by (simp add: power_int_def)

lemma powi_pos [simp]: "0 < (2 :: real) powi i"
  by simp

lemma powi_le: "i \<le> j \<Longrightarrow> (2 :: real) powi i \<le> 2 powi j"
  by (simp add: power_int_increasing)

lemma powi_le_iff: "(2 :: real) powi i \<le> 2 powi j \<longleftrightarrow> i \<le> j"
  using power_int_strict_increasing [of j i "2 :: real"] powi_le [of i j] by (cases "i \<le> j") simp_all

lemma scale2_frac:
  assumes "0 < d" and "scale2 n d e = (a, b)"
  shows "0 < b" "ratio a b = ratio n d / 2 powi e" "0 \<le> n \<Longrightarrow> 0 \<le> a" "0 < n \<Longrightarrow> 0 < a"
proof -
  show "0 < b" "0 \<le> n \<Longrightarrow> 0 \<le> a" "0 < n \<Longrightarrow> 0 < a"
    using assms by (auto simp: scale2_def split: if_splits)
  show "ratio a b = ratio n d / 2 powi e"
  proof (cases "0 \<le> e")
    case True
    then have "a = n" "b = d * 2 ^ nat e" using assms by (simp_all add: scale2_def)
    then show ?thesis unfolding powi_nat [OF True] by simp
  next
    case False
    then have e: "(2 :: real) powi e = inverse (2 ^ nat (- e))" by (simp add: power_int_def power_one_over inverse_eq_divide)
    have "a = n * 2 ^ nat (- e)" "b = d" using assms False by (simp_all add: scale2_def)
    then show ?thesis unfolding e by (simp add: divide_inverse)
  qed
qed

lemma bit_len_bounds:
  "0 < n \<Longrightarrow> 1 \<le> bit_len n \<and> (2 :: real) powi (bit_len n - 1) \<le> of_int n \<and> of_int n < (2 :: real) powi bit_len n"
proof (induction n rule: bit_len.induct)
  case (1 n)
  show ?case
  proof (cases "n = 1")
    case True
    then show ?thesis by (simp add: bit_len.simps)
  next
    case False
    let ?h = "n div 2"
    have h: "0 < ?h" using 1(2) False by linarith
    have len: "bit_len n = 1 + bit_len ?h" using 1(2) by (subst bit_len.simps) simp
    have ih: "1 \<le> bit_len ?h" "(2 :: real) powi (bit_len ?h - 1) \<le> of_int ?h" "of_int ?h < (2 :: real) powi bit_len ?h"
      using 1 h by auto
    have "of_int ?h < (of_int (2 ^ nat (bit_len ?h)) :: real)" using ih(1,3) by (simp add: powi_nat)
    then have "?h < 2 ^ nat (bit_len ?h)" by (rule of_int_less_iff [THEN iffD1])
    then have "n < 2 * 2 ^ nat (bit_len ?h)" by linarith
    then have "of_int n < (of_int (2 * 2 ^ nat (bit_len ?h)) :: real)" by (simp only: of_int_less_iff)
    then have up: "of_int n < (2 :: real) powi (1 + bit_len ?h)" using ih(1) by (simp add: powi_split powi_nat)
    have "2 * ?h \<le> n" by linarith
    then have "of_int (2 * ?h) \<le> (of_int n :: real)" by (rule of_int_le_iff [THEN iffD2])
    then have "2 * (2 :: real) powi (bit_len ?h - 1) \<le> of_int n" using ih(2) by simp
    moreover have "2 * (2 :: real) powi (bit_len ?h - 1) = 2 powi (bit_len ?h)"
      using powi_split [of 1 "bit_len ?h - 1"] by simp
    ultimately show ?thesis using up ih(1) by (simp add: len)
  qed
qed

lemma nearest_bounds:
  assumes "0 < b"
  shows "\<bar>of_int (nearest a b) - ratio a b\<bar> \<le> 1 / 2"
    and "ratio a b \<le> of_int N \<Longrightarrow> nearest a b \<le> N"
    and "of_int N \<le> ratio a b \<Longrightarrow> N \<le> nearest a b"
proof -
  define q r where "q = a div b" and "r = a mod b"
  have r: "0 \<le> r" "r < b" using assms by (simp_all add: r_def)
  have a: "a = q * b + r" by (simp add: q_def r_def)
  have fr: "ratio a b = of_int q + ratio r b" using assms by (simp add: a field_simps)
  have rb: "0 \<le> ratio r b" "ratio r b < 1" using r assms by simp_all
  have n: "nearest a b = (if b < 2 * r \<or> (2 * r = b \<and> odd q) then q + 1 else q)"
    by (simp add: nearest_def Let_def q_def r_def)
  define x where "x = ratio r b"
  have bpos: "0 < (of_int b :: real)" using assms by simp
  have less: "b < 2 * r \<longleftrightarrow> (of_int b :: real) < of_int (2 * r)" by (simp only: of_int_less_iff)
  have eq: "2 * r = b \<longleftrightarrow> (of_int (2 * r) :: real) = of_int b" by (simp only: of_int_eq_iff)
  have half: "b < 2 * r \<longleftrightarrow> 1 / 2 < x" unfolding less x_def using bpos by (simp add: pos_less_divide_eq mult.commute)
  have tie: "2 * r = b \<longleftrightarrow> x = 1 / 2" unfolding eq x_def using bpos by (auto simp add: nonzero_eq_divide_eq mult.commute)
  have cases: "nearest a b = q + 1 \<and> 1 / 2 \<le> x \<or> nearest a b = q \<and> x \<le> 1 / 2"
    unfolding n using half tie by auto
  have fr: "ratio a b = of_int q + x" using fr by (simp add: x_def)
  have rb: "0 \<le> x" "x < 1" using rb by (simp_all add: x_def)
  show "\<bar>of_int (nearest a b) - ratio a b\<bar> \<le> 1 / 2"
    using cases rb unfolding fr by (elim disjE conjE) (simp_all add: abs_le_iff)
  show "nearest a b \<le> N" if "ratio a b \<le> of_int N"
  proof -
    have "of_int q \<le> (of_int N :: real)" using that fr rb(1) by linarith
    then have "q \<le> N" by simp
    moreover have "q < N" if "0 < x"
    proof -
      have "of_int q < (of_int N :: real)" using \<open>ratio a b \<le> of_int N\<close> fr that by linarith
      then show ?thesis by simp
    qed
    ultimately show ?thesis using cases by auto
  qed
  show "N \<le> nearest a b" if "of_int N \<le> ratio a b"
  proof -
    have "of_int N < (of_int (q + 1) :: real)" using that fr rb by simp
    then have "N < q + 1" by (rule of_int_less_iff [THEN iffD1])
    then have "N \<le> q" by linarith
    then show ?thesis using cases by auto
  qed
qed

lemma round_exp_bounds:
  assumes "0 < n" "0 < d"
  shows "ratio n d < 2 powi (round_exp n d + 53)" "-1074 \<le> round_exp n d"
    "round_exp n d = -1074 \<or> 2 powi (round_exp n d + 52) \<le> ratio n d"
proof -
  define e where "e = bit_len n - bit_len d - 53"
  obtain a b where ab: "scale2 n d e = (a, b)" by (cases "scale2 n d e")
  note s = scale2_frac [OF assms(2) ab]
  note N = bit_len_bounds [OF assms(1)] and D = bit_len_bounds [OF assms(2)]
  define k where "k = (if 2 ^ 53 * b \<le> a then e + 1 else e)"
  have r: "round_exp n d = max (-1074) k"
    using ab by (simp add: round_exp_def e_def [symmetric] Let_def k_def)
  have dpos: "0 < (of_int d :: real)" using assms(2) by simp
  have test: "2 ^ 53 * b \<le> a \<longleftrightarrow> 2 powi (e + 53) \<le> ratio n d"
  proof -
    have "2 ^ 53 * b \<le> a \<longleftrightarrow> (of_int (2 ^ 53 * b) :: real) \<le> of_int a" by (simp only: of_int_le_iff)
    also have "\<dots> \<longleftrightarrow> 2 ^ 53 \<le> ratio a b" using s(1) by (simp add: pos_le_divide_eq)
    also have "\<dots> \<longleftrightarrow> 2 ^ 53 * 2 powi e \<le> ratio n d"
      unfolding s(2) by (rule pos_le_divide_eq) simp
    finally show ?thesis by (simp add: powi_split mult.commute)
  qed
  have up: "ratio n d < 2 powi (e + 54)"
  proof -
    have "ratio n d < 2 powi bit_len n / 2 powi (bit_len d - 1)"
      using N D dpos assms by (intro frac_less) auto
    also have "\<dots> = 2 powi (bit_len n - (bit_len d - 1))" by (simp add: power_int_diff)
    also have "bit_len n - (bit_len d - 1) = e + 54" by (simp add: e_def)
    finally show ?thesis .
  qed
  have low: "2 powi (e + 52) \<le> ratio n d"
  proof -
    have "e + 52 = bit_len n - 1 - bit_len d" by (simp add: e_def)
    then have "2 powi (e + 52) = (2 :: real) powi (bit_len n - 1) / 2 powi bit_len d"
      by (simp only:) (simp add: power_int_diff)
    also have "\<dots> \<le> ratio n d" using N D dpos assms(1) by (intro frac_le) auto
    finally show ?thesis .
  qed
  have k: "ratio n d < 2 powi (k + 53)" "2 powi (k + 52) \<le> ratio n d"
    using up low test by (auto simp: k_def ac_simps)
  show "-1074 \<le> round_exp n d" by (simp add: r)
  show "ratio n d < 2 powi (round_exp n d + 53)"
    using k(1) powi_le [of "k + 53" "round_exp n d + 53"] by (simp add: r)
  show "round_exp n d = -1074 \<or> 2 powi (round_exp n d + 52) \<le> ratio n d"
    using k(2) by (auto simp: r max_def)
qed


text \<open>What a rounding gives, with \<open>E\<close> the exponent it uses: the result and its error.\<close>

definition rounds_to :: "int \<Rightarrow> int \<Rightarrow> int \<Rightarrow> int \<Rightarrow> bool" where
  "rounds_to n d E q \<longleftrightarrow> 0 \<le> q \<and> q \<le> 2 ^ 53 \<and> (E = -1074 \<or> 2 ^ 52 \<le> q) \<and>
     \<bar>of_int q - ratio n d / 2 powi E\<bar> \<le> 1 / 2 \<and>
     (\<forall>N. ratio n d / 2 powi E \<le> of_int N \<longrightarrow> q \<le> N) \<and>
     (\<forall>N. of_int N \<le> ratio n d / 2 powi E \<longrightarrow> N \<le> q) \<and>
     (\<forall>s. rounded s n d =
        (if q = 2 ^ 53 then (if 970 < E then Infty s else Fin s (2 ^ 52) (E + 1))
         else if 971 < E then Infty s else Fin s q E))"

lemma rounded_rounds:
  assumes "0 < n" "0 < d"
  shows "\<exists>q. rounds_to n d (round_exp n d) q"
proof -
  define E where "E = round_exp n d"
  obtain a b where ab: "scale2 n d E = (a, b)" by (cases "scale2 n d E")
  note s = scale2_frac [OF assms(2) ab]
  note B = nearest_bounds [OF s(1), where a = a, unfolded s(2)]
  note R = round_exp_bounds [OF assms(1,2), folded E_def]
  have pos: "0 \<le> ratio n d / 2 powi E" using assms(1,2) by simp
  have "0 \<le> nearest a b" using B(3) [where N = 0] pos by (simp only: of_int_0)
  moreover have "nearest a b \<le> 2 ^ 53"
  proof (rule B(2))
    have "ratio n d \<le> 2 ^ 53 * 2 powi E" using R(1) by (simp add: powi_split mult.commute)
    then show "ratio n d / 2 powi E \<le> of_int (2 ^ 53)" by (subst pos_divide_le_eq) simp_all
  qed
  moreover have "E = -1074 \<or> 2 ^ 52 \<le> nearest a b"
  proof (cases "E = -1074")
    case False
    then have "2 powi (E + 52) \<le> ratio n d" using R(3) by simp
    then have "of_int (2 ^ 52) \<le> ratio n d / 2 powi E"
      by (subst pos_le_divide_eq) (simp_all add: powi_split mult.commute)
    then show ?thesis using B(3) by blast
  qed simp
  moreover have "rounded s n d =
      (if nearest a b = 2 ^ 53 then (if 970 < E then Infty s else Fin s (2 ^ 52) (E + 1))
       else if 971 < E then Infty s else Fin s (nearest a b) E)" for s
    using assms(1) ab by (simp add: rounded_def E_def [symmetric] Let_def)
  ultimately have "rounds_to n d E (nearest a b)"
    unfolding rounds_to_def using B by blast
  then show ?thesis unfolding E_def by blast
qed

lemma normal_rounded:
  assumes "0 \<le> n" "0 < d"
  shows "normal (rounded s n d)"
proof (cases "n = 0")
  case True
  then show ?thesis by (simp add: rounded_def)
next
  case False
  then have "0 < n" using assms(1) by simp
  obtain q where "rounds_to n d (round_exp n d) q" using rounded_rounds [OF \<open>0 < n\<close> assms(2)] by blast
  note q = this [unfolded rounds_to_def]
  show ?thesis using q round_exp_bounds(2) [OF \<open>0 < n\<close> assms(2)] by auto
qed

text \<open>A number that the type has on one side of the exact value stays on that side.\<close>

lemma scaled_integer:
  assumes "E \<le> k"
  shows "of_int M * (2 :: real) powi k / 2 powi E = of_int (M * 2 ^ nat (k - E))"
proof -
  have "2 powi k / 2 powi E = (2 :: real) ^ nat (k - E)"
    using assms powi_nat [of "k - E"] by (simp add: power_int_diff)
  then show ?thesis by (simp flip: times_divide_eq_right)
qed

lemma rounded_le:
  assumes "0 < n" "0 < d" and "normal (Fin False M k)" and "ratio n d \<le> of_int M * 2 powi k"
  obtains q e where "rounded s n d = Fin s q e" "of_int q * 2 powi e \<le> of_int M * (2 :: real) powi k"
proof -
  define E where "E = round_exp n d"
  obtain q where rt: "rounds_to n d E q" using rounded_rounds [OF assms(1,2)] unfolding E_def by blast
  have q: "q \<le> 2 ^ 53" "\<And>N. ratio n d / 2 powi E \<le> of_int N \<Longrightarrow> q \<le> N"
    "rounded s n d = (if q = 2 ^ 53 then (if 970 < E then Infty s else Fin s (2 ^ 52) (E + 1))
       else if 971 < E then Infty s else Fin s q E)"
    using rt unfolding rounds_to_def by blast+
  note R = round_exp_bounds [OF assms(1,2), folded E_def]
  have M: "0 \<le> M" "M < 2 ^ 53" "-1074 \<le> k" "k \<le> 971" using assms(3) by auto
  have "of_int M < (of_int (2 ^ 53) :: real)" using M(2) by (simp only: of_int_less_iff)
  then have "of_int M * (2 :: real) powi k < 2 ^ 53 * 2 powi k" by simp
  also have "\<dots> = 2 powi (k + 53)" by (simp add: powi_split mult.commute)
  finally have X: "of_int M * (2 :: real) powi k < 2 powi (k + 53)" .
  have "E \<le> k"
  proof (rule ccontr)
    assume "\<not> E \<le> k"
    then have "E \<noteq> -1074" "k + 53 \<le> E + 52" using M(3) by simp_all
    then have "2 powi (k + 53) \<le> ratio n d" using R(3) powi_le [of "k + 53" "E + 52"] by linarith
    then show False using X assms(4) by linarith
  qed
  have "ratio n d / 2 powi E \<le> of_int (M * 2 ^ nat (k - E))"
    unfolding scaled_integer [OF \<open>E \<le> k\<close>, symmetric] using assms(4) by (rule divide_right_mono) simp
  then have "q \<le> M * 2 ^ nat (k - E)" by (rule q(2))
  then have "of_int q \<le> (of_int (M * 2 ^ nat (k - E)) :: real)" by (rule of_int_le_iff [THEN iffD2])
  then have le: "of_int q * 2 powi E \<le> of_int M * (2 :: real) powi k"
    using scaled_integer [OF \<open>E \<le> k\<close>, of M] by (simp add: pos_le_divide_eq [symmetric] del: of_int_mult)
  have up: "E \<le> 970" if "q = 2 ^ 53"
  proof -
    have "2 powi (E + 53) \<le> of_int M * (2 :: real) powi k"
      using le that by (simp add: powi_split mult.commute)
    then have "2 powi (E + 53) < (2 :: real) powi (k + 53)" using X by linarith
    then have "E < k" using powi_le [of k E] powi_le [of "k + 53" "E + 53"] by linarith
    then show ?thesis using M(4) by simp
  qed
  show thesis
  proof (cases "q = 2 ^ 53")
    case True
    have "of_int (2 ^ 52) * (2 :: real) powi (E + 1) = of_int q * 2 powi E"
      by (simp add: True powi_split)
    then show thesis using that [of "2 ^ 52" "E + 1"] q(3) True up le by simp
  next
    case False
    then show thesis using that [of q E] q(3) \<open>E \<le> k\<close> M(4) le by simp
  qed
qed

lemma rounded_ge:
  assumes "0 < n" "0 < d" and "normal (Fin False M k)" and "of_int M * 2 powi k \<le> ratio n d"
  shows "rounded s n d = Infty s \<or>
    (\<exists>q e. rounded s n d = Fin s q e \<and> of_int M * (2 :: real) powi k \<le> of_int q * 2 powi e)"
proof -
  define E where "E = round_exp n d"
  obtain q where rt: "rounds_to n d E q" using rounded_rounds [OF assms(1,2)] unfolding E_def by blast
  have q: "E = -1074 \<or> 2 ^ 52 \<le> q" "\<And>N. of_int N \<le> ratio n d / 2 powi E \<Longrightarrow> N \<le> q"
    "rounded s n d = (if q = 2 ^ 53 then (if 970 < E then Infty s else Fin s (2 ^ 52) (E + 1))
       else if 971 < E then Infty s else Fin s q E)"
    using rt unfolding rounds_to_def by blast+
  have M: "0 \<le> M" "M < 2 ^ 53" "-1074 \<le> k" using assms(3) by auto
  have le: "of_int M * (2 :: real) powi k \<le> of_int q * 2 powi E"
  proof (cases "E \<le> k")
    case True
    have "of_int (M * 2 ^ nat (k - E)) \<le> ratio n d / 2 powi E"
      unfolding scaled_integer [OF True, symmetric] using assms(4) by (rule divide_right_mono) simp
    then have "M * 2 ^ nat (k - E) \<le> q" by (rule q(2))
    then have "of_int (M * 2 ^ nat (k - E)) \<le> (of_int q :: real)" by (rule of_int_le_iff [THEN iffD2])
    then show ?thesis
      using scaled_integer [OF True, of M] by (simp add: pos_divide_le_eq [symmetric] del: of_int_mult)
  next
    case False
    then have "2 ^ 52 \<le> q" using q(1) M(3) by simp
    then have "of_int (2 ^ 52) \<le> (of_int q :: real)" by (rule of_int_le_iff [THEN iffD2])
    then have "2 ^ 52 * 2 powi E \<le> of_int q * (2 :: real) powi E" by simp
    moreover have "of_int M < (of_int (2 ^ 53) :: real)" using M(2) by (simp only: of_int_less_iff)
    then have "of_int M * (2 :: real) powi k \<le> 2 ^ 53 * 2 powi k" by simp
    moreover have "2 ^ 53 * 2 powi k \<le> 2 ^ 52 * (2 :: real) powi E"
      using False powi_le [of "k + 1" E] by (simp add: powi_split)
    ultimately show ?thesis by linarith
  qed
  show ?thesis
  proof (cases "q = 2 ^ 53")
    case True
    have "of_int (2 ^ 52) * (2 :: real) powi (E + 1) = of_int q * 2 powi E"
      by (simp add: True powi_split)
    then show ?thesis using q(3) True le by (cases "970 < E") simp_all
  next
    case False
    then show ?thesis using q(3) le by (cases "971 < E") simp_all
  qed
qed

section \<open>Signs\<close>

text \<open>Numbers in normal form without the sign bit, and numbers that are not below zero.\<close>

fun signbit :: "double \<Rightarrow> bool" where
  "signbit NaN = False"
| "signbit (Infty s) = s"
| "signbit (Fin s m e) = s"

definition no_sign :: "double \<Rightarrow> bool" where "no_sign x \<longleftrightarrow> normal x \<and> \<not> signbit x"

definition not_neg :: "double \<Rightarrow> bool" where "not_neg x \<longleftrightarrow> normal x \<and> \<not> x < 0"

lemma not_neg_simps [simp]:
  "not_neg NaN" "not_neg (Infty s) \<longleftrightarrow> \<not> s"
  "not_neg (Fin s m e) \<longleftrightarrow> normal (Fin s m e) \<and> (s \<longrightarrow> m = 0)"
  by (auto simp: not_neg_def zero_double_def common_def with_sign_def)

lemma no_sign_simps [simp]:
  "no_sign NaN" "no_sign (Infty s) \<longleftrightarrow> \<not> s" "no_sign (Fin s m e) \<longleftrightarrow> normal (Fin s m e) \<and> \<not> s"
  by (auto simp: no_sign_def)

lemma no_sign_not_neg: "no_sign x \<Longrightarrow> not_neg x"
  by (cases x) auto

lemma no_sign_normal: "no_sign x \<Longrightarrow> normal x"
  and not_neg_normal: "not_neg x \<Longrightarrow> normal x"
  by (simp_all add: no_sign_def not_neg_def)

lemma clamped_not_neg: "normal x \<Longrightarrow> \<not> x < 0 \<Longrightarrow> not_neg x"
  by (simp add: not_neg_def)

lemma rounded2_0: "rounded2 s 0 d e = Fin s 0 (-1074)"
  by (simp add: rounded2_def scale2_def rounded_def)

lemma rounded2_normal:
  assumes "0 \<le> n" "0 < d"
  shows "normal (rounded2 s n d e)"
proof -
  obtain a b where ab: "scale2 n d (- e) = (a, b)" by (cases "scale2 n d (- e)")
  show ?thesis
    using scale2_frac [OF assms(2) ab] assms(1) normal_rounded [of a b s] by (simp add: rounded2_def ab)
qed

lemma rounded2_sign: "signbit (rounded2 s n d e) = s"
  by (simp add: rounded2_def rounded_def Let_def split: prod.split)

lemma rounded2_no_sign: "0 \<le> n \<Longrightarrow> 0 < d \<Longrightarrow> no_sign (rounded2 False n d e)"
  by (simp add: no_sign_def rounded2_normal rounded2_sign)

lemma rounded2_not_neg: "0 \<le> n \<Longrightarrow> 0 < d \<Longrightarrow> \<not> s \<or> n = 0 \<Longrightarrow> not_neg (rounded2 s n d e)"
  using rounded2_no_sign [of n d e] by (cases "n = 0") (auto simp: rounded2_0 intro: no_sign_not_neg)

lemma zero_facts: "normal 0" "no_sign 0" "normal 1" "no_sign 1" and not_neg_0: "not_neg 0"
  by (simp_all add: zero_double_def one_double_def)

lemma plus_normal: "normal x \<Longrightarrow> normal y \<Longrightarrow> normal (x + y)"
  by (cases "(x, y)" rule: plus_double.cases) (auto simp: Let_def rounded2_normal)

lemma uminus_normal: "normal (- x) = normal x"
  by (cases x) auto

lemma minus_normal: "normal x \<Longrightarrow> normal y \<Longrightarrow> normal (x - y)"
  by (simp add: minus_double_def plus_normal uminus_normal)

lemma times_normal: "normal x \<Longrightarrow> normal y \<Longrightarrow> normal (x * y)"
  by (cases "(x, y)" rule: times_double.cases) (auto simp: rounded2_normal)

lemma divide_normal: "normal x \<Longrightarrow> normal y \<Longrightarrow> normal (x / y)"
  by (cases "(x, y)" rule: divide_double.cases) (auto simp: rounded2_normal)

lemmas op_normal = plus_normal minus_normal times_normal divide_normal uminus_normal

lemma signed_scaled:
  assumes "c \<le> e \<or> m = 0"
  shows "of_int (with_sign s m * 2 ^ nat (e - c)) * (2 :: real) powi c = val (Fin s m e)"
proof (cases "m = 0")
  case False
  then have "(2 :: real) powi e = 2 ^ nat (e - c) * 2 powi c"
    using assms powi_split [of "e - c" c] powi_nat [of "e - c"] by simp
  then show ?thesis by simp
qed (simp add: with_sign_def)

lemma common_scaled:
  "of_int (with_sign s m * 2 ^ nat (e - common m e n f)) * (2 :: real) powi common m e n f = val (Fin s m e)"
  "of_int (with_sign t n * 2 ^ nat (f - common m e n f)) * (2 :: real) powi common m e n f = val (Fin t n f)"
  by (rule signed_scaled; simp add: common_def)+

text \<open>The sum of two numbers, with the integer that is rounded.\<close>

lemma plus_Fin:
  obtains z where "of_int z * (2 :: real) powi common m e n f = val (Fin s m e) + val (Fin t n f)"
    "Fin s m e + Fin t n f =
      (if z = 0 then Fin (s \<and> t) 0 (-1074) else rounded2 (z < 0) \<bar>z\<bar> 1 (common m e n f))"
proof -
  define z where "z = with_sign s m * 2 ^ nat (e - common m e n f) + with_sign t n * 2 ^ nat (f - common m e n f)"
  have "of_int z * (2 :: real) powi common m e n f = val (Fin s m e) + val (Fin t n f)"
    unfolding z_def of_int_add distrib_right common_scaled by simp
  then show thesis using that [of z] by (simp add: z_def Let_def)
qed

lemma powi_scaled_sign:
  "0 \<le> of_int z * (2 :: real) powi c \<longleftrightarrow> 0 \<le> z" "0 < of_int z * (2 :: real) powi c \<longleftrightarrow> 0 < z"
proof -
  have "\<not> (2 :: real) powi c < 0" "\<not> (2 :: real) powi c \<le> 0" by (simp_all add: not_less not_le)
  then show "0 \<le> of_int z * (2 :: real) powi c \<longleftrightarrow> 0 \<le> z" "0 < of_int z * (2 :: real) powi c \<longleftrightarrow> 0 < z"
    by (simp_all add: zero_le_mult_iff zero_less_mult_iff)
qed

lemma val_1: "val 1 = 1"
  using powi_split [of 52 "-52"] powi_nat [of 52] by (simp add: one_double_def with_sign_def)

lemma val_not_neg: "not_neg x \<Longrightarrow> 0 \<le> val x"
  by (cases x) (auto simp: with_sign_def)

lemma plus_Fin_not_neg:
  assumes "not_neg (Fin s m e)" "not_neg (Fin t n f)"
  obtains z where "0 \<le> z" "of_int z * (2 :: real) powi common m e n f = val (Fin s m e) + val (Fin t n f)"
    "Fin s m e + Fin t n f = (if z = 0 then Fin (s \<and> t) 0 (-1074) else rounded2 False z 1 (common m e n f))"
proof -
  obtain z where z: "of_int z * (2 :: real) powi common m e n f = val (Fin s m e) + val (Fin t n f)"
    "Fin s m e + Fin t n f =
      (if z = 0 then Fin (s \<and> t) 0 (-1074) else rounded2 (z < 0) \<bar>z\<bar> 1 (common m e n f))"
    by (rule plus_Fin)
  have "0 \<le> of_int z * (2 :: real) powi common m e n f"
    unfolding z(1) using val_not_neg [OF assms(1)] val_not_neg [OF assms(2)] by (rule add_nonneg_nonneg)
  then have "0 \<le> z" by (simp only: powi_scaled_sign)
  then show thesis using that [of z] z by (auto split: if_splits)
qed

lemma no_sign_plus: "no_sign x \<Longrightarrow> not_neg y \<Longrightarrow> no_sign (x + y)"
proof (cases "(x, y)" rule: plus_double.cases)
  case (7 s m e t n f)
  assume "no_sign x" "not_neg y"
  then have nn: "not_neg (Fin s m e)" "not_neg (Fin t n f)" "\<not> s" using 7 no_sign_not_neg by auto
  obtain z where z: "0 \<le> z"
    "Fin s m e + Fin t n f = (if z = 0 then Fin (s \<and> t) 0 (-1074) else rounded2 False z 1 (common m e n f))"
    using plus_Fin_not_neg [OF nn(1,2)] by blast
  then have "no_sign (Fin s m e + Fin t n f)" using nn(3) by (simp add: rounded2_no_sign)
  then show ?thesis using 7 by simp
qed auto

lemma not_neg_plus: "not_neg x \<Longrightarrow> not_neg y \<Longrightarrow> not_neg (x + y)"
proof (cases "(x, y)" rule: plus_double.cases)
  case (7 s m e t n f)
  assume "not_neg x" "not_neg y"
  then have nn: "not_neg (Fin s m e)" "not_neg (Fin t n f)" using 7 by auto
  obtain z where z: "0 \<le> z"
    "Fin s m e + Fin t n f = (if z = 0 then Fin (s \<and> t) 0 (-1074) else rounded2 False z 1 (common m e n f))"
    using plus_Fin_not_neg [OF nn] by blast
  then have "not_neg (Fin s m e + Fin t n f)" by (simp add: rounded2_not_neg)
  then show ?thesis using 7 by simp
qed auto

lemma no_sign_times: "no_sign x \<Longrightarrow> no_sign y \<Longrightarrow> no_sign (x * y)"
  by (cases "(x, y)" rule: times_double.cases) (auto simp: rounded2_no_sign)

lemma not_neg_times: "not_neg x \<Longrightarrow> not_neg y \<Longrightarrow> not_neg (x * y)"
  by (cases "(x, y)" rule: times_double.cases) (auto intro!: rounded2_not_neg)

lemma no_sign_divide: "no_sign x \<Longrightarrow> no_sign y \<Longrightarrow> no_sign (x / y)"
  by (cases "(x, y)" rule: divide_double.cases) (auto simp: rounded2_no_sign)

lemma not_neg_divide: "not_neg x \<Longrightarrow> no_sign y \<Longrightarrow> not_neg (x / y)"
  by (cases "(x, y)" rule: divide_double.cases) (auto intro!: rounded2_not_neg)

lemma no_sign_lit: "0 \<le> n \<Longrightarrow> 0 < d \<Longrightarrow> no_sign (d_lit n d)"
  by (simp add: d_lit_def no_sign_def normal_rounded) (simp add: rounded_def Let_def)

section \<open>Comparisons\<close>

lemma less_Fin: "Fin s m e < Fin t n f \<longleftrightarrow> val (Fin s m e) < val (Fin t n f)"
proof -
  define c where "c = common m e n f"
  have "with_sign s m * 2 ^ nat (e - c) < with_sign t n * 2 ^ nat (f - c) \<longleftrightarrow>
      of_int (with_sign s m * 2 ^ nat (e - c)) < (of_int (with_sign t n * 2 ^ nat (f - c)) :: real)"
    by (simp only: of_int_less_iff)
  also have "\<dots> \<longleftrightarrow> of_int (with_sign s m * 2 ^ nat (e - c)) * (2 :: real) powi c < of_int (with_sign t n * 2 ^ nat (f - c)) * 2 powi c"
    by simp
  finally show ?thesis unfolding c_def common_scaled by (simp add: Let_def)
qed

lemma less_irrefl: "\<not> x < (x :: double)"
  by (cases x) (simp_all add: Let_def)

lemma less_trans: "x < y \<Longrightarrow> y < z \<Longrightarrow> x < (z :: double)"
  by (cases x; cases y; cases z) (auto simp: less_Fin simp del: val.simps less_double.simps(7))

section \<open>Bounds of results\<close>

lemma rounded2_frac:
  assumes "0 < n" "0 < d"
  obtains a b where "0 < a" "0 < b" "rounded2 s n d e = rounded s a b" "ratio a b = ratio n d * 2 powi e"
proof -
  obtain a b where ab: "scale2 n d (- e) = (a, b)" by (cases "scale2 n d (- e)")
  note sc = scale2_frac [OF assms(2) ab]
  have "ratio a b = ratio n d * 2 powi e"
    unfolding sc(2) by (simp add: power_int_minus divide_inverse)
  then show thesis using that [of a b] sc(1,4) assms(1) ab by (simp add: rounded2_def)
qed

lemma rounded2_le:
  assumes "0 < n" and "normal (Fin False M k)" and "of_int n * 2 powi e \<le> of_int M * (2 :: real) powi k"
  shows "\<exists>q f. rounded2 s n 1 e = Fin s q f \<and> of_int q * 2 powi f \<le> of_int M * (2 :: real) powi k"
proof -
  obtain a b where ab: "0 < a" "0 < b" "rounded2 s n 1 e = rounded s a b" "ratio a b = ratio n 1 * 2 powi e"
    by (rule rounded2_frac [OF assms(1), of 1]) simp
  have "ratio a b \<le> of_int M * 2 powi k" using assms(3) ab(4) by simp
  then show ?thesis using rounded_le [OF ab(1,2) assms(2)] ab(3) by metis
qed

lemma less_one: "1 < Fin s m e \<longleftrightarrow> 1 < val (Fin s m e)"
  using val_1 by (simp only: one_double_def less_Fin)

text \<open>A factor of at most one does not make a number larger.\<close>

lemma reduced_le:
  assumes "not_neg x" "not_neg L" "\<not> 1 < L"
  shows "\<not> x < x * L"
proof (cases "(x, L)" rule: times_double.cases)
  case (7 s m e t n f)
  have x: "not_neg (Fin s m e)" and L: "not_neg (Fin t n f)" "val (Fin t n f) \<le> 1"
    using 7 assms less_one by auto
  have mn: "0 \<le> m" "0 \<le> n" using x L by auto
  show ?thesis
  proof (cases "m * n = 0")
    case True
    have "x * L = rounded2 (s \<noteq> t) (m * n) 1 (e + f)" using 7 by simp
    then have "x * L = Fin (s \<noteq> t) 0 (-1074)" by (simp only: True rounded2_0)
    moreover have "val (Fin (s \<noteq> t) 0 (-1074)) = 0" by (simp add: with_sign_def)
    ultimately show ?thesis
      using val_not_neg [OF x] 7 by (simp add: less_Fin not_less del: less_double.simps val.simps)
  next
    case False
    then have pos: "0 < m" "0 < n" "\<not> s" "\<not> t" using mn x L by auto
    have one: "of_int n * (2 :: real) powi f \<le> 1" using L(2) pos by (simp add: with_sign_def)
    have "of_int (m * n) * (2 :: real) powi (e + f) = (of_int m * 2 powi e) * (of_int n * 2 powi f)"
      by (simp add: powi_split)
    also have "\<dots> \<le> of_int m * 2 powi e" using one pos by (intro mult_left_le) simp_all
    finally have "of_int (m * n) * (2 :: real) powi (e + f) \<le> of_int m * 2 powi e" .
    moreover have "normal (Fin False m e)" using x pos by simp
    moreover have "0 < m * n" using pos by simp
    ultimately obtain q g where "rounded2 False (m * n) 1 (e + f) = Fin False q g"
        "of_int q * 2 powi g \<le> of_int m * (2 :: real) powi e"
      using rounded2_le by blast
    then show ?thesis using 7 pos by (simp add: less_Fin with_sign_def not_less del: less_double.simps)
  qed
qed (use assms in \<open>auto simp: one_double_def\<close>)

text \<open>\<open>2.8 - (1 + t)\<close> keeps its sign for \<open>t\<close> at most one.\<close>

lemma shelter_sign:
  assumes "normal t" "\<not> 1 < t"
  shows "no_sign (d_lit 28 10 - (1 + t))"
proof (cases t)
  case NaN
  then show ?thesis by (simp add: one_double_def minus_double_def d_lit_def rounded_def Let_def)
next
  case (Infty s)
  then show ?thesis using assms
    by (simp add: one_double_def minus_double_def d_lit_def rounded_def Let_def)
next
  case (Fin s m e)
  have lit: "d_lit 28 10 = Fin False 6305039478318694 (-51)" by code_simp
  have lit_pos: "no_sign (d_lit 28 10)" by (rule no_sign_lit) simp_all
  have le: "val t \<le> 1" using assms(2) less_one Fin by (simp del: less_double.simps val.simps)
  obtain z where z: "of_int z * (2 :: real) powi common (2 ^ 52) (-52) m e = val 1 + val t"
    "1 + t = (if z = 0 then Fin (False \<and> s) 0 (-1074) else rounded2 (z < 0) \<bar>z\<bar> 1 (common (2 ^ 52) (-52) m e))"
    unfolding one_double_def Fin by (rule plus_Fin)
  consider "z \<le> 0" | "0 < z" by linarith
  then show ?thesis
  proof cases
    case 1
    have "1 + t = Fin False 0 (-1074) \<or> signbit (1 + t)" using z(2) 1 by (auto simp: rounded2_sign)
    moreover have "normal (1 + t)" using assms(1) zero_facts(3) by (rule plus_normal [rotated])
    ultimately have "not_neg (- (1 + t))" by (cases "1 + t") auto
    then show ?thesis unfolding minus_double_def using lit_pos no_sign_plus by blast
  next
    case 2
    have two: "of_int (2 ^ 52) * 2 powi (-51) = (2 :: real)"
      using powi_split [of 52 "-51"] powi_nat [of 52] by simp
    have "of_int z * (2 :: real) powi common (2 ^ 52) (-52) m e \<le> of_int (2 ^ 52) * 2 powi (-51)"
      using z(1) val_1 le two by simp
    moreover have "normal (Fin False (2 ^ 52) (-51))" by simp
    moreover have "1 + t = rounded2 False z 1 (common (2 ^ 52) (-52) m e)" using z(2) 2 by simp
    ultimately obtain q f where q: "1 + t = Fin False q f" "of_int q * 2 powi f \<le> of_int (2 ^ 52) * (2 :: real) powi (-51)"
      using rounded2_le [OF 2] by metis
    have diff: "d_lit 28 10 - (1 + t) = Fin False 6305039478318694 (-51) + Fin True q f"
      by (simp only: lit minus_double_def q(1) uminus_double.simps) simp
    obtain w where w: "of_int w * (2 :: real) powi common 6305039478318694 (-51) q f =
        val (Fin False 6305039478318694 (-51)) + val (Fin True q f)"
      "Fin False 6305039478318694 (-51) + Fin True q f = (if w = 0 then Fin (False \<and> True) 0 (-1074)
         else rounded2 (w < 0) \<bar>w\<bar> 1 (common 6305039478318694 (-51) q f))"
      by (rule plus_Fin)
    have "val (Fin True q f) = - (of_int q * 2 powi f)" by (simp add: with_sign_def)
    moreover have "2 < val (Fin False 6305039478318694 (-51))"
    proof -
      have "of_int (2 ^ 52) * 2 powi (-51) < of_int 6305039478318694 * (2 :: real) powi (-51)" by simp
      then show ?thesis unfolding two by (simp add: with_sign_def)
    qed
    ultimately have "0 < of_int w * (2 :: real) powi common 6305039478318694 (-51) q f"
      using q(2) two unfolding w(1) by linarith
    then have "0 < w" by (simp only: powi_scaled_sign)
    then show ?thesis unfolding diff using w(2) rounded2_no_sign [of w 1] by simp
  qed
qed

text \<open>
  A sum grows by at least half of what is added, unless that is smaller than the number by a
  factor of \<open>2 ^ 50\<close>.
\<close>

lemma plus_progress:
  assumes "not_neg (Fin s m e)" "not_neg (Fin t n f)" "0 < n" and "val (Fin s m e) \<le> 2 ^ 50 * val (Fin t n f)"
  shows "Fin s m e + Fin t n f = Infty False \<or>
    (\<exists>q g. Fin s m e + Fin t n f = Fin False q g \<and> normal (Fin False q g) \<and>
       val (Fin s m e) + val (Fin t n f) / 2 \<le> val (Fin False q g))"
proof -
  define c where "c = common m e n f"
  obtain z where z: "0 \<le> z" "of_int z * (2 :: real) powi c = val (Fin s m e) + val (Fin t n f)"
    "Fin s m e + Fin t n f = (if z = 0 then Fin (s \<and> t) 0 (-1074) else rounded2 False z 1 c)"
    unfolding c_def by (rule plus_Fin_not_neg [OF assms(1,2)])
  define v y where "v = val (Fin s m e) + val (Fin t n f)" and "y = val (Fin t n f)"
  have t: "\<not> t" using assms(2,3) by simp
  have y: "2 powi (-1074) \<le> y"
  proof -
    have "(2 :: real) powi (-1074) \<le> 2 powi f" using assms(2) by (intro powi_le) auto
    also have "\<dots> \<le> of_int n * 2 powi f" using assms(3) by simp
    finally show ?thesis using t by (simp add: y_def with_sign_def)
  qed
  have "0 < (2 :: real) powi (-1074)" by simp
  then have "0 < v" using y val_not_neg [OF assms(1)] unfolding v_def y_def [symmetric] by linarith
  then have "0 < of_int z * (2 :: real) powi c" unfolding v_def z(2) .
  then have zpos: "0 < z" by (simp only: powi_scaled_sign)
  obtain a b where ab: "0 < a" "0 < b" "rounded2 False z 1 c = rounded False a b" "ratio a b = ratio z 1 * 2 powi c"
    by (rule rounded2_frac [OF zpos, of 1]) simp
  have ab_v: "ratio a b = v" using ab(4) z(2) by (simp add: v_def)
  define E where "E = round_exp a b"
  obtain q where rt: "rounds_to a b E q" using rounded_rounds [OF ab(1,2)] unfolding E_def by blast
  have near: "\<bar>of_int q - v / 2 powi E\<bar> \<le> 1 / 2" using rt ab_v unfolding rounds_to_def by simp
  have out: "rounded False a b = (if q = 2 ^ 53 then (if 970 < E then Infty False else Fin False (2 ^ 52) (E + 1))
      else if 971 < E then Infty False else Fin False q E)" using rt unfolding rounds_to_def by blast
  have "E = -1074 \<or> 2 powi (E + 52) \<le> v" using round_exp_bounds(3) [OF ab(1,2)] ab_v unfolding E_def by simp
  moreover have "2 powi E / 2 \<le> y / 2" if "2 powi (E + 52) \<le> v"
  proof -
    have "2 ^ 52 * 2 powi E \<le> v" using that by (simp add: powi_split mult.commute)
    moreover have "v \<le> (2 ^ 50 + 1) * y" using assms(4) by (simp add: v_def y_def algebra_simps)
    moreover have "0 < y" using y \<open>0 < (2 :: real) powi (-1074)\<close> by linarith
    ultimately have "2 ^ 52 * 2 powi E \<le> 2 ^ 52 * y" by (simp add: algebra_simps)
    then show ?thesis by simp
  qed
  ultimately have half: "2 powi E / 2 \<le> y / 2" using y by auto
  have "v / 2 powi E - 1 / 2 \<le> of_int q" using near by linarith
  then have "(v / 2 powi E - 1 / 2) * 2 powi E \<le> of_int q * 2 powi E" by (rule mult_right_mono) simp
  then have "v - 2 powi E / 2 \<le> of_int q * 2 powi E" by (simp add: left_diff_distrib)
  then have grow: "val (Fin s m e) + y / 2 \<le> of_int q * 2 powi E" using half by (simp add: v_def y_def)
  have norm: "normal (rounded False a b)" using ab by (simp add: normal_rounded)
  have two: "of_int (2 ^ 52) * (2 :: real) powi (E + 1) = of_int q * 2 powi E" if "q = 2 ^ 53"
    by (simp add: that powi_split)
  show ?thesis
    using norm grow two zpos unfolding z(3) ab(3) out y_def [symmetric]
    by (auto simp: with_sign_def simp del: normal.simps split: if_splits)
qed

text \<open>Facts on the constants and on numbers above another.\<close>

lemma lit_one: "d_lit 1 1 = 1"
  by code_simp

lemma val_zero: "val 0 = 0"
  by (simp add: zero_double_def with_sign_def)

lemma negated_not_pos: "not_neg x \<Longrightarrow> \<not> 0 < - x"
proof (cases x)
  case (Fin s m e)
  assume "not_neg x"
  then have "val (- x) \<le> 0" using val_not_neg [of x] by (simp add: Fin with_sign_def)
  then show ?thesis using val_zero by (simp add: Fin zero_double_def less_Fin del: less_double.simps val.simps)
qed (auto simp: zero_double_def)

lemma le_Fin: "Fin s m e \<le> Fin t n f \<longleftrightarrow> val (Fin s m e) \<le> val (Fin t n f)"
proof -
  define c where "c = common m e n f"
  have "with_sign s m * 2 ^ nat (e - c) \<le> with_sign t n * 2 ^ nat (f - c) \<longleftrightarrow>
      of_int (with_sign s m * 2 ^ nat (e - c)) \<le> (of_int (with_sign t n * 2 ^ nat (f - c)) :: real)"
    by (simp only: of_int_le_iff)
  also have "\<dots> \<longleftrightarrow> of_int (with_sign s m * 2 ^ nat (e - c)) * (2 :: real) powi c \<le> of_int (with_sign t n * 2 ^ nat (f - c)) * 2 powi c"
    by simp
  finally show ?thesis unfolding c_def common_scaled by (simp add: Let_def)
qed

lemma ordered_difference:
  assumes "x \<le> y"
  shows "not_neg (y - x)"
proof (cases "(x, y)" rule: less_eq_double.cases)
  case (7 s m e t n f)
  obtain w where w: "of_int w * (2 :: real) powi common n f m e = val (Fin t n f) + val (Fin (\<not> s) m e)"
    "Fin t n f + Fin (\<not> s) m e = (if w = 0 then Fin (t \<and> \<not> s) 0 (-1074)
       else rounded2 (w < 0) \<bar>w\<bar> 1 (common n f m e))"
    by (rule plus_Fin)
  have "val (Fin (\<not> s) m e) = - val (Fin s m e)" by (simp add: with_sign_def)
  moreover have "val (Fin s m e) \<le> val (Fin t n f)" using assms 7 le_Fin by blast
  ultimately have "0 \<le> of_int w * (2 :: real) powi common n f m e" unfolding w(1) by linarith
  then have "0 \<le> w" by (simp only: powi_scaled_sign)
  then have "not_neg (Fin t n f + Fin (\<not> s) m e)" using w(2) by (simp add: rounded2_not_neg)
  then show ?thesis using 7 by (simp add: minus_double_def)
qed (use assms in \<open>auto simp: minus_double_def\<close>)

lemma lit_not_NaN: "d_lit n d \<noteq> NaN"
  by (simp add: d_lit_def rounded_def Let_def)

lemma above_no_sign:
  assumes "normal x" "no_sign y" "y < x \<or> \<not> x \<le> y \<and> y \<noteq> NaN"
  shows "no_sign x"
proof (cases x)
  case (Fin s m e)
  show ?thesis
  proof (cases y)
    case y: (Fin t n f)
    have "0 \<le> val y" using assms(2) by (simp add: val_not_neg no_sign_not_neg)
    moreover have "val y < val x"
      using assms(3) unfolding Fin y less_Fin le_Fin by auto
    ultimately have "0 < val x" by simp
    moreover have "0 \<le> m" using assms(1) Fin by simp
    then have "val x \<le> 0" if s using that Fin by (simp add: with_sign_def)
    ultimately have "\<not> s" by (meson not_le)
    then show ?thesis using assms(1) Fin by simp
  qed (use assms Fin in auto)
qed (use assms in \<open>cases y; auto\<close>)+

end
