(* ===== verification/DoubleNat.thy ===== *)
theory DoubleNat
  imports Double
begin

text \<open>
  Doubles that are natural numbers below \<open>2 ^ 53\<close>: their sums, products and comparisons are exact.
\<close>

section \<open>Exact results\<close>

text \<open>Two numbers in normal form with the same sign and value are the same.\<close>

lemma normal_unique:
  assumes "normal (Fin s m e)" "normal (Fin s n f)" "of_int m * 2 powi e = of_int n * (2 :: real) powi f" "e \<le> f"
  shows "Fin s m e = Fin s n f"
proof (cases "e = f")
  case True
  then show ?thesis using assms(3) by simp
next
  case False
  then have less: "1 \<le> f - e" using assms(4) by simp
  have "of_int m * (2 :: real) powi e = of_int (n * 2 ^ nat (f - e)) * 2 powi e"
    using assms(3,4) powi_split [of "f - e" e] powi_nat [of "f - e"] by simp
  then have "of_int m = (of_int (n * 2 ^ nat (f - e)) :: real)" by simp
  then have m: "m = n * 2 ^ nat (f - e)" by (simp only: of_int_eq_iff)
  have "2 ^ 52 \<le> n" using assms(1,2) False less by auto
  moreover have "(2 :: int) ^ 1 \<le> 2 ^ nat (f - e)" using less by (intro power_increasing) auto
  ultimately have "2 ^ 52 * 2 ^ 1 \<le> n * 2 ^ nat (f - e)" by (intro mult_mono) auto
  then have "2 ^ 53 \<le> m" unfolding m by simp
  then show ?thesis using assms(1) by simp
qed

lemma normal_eqI:
  assumes "normal (Fin s m e)" "normal (Fin s n f)" "of_int m * 2 powi e = of_int n * (2 :: real) powi f"
  shows "Fin s m e = Fin s n f"
  using normal_unique [OF assms] normal_unique [OF assms(2,1) assms(3) [symmetric]] by (cases "e \<le> f") auto

lemma rounded_exact:
  assumes "0 < n" "0 < d" "normal (Fin s M k)" "ratio n d = of_int M * 2 powi k"
  shows "rounded s n d = Fin s M k"
proof -
  have norm: "normal (Fin False M k)" using assms(3) by simp
  obtain q e where q: "rounded s n d = Fin s q e" "of_int q * 2 powi e \<le> of_int M * (2 :: real) powi k"
    by (rule rounded_le [OF assms(1,2) norm, of s]) (use assms(4) in simp)
  have "of_int M * (2 :: real) powi k \<le> of_int q * 2 powi e"
    using rounded_ge [OF assms(1,2) norm, of s] q(1) assms(4) by auto
  then have eq: "of_int q * 2 powi e = of_int M * (2 :: real) powi k" using q(2) by simp
  have "normal (rounded s n d)" using assms(1,2) by (intro normal_rounded) simp_all
  then have "normal (Fin s q e)" unfolding q(1) .
  then have "Fin s q e = Fin s M k" using assms(3) eq by (rule normal_eqI)
  then show ?thesis using q(1) by simp
qed

text \<open>A natural number below \<open>2 ^ 53\<close> is a double.\<close>

abbreviation d_nat :: "nat \<Rightarrow> double" where "d_nat n \<equiv> d_lit (int n) 1"

lemma nat_normal:
  assumes "0 < n" "n < 2 ^ 53"
  shows "\<exists>m e. normal (Fin False m e) \<and> of_int m * 2 powi e = real n"
proof -
  define k where "k = 53 - bit_len (int n)"
  have r: "1 \<le> bit_len (int n)" "(2 :: real) ^ nat (bit_len (int n) - 1) \<le> of_int (int n)"
    "of_int (int n) < (2 :: real) ^ nat (bit_len (int n))"
    using bit_len_bounds [of "int n"] assms(1) powi_nat [of "bit_len (int n)"] powi_nat [of "bit_len (int n) - 1"] by auto
  have "of_int (2 ^ nat (bit_len (int n) - 1)) \<le> (of_int (int n) :: real)"
    "(of_int (int n) :: real) < of_int (2 ^ nat (bit_len (int n)))" using r(2,3) by simp_all
  then have b: "2 ^ nat (bit_len (int n) - 1) \<le> int n" "int n < 2 ^ nat (bit_len (int n))" "1 \<le> bit_len (int n)"
    using r(1) by (simp_all only: of_int_le_iff of_int_less_iff)
  have "bit_len (int n) \<le> 53"
  proof (rule ccontr)
    assume "\<not> bit_len (int n) \<le> 53"
    then have "(2 :: int) ^ 53 \<le> 2 ^ nat (bit_len (int n) - 1)" by (intro power_increasing) auto
    moreover have "int n < 2 ^ 53" using assms(2) by simp
    ultimately show False using b(1) by linarith
  qed
  then have k: "0 \<le> k" "k \<le> 52" using b(3) by (simp_all add: k_def)
  have lo: "2 ^ 52 \<le> int n * 2 ^ nat k"
  proof -
    have "(2 :: int) ^ 52 = 2 ^ nat (bit_len (int n) - 1) * 2 ^ nat k"
      using k b(3) by (simp add: k_def power_add [symmetric] nat_add_distrib [symmetric])
    moreover have "2 ^ nat (bit_len (int n) - 1) * 2 ^ nat k \<le> int n * 2 ^ nat k" using b(1) by (rule mult_right_mono) simp
    ultimately show ?thesis by linarith
  qed
  have hi: "int n * 2 ^ nat k < 2 ^ 53"
  proof -
    have "int n * 2 ^ nat k < 2 ^ nat (bit_len (int n)) * 2 ^ nat k" using b(2) by simp
    also have "\<dots> = 2 ^ 53" using k b(3) by (simp add: k_def power_add [symmetric] nat_add_distrib [symmetric])
    finally show ?thesis .
  qed
  have "of_int (int n * 2 ^ nat k) * (2 :: real) powi (- k) = real n"
    using k powi_nat [of k] by (simp add: power_int_minus)
  moreover have "normal (Fin False (int n * 2 ^ nat k) (- k))" using lo hi k by simp
  ultimately show ?thesis by blast
qed

lemma d_nat_Fin:
  assumes "n < 2 ^ 53"
  obtains m e where "d_nat n = Fin False m e" "normal (Fin False m e)" "of_int m * 2 powi e = real n"
proof (cases "n = 0")
  case True
  show thesis by (rule that [of 0 "-1074"]) (simp_all add: True d_lit_def rounded_def)
next
  case False
  then obtain m e where me: "normal (Fin False m e)" "of_int m * 2 powi e = real n" using nat_normal assms by blast
  have "rounded False (int n) 1 = Fin False m e"
    by (rule rounded_exact) (use False me in auto)
  then show thesis using that me by (simp add: d_lit_def)
qed

lemma rounded2_nat:
  assumes "0 < z" "of_int z * (2 :: real) powi c = real n" "n < 2 ^ 53"
  shows "rounded2 False z 1 c = d_nat n"
proof -
  obtain m e where me: "d_nat n = Fin False m e" "normal (Fin False m e)" "of_int m * 2 powi e = real n"
    using assms(3) by (rule d_nat_Fin)
  obtain a b where ab: "0 < a" "0 < b" "rounded2 False z 1 c = rounded False a b" "ratio a b = ratio z 1 * 2 powi c"
    by (rule rounded2_frac [OF assms(1), of 1]) simp
  have "rounded False a b = Fin False m e"
    by (rule rounded_exact [OF ab(1,2) me(2)]) (use ab(4) assms(2) me(3) in simp)
  then show ?thesis using me(1) ab(3) by simp
qed

lemma d_nat_plus:
  assumes "a + b < 2 ^ 53"
  shows "d_nat a + d_nat b = d_nat (a + b)"
proof -
  obtain m e where a: "d_nat a = Fin False m e" "normal (Fin False m e)" "of_int m * 2 powi e = real a"
    by (rule d_nat_Fin [of a]) (use assms in simp)
  obtain n f where b: "d_nat b = Fin False n f" "normal (Fin False n f)" "of_int n * 2 powi f = real b"
    by (rule d_nat_Fin [of b]) (use assms in simp)
  have nn: "not_neg (Fin False m e)" "not_neg (Fin False n f)" using a(2) b(2) by simp_all
  obtain z where z: "0 \<le> z" "of_int z * (2 :: real) powi common m e n f = val (Fin False m e) + val (Fin False n f)"
    "Fin False m e + Fin False n f = (if z = 0 then Fin (False \<and> False) 0 (-1074) else rounded2 False z 1 (common m e n f))"
    by (rule plus_Fin_not_neg [OF nn])
  have sum: "of_int z * (2 :: real) powi common m e n f = real (a + b)"
    using z(2) a(3) b(3) by (simp add: with_sign_def)
  show ?thesis
  proof (cases "z = 0")
    case True
    then have "a + b = 0" using sum by simp
    then show ?thesis using a(1) b(1) z(3) True by (simp add: d_lit_def rounded_def)
  next
    case False
    then have "rounded2 False z 1 (common m e n f) = d_nat (a + b)" using z(1) by (intro rounded2_nat sum assms) simp
    then show ?thesis using a(1) b(1) z(3) False by simp
  qed
qed

lemma d_nat_times:
  assumes "a * b < 2 ^ 53" "a < 2 ^ 53" "b < 2 ^ 53"
  shows "d_nat a * d_nat b = d_nat (a * b)"
proof -
  obtain m e where a: "d_nat a = Fin False m e" "normal (Fin False m e)" "of_int m * 2 powi e = real a"
    by (rule d_nat_Fin [OF assms(2)])
  obtain n f where b: "d_nat b = Fin False n f" "normal (Fin False n f)" "of_int n * 2 powi f = real b"
    by (rule d_nat_Fin [OF assms(3)])
  have prod: "of_int (m * n) * (2 :: real) powi (e + f) = real (a * b)"
    using a(3) b(3) by (simp add: powi_split) (metis mult.assoc mult.commute)
  have mul: "d_nat a * d_nat b = rounded2 False (m * n) 1 (e + f)" by (simp add: a(1) b(1))
  show ?thesis
  proof (cases "m * n = 0")
    case True
    then have "of_int (m * n) * (2 :: real) powi (e + f) = 0" by simp
    then have "real (a * b) = 0" unfolding prod .
    then have "a * b = 0" by (simp only: of_nat_eq_0_iff)
    then show ?thesis using mul True by (simp add: rounded2_0 d_lit_def rounded_def)
  next
    case False
    then have "0 < m * n" using a(2) b(2) by auto
    then show ?thesis unfolding mul using prod assms(1) by (rule rounded2_nat)
  qed
qed

lemma d_nat_less:
  assumes "a < 2 ^ 53" "b < 2 ^ 53"
  shows "d_nat a < d_nat b \<longleftrightarrow> a < b"
proof -
  obtain m e where a: "d_nat a = Fin False m e" "of_int m * (2 :: real) powi e = real a"
    by (rule d_nat_Fin [OF assms(1)])
  obtain n f where b: "d_nat b = Fin False n f" "of_int n * (2 :: real) powi f = real b"
    by (rule d_nat_Fin [OF assms(2)])
  show ?thesis unfolding a(1) b(1) less_Fin using a(2) b(2) by (simp add: with_sign_def)
qed

end
