(* ===== verification/Strtod.thy ===== *)
theory Strtod
  imports DoubleNat CString
begin

text \<open>
  \<open>strtod\<close> of the C library in the C locale: decimal and hexadecimal numbers, infinities and NaN. The
  value is the double nearest to the number. Whether a result below the normal range sets
  \<open>ERANGE\<close> is left to the library; here it does, as in the usual ones.
\<close>

section \<open>The parts of a number\<close>

definition base_val :: "int \<Rightarrow> string \<Rightarrow> int" where
  "base_val b ds = foldl (\<lambda>a c. b * a + (case hex_val c of Some n \<Rightarrow> int n | None \<Rightarrow> 0)) 0 ds"

text \<open>The sign, and the digits before and after the point with the rest; at least one digit.\<close>

definition sign_of :: "string \<Rightarrow> bool \<times> string" where
  "sign_of s =
     (case s of [] \<Rightarrow> (False, s)
      | c # t \<Rightarrow> if c = CHR ''-'' then (True, t) else if c = CHR ''+'' then (False, t) else (False, s))"

definition digits_of :: "(char \<Rightarrow> bool) \<Rightarrow> string \<Rightarrow> (string \<times> string \<times> string) option" where
  "digits_of P s =
     (let ip = takeWhile P s; r = dropWhile P s;
          fp = (if r \<noteq> [] \<and> hd r = CHR ''.'' then takeWhile P (tl r) else []);
          r = (if r \<noteq> [] \<and> hd r = CHR ''.'' then dropWhile P (tl r) else r)
      in if ip = [] \<and> fp = [] then None else Some (ip, fp, r))"

text \<open>An exponent after the letter \<open>c\<close>; without digits there is none.\<close>

definition exponent_of :: "char \<Rightarrow> string \<Rightarrow> int \<times> string" where
  "exponent_of c s =
     (if s \<noteq> [] \<and> lower (hd s) = c
      then (case sign_of (tl s) of (neg, t) \<Rightarrow>
        let ds = takeWhile is_digit t
        in if ds = [] then (0, s) else (if neg then - base_val 10 ds else base_val 10 ds, dropWhile is_digit t))
      else (0, s))"

text \<open>\<open>n * b ^ e\<close> rounded, and whether it is out of range.\<close>

definition scaled :: "bool \<Rightarrow> int \<Rightarrow> int \<Rightarrow> int \<Rightarrow> double" where
  "scaled neg n b e = (if 0 \<le> e then rounded neg (n * b ^ nat e) 1 else rounded neg n (b ^ nat (- e)))"

fun out_of_range :: "int \<Rightarrow> double \<Rightarrow> bool" where
  "out_of_range n (Fin s m e) \<longleftrightarrow> n \<noteq> 0 \<and> m < 2 ^ 52"
| "out_of_range n _ \<longleftrightarrow> True"

section \<open>The conversion\<close>

definition starts :: "string \<Rightarrow> string \<Rightarrow> bool" where
  "starts p s \<longleftrightarrow> map lower (take (length p) s) = p"

text \<open>\<open>NaN\<close> with or without a sequence of characters in parentheses: the rest.\<close>

definition nan_rest :: "string \<Rightarrow> string" where
  "nan_rest s =
     (if s \<noteq> [] \<and> hd s = CHR ''(''
      then let t = dropWhile (\<lambda>c. is_alpha c \<or> is_digit c \<or> c = CHR ''_'') (tl s)
           in if t \<noteq> [] \<and> hd t = CHR '')'' then tl t else s
      else s)"

text \<open>What follows the sign: the value, the rest and \<open>ERANGE\<close>, or nothing.\<close>

definition is_hex :: "char \<Rightarrow> bool" where "is_hex c \<longleftrightarrow> hex_val c \<noteq> None"

definition decimal :: "bool \<Rightarrow> string \<Rightarrow> (double \<times> string \<times> bool) option" where
  "decimal neg s =
     (case digits_of is_digit s of
        None \<Rightarrow> None
      | Some (ip, fp, r) \<Rightarrow>
          (case exponent_of CHR ''e'' r of (e, r) \<Rightarrow>
             let n = base_val 10 (ip @ fp); d = scaled neg n 10 (e - int (length fp))
             in Some (d, r, out_of_range n d)))"

definition hexadecimal :: "bool \<Rightarrow> string \<Rightarrow> (double \<times> string \<times> bool) option" where
  "hexadecimal neg s =
     (case digits_of is_hex s of
        None \<Rightarrow> None
      | Some (ip, fp, r) \<Rightarrow>
          (case exponent_of CHR ''p'' r of (e, r) \<Rightarrow>
             let n = base_val 16 (ip @ fp); d = scaled neg n 2 (e - 4 * int (length fp))
             in Some (d, r, out_of_range n d)))"

definition number_after :: "bool \<Rightarrow> string \<Rightarrow> (double \<times> string \<times> bool) option" where
  "number_after neg s =
     (if starts ''infinity'' s then Some (Infty neg, drop 8 s, False)
      else if starts ''inf'' s then Some (Infty neg, drop 3 s, False)
      else if starts ''nan'' s then Some (NaN, nan_rest (drop 3 s), False)
      else if starts ''0x'' s \<and> hexadecimal neg (drop 2 s) \<noteq> None then hexadecimal neg (drop 2 s)
      else decimal neg s)"

text \<open>Without a number nothing is read, not even the spaces before.\<close>

definition strtod :: "string \<Rightarrow> double \<times> string \<times> bool" where
  "strtod s =
     (case sign_of (dropWhile is_space s) of (neg, t) \<Rightarrow>
        (case number_after neg t of None \<Rightarrow> (0, s, False) | Some res \<Rightarrow> res))"

section \<open>Decimal numerals\<close>

lemma digit_char_facts:
  assumes "is_digit c"
  shows "lower c = c" "hex_val c = Some (of_char c - 48)" "int (of_char c - 48) = of_char c - 48"
proof -
  obtain n :: nat where n: "n = of_char c" "48 \<le> n" "n \<le> 57" using assms by (simp add: is_digit_def)
  show "lower c = c" using n by (simp add: lower_def)
  show "hex_val c = Some (of_char c - 48)" using n by (simp add: hex_val_def Let_def)
  have "int (of_char c) = of_char c" by (rule of_nat_of_char)
  then show "int (of_char c - 48) = of_char c - 48" using n by (simp add: of_nat_diff)
qed

lemma base_val_digits: "list_all is_digit ds \<Longrightarrow> base_val 10 ds = digits_val ds"
proof (induction ds rule: rev_induct)
  case (snoc c ds)
  then show ?case using digit_char_facts(2,3) [of c] by (simp add: base_val_def digits_val_def)
qed (simp add: base_val_def digits_val_def)

text \<open>A word that has a letter does not start a numeral.\<close>

lemma not_starts:
  assumes "list_all is_digit s" "c \<in> set p" "\<not> is_digit c"
  shows "\<not> starts p s"
proof
  assume "starts p s"
  then have "c \<in> lower ` set (take (length p) s)" using assms(2) unfolding starts_def by (metis list.set_map)
  then obtain d where "d \<in> set s" "c = lower d" using set_take_subset by fastforce
  then show False using assms(1,3) digit_char_facts(1) [of d] by (auto simp: list_all_iff)
qed

lemma d_nat_in_range:
  assumes "n < 2 ^ 53"
  shows "\<not> out_of_range (int n) (d_nat n)"
proof -
  obtain m e where me: "d_nat n = Fin False m e" "normal (Fin False m e)" "of_int m * 2 powi e = real n"
    using assms by (rule d_nat_Fin)
  have "n = 0 \<or> 2 ^ 52 \<le> m"
  proof (rule disjCI)
    assume "\<not> 2 ^ 52 \<le> m"
    then have e: "e = - 1074" "m < 2 ^ 53" using me(2) by auto
    have "real n < 2 ^ 53 * 2 powi (- 1074)" using me(3) e by (metis mult_strict_right_mono of_int_less_iff of_int_numeral of_int_power powi_pos)
    also have "\<dots> = 2 powi (- 1021)" using powi_split [of 53 "- 1074"] powi_nat [of 53] by simp
    also have "\<dots> \<le> 2 powi 0" by (rule powi_le) simp
    finally show "n = 0" by simp
  qed
  then show ?thesis unfolding me(1) by auto
qed

lemma strtod_dec:
  assumes "n < 2 ^ 53"
  shows "strtod (dec n) = (d_nat n, [], False)"
proof -
  obtain d ds where d: "dec n = d # ds" "is_digit d" using dec_cons by blast
  have all: "list_all is_digit (dec n)" by (rule dec_digits)
  have tw: "takeWhile is_digit (dec n) = dec n" "dropWhile is_digit (dec n) = []"
    using all by (auto simp: list_all_iff)
  have sign: "sign_of (dropWhile is_space (dec n)) = (False, dec n)"
    using is_digit_facts [OF d(2)] by (simp add: d(1) sign_of_def)
  have parts: "digits_of is_digit (dec n) = Some (dec n, [], [])"
    unfolding digits_of_def Let_def tw using dec_ne [of n] by simp
  have "base_val 10 (dec n) = int n" using base_val_digits [OF all] digits_val_dec by simp
  then have num: "decimal False (dec n) = Some (d_nat n, [], False)"
    using d_nat_in_range [OF assms] by (simp add: decimal_def parts exponent_of_def scaled_def d_lit_def Let_def)
  have words: "\<not> starts ''infinity'' (dec n)" "\<not> starts ''inf'' (dec n)" "\<not> starts ''nan'' (dec n)" "\<not> starts ''0x'' (dec n)"
    by (rule not_starts [OF all, of "CHR ''i''"], simp, simp add: is_digit_def,
      rule not_starts [OF all, of "CHR ''i''"], simp, simp add: is_digit_def,
      rule not_starts [OF all, of "CHR ''n''"], simp, simp add: is_digit_def,
      rule not_starts [OF all, of "CHR ''x''"], simp, simp add: is_digit_def)
  show ?thesis
    unfolding strtod_def sign prod.case number_after_def using words num by simp
qed

end
