(* ===== verification/Dbstat.thy ===== *)
theory Dbstat
  imports Strtod
begin

text \<open>
  The client 29_dbstat: the options, the check of the names, the query built from them, the
  statistics of the rows on IEEE doubles, and \<open>main\<close>. The database server is a parameter; the two
  counters are numbers that do not wrap around.
\<close>

section \<open>Options and names\<close>

text \<open>\<open>None\<close> is a null pointer.\<close>

record arguments =
  a_host :: string
  a_user :: string
  a_pass :: string
  a_db :: "string option"
  a_table :: "string option"
  a_column :: "string option"

definition arguments_init :: arguments where
  "arguments_init = \<lparr>a_host = ''localhost'', a_user = ''root'', a_pass = ''my-secret-pw'',
     a_db = None, a_table = None, a_column = None\<rparr>"

fun read_opts :: "(char \<times> string option) list \<Rightarrow> arguments \<Rightarrow> arguments option" where
  "read_opts [] a = Some a"
| "read_opts ((c, None) # os) a = None"
| "read_opts ((c, Some optarg) # os) a =
     (if c = CHR ''h'' then read_opts os (a\<lparr>a_host := optarg\<rparr>)
      else if c = CHR ''u'' then read_opts os (a\<lparr>a_user := optarg\<rparr>)
      else if c = CHR ''p'' then read_opts os (a\<lparr>a_pass := optarg\<rparr>)
      else if c = CHR ''d'' then read_opts os (a\<lparr>a_db := Some optarg\<rparr>)
      else if c = CHR ''t'' then read_opts os (a\<lparr>a_table := Some optarg\<rparr>)
      else if c = CHR ''c'' then read_opts os (a\<lparr>a_column := Some optarg\<rparr>)
      else None)"

definition parse_arguments :: "string list \<Rightarrow> arguments option" where
  "parse_arguments argv =
     (case read_opts (getopt_all ''h:u:p:d:t:c:'' [] argv) arguments_init of
        None \<Rightarrow> None
      | Some a \<Rightarrow> if a_db a = None \<or> a_table a = None \<or> a_column a = None then None else Some a)"

definition ident_char :: "char \<Rightarrow> bool" where
  "ident_char c \<longleftrightarrow> is_alpha c \<or> is_digit c \<or> c = CHR ''_'' \<or> c = CHR ''$''"

definition is_valid_identifier :: "string option \<Rightarrow> bool" where
  "is_valid_identifier s = (case s of None \<Rightarrow> False | Some s \<Rightarrow> s \<noteq> [] \<and> list_all ident_char s)"

definition validate_identifiers :: "arguments \<Rightarrow> bool" where
  "validate_identifiers a =
     (is_valid_identifier (a_db a) \<and> is_valid_identifier (a_table a) \<and> is_valid_identifier (a_column a))"

section \<open>The query\<close>

definition bq :: char where "bq = CHR 0x60"

definition build_query :: "arguments \<Rightarrow> string option" where
  "build_query a =
     (let query = ''SELECT '' @ [bq] @ the (a_column a) @ [bq] @ '' FROM '' @ [bq] @ the (a_table a) @ [bq]
      in if length query \<ge> 512 then None else Some query)"

text \<open>What the server does with a query: the number of columns and, per row, the first one.\<close>

datatype answer = Failure | Result nat "string option list"

text \<open>The query sent, if any, and the rows when it went well.\<close>

definition execute_query :: "(string \<Rightarrow> answer) \<Rightarrow> arguments \<Rightarrow> string list \<times> string option list option" where
  "execute_query server a =
     (case build_query a of
        None \<Rightarrow> ([], None)
      | Some q \<Rightarrow>
          (case server q of
             Failure \<Rightarrow> ([q], None)
           | Result num_fields rows \<Rightarrow> ([q], if num_fields \<noteq> 1 then None else Some rows)))"

section \<open>The statistics\<close>

text \<open>The pair \<open>min\<close>, \<open>max\<close> is not there (\<open>None\<close>) until the first value.\<close>

record stats =
  s_count :: nat
  s_skipped :: nat
  s_sum :: double
  s_sum_sq :: double
  s_min_max :: "(double \<times> double) option"

definition numeric :: "string option \<Rightarrow> double option" where
  "numeric row0 =
     (case row0 of
        None \<Rightarrow> None
      | Some v \<Rightarrow>
          (case strtod v of
             (d, endptr, erange) \<Rightarrow>
               if erange then None
               else if endptr = v \<or> endptr \<noteq> [] then None
               else Some d))"

definition row_step :: "stats \<Rightarrow> string option \<Rightarrow> stats" where
  "row_step s row0 =
     (case numeric row0 of
        None \<Rightarrow> s\<lparr>s_skipped := s_skipped s + 1\<rparr>
      | Some d \<Rightarrow>
          s\<lparr>s_min_max := (case s_min_max s of
              None \<Rightarrow> Some (d, d)
            | Some (mn, mx) \<Rightarrow> Some (if d < mn then d else mn, if mx < d then d else mx)),
            s_sum := s_sum s + d,
            s_sum_sq := s_sum_sq s + d * d,
            s_count := s_count s + 1\<rparr>)"

definition stats_init :: stats where
  "stats_init = \<lparr>s_count = 0, s_skipped = 0, s_sum = 0, s_sum_sq = 0, s_min_max = None\<rparr>"

definition process_rows :: "string option list \<Rightarrow> stats option" where
  "process_rows rows =
     (let s = foldl row_step stats_init rows in if s_count s = 0 then None else Some s)"

text \<open>The numbers that \<open>print_statistics\<close> prints; the line of the skipped only when there are any.\<close>

record report =
  r_count :: nat
  r_skipped :: "nat option"
  r_sum :: double
  r_mean :: double
  r_min_max :: "(double \<times> double) option"
  r_variance :: double

definition print_statistics :: "stats \<Rightarrow> report" where
  "print_statistics s =
     (let mean = s_sum s / d_nat (s_count s);
          variance = s_sum_sq s / d_nat (s_count s) - mean * mean
      in \<lparr>r_count = s_count s, r_skipped = (if s_skipped s > 0 then Some (s_skipped s) else None),
          r_sum = s_sum s, r_mean = mean, r_min_max = s_min_max s, r_variance = variance\<rparr>)"

text \<open>
  \<open>main\<close>: the queries sent and what is printed; the exit status is success exactly when there is a
  report. \<open>connect\<close> tells whether \<open>mysql_init\<close> and \<open>mysql_real_connect\<close> succeed.
\<close>

definition dbstat_main ::
  "(arguments \<Rightarrow> bool) \<Rightarrow> (string \<Rightarrow> answer) \<Rightarrow> string list \<Rightarrow> string list \<times> report option" where
  "dbstat_main connect server argv =
     (case parse_arguments argv of
        None \<Rightarrow> ([], None)
      | Some a \<Rightarrow>
          if \<not> validate_identifiers a then ([], None)
          else if \<not> connect a then ([], None)
          else (case execute_query server a of
                  (qs, None) \<Rightarrow> (qs, None)
                | (qs, Some rows) \<Rightarrow>
                    (case process_rows rows of
                       None \<Rightarrow> (qs, None)
                     | Some s \<Rightarrow> (qs, Some (print_statistics s)))))"

section \<open>No injection\<close>

text \<open>The pieces of a query between its back quotes.\<close>

fun pieces :: "string \<Rightarrow> string list" where
  "pieces [] = [[]]"
| "pieces (c # s) = (if c = bq then [] # pieces s else (c # hd (pieces s)) # tl (pieces s))"

lemma pieces_skip: "bq \<notin> set s \<Longrightarrow> pieces (s @ bq # t) = s # pieces t"
  by (induction s) auto

definition names_only :: "string \<Rightarrow> string \<Rightarrow> string \<Rightarrow> bool" where
  "names_only q col tbl \<longleftrightarrow> pieces q = [''SELECT '', col, '' FROM '', tbl, []] \<and>
     list_all ident_char col \<and> list_all ident_char tbl"

lemma build_query_names:
  assumes "validate_identifiers a" and "build_query a = Some q"
  shows "names_only q (the (a_column a)) (the (a_table a)) \<and> length q < 512"
proof -
  obtain col tbl where names: "a_column a = Some col" "a_table a = Some tbl"
      "list_all ident_char col" "list_all ident_char tbl"
    using assms(1) by (auto simp: validate_identifiers_def is_valid_identifier_def split: option.splits)
  have "\<not> ident_char bq" by (simp add: ident_char_def bq_def is_alpha_def is_digit_def)
  then have clean: "bq \<notin> set col" "bq \<notin> set tbl"
    using names(3,4) by (auto simp: list_all_iff)
  have q: "q = ''SELECT '' @ bq # col @ bq # '' FROM '' @ bq # tbl @ bq # []" "length q < 512"
    using assms(2) names by (auto simp: build_query_def Let_def split: if_splits)
  have words: "bq \<notin> set ''SELECT ''" "bq \<notin> set '' FROM ''" by (simp_all add: bq_def)
  have "pieces q = [''SELECT '', col, '' FROM '', tbl, []]"
    unfolding q(1) by (simp only: pieces_skip [OF words(1)] pieces_skip [OF words(2)]
        pieces_skip [OF clean(1)] pieces_skip [OF clean(2)] pieces.simps(1))
  then show ?thesis using names q(2) by (simp add: names_only_def)
qed

text \<open>
  Property C29. Whatever the command line, a query that reaches the server is a SELECT of one column
  from one table: between its four back quotes stand two names made of letters, digits, underscores
  and dollar signs only, exactly those of the options, and it fits its buffer.
\<close>

theorem queries_are_selects:
  assumes "q \<in> set (fst (dbstat_main connect server argv))"
  shows "\<exists>a. parse_arguments argv = Some a \<and> names_only q (the (a_column a)) (the (a_table a)) \<and> length q < 512"
  using assms build_query_names
  by (fastforce simp: dbstat_main_def execute_query_def split: option.splits if_splits prod.splits answer.splits)

section \<open>The statistics are those of the numeric values\<close>






section \<open>A column of natural numbers\<close>

text \<open>A cell: the decimal numeral of a number, or any other contents.\<close>

definition cell :: "nat + string option \<Rightarrow> string option" where
  "cell x = (case x of Inl n \<Rightarrow> Some (dec n) | Inr c \<Rightarrow> c)"


lemma cell_simps [simp]: "cell (Inl n) = Some (dec n)" "cell (Inr c) = c"
  by (simp_all add: cell_def)










definition rows_a :: "string option list" where
  "rows_a = [Some ''36'', None, Some ''n/a'', Some ''21'', Some ''80'']"

lemma queries_are_selects_witness:
  "case dbstat_main (\<lambda>_. True) (\<lambda>_. Result 1 rows_a) [''-d'', ''movies'', ''-t'', ''oscar'', ''-cage''] of
     (qs, r) \<Rightarrow> length qs = 1 \<and> (\<forall>q \<in> set qs. names_only q ''age'' ''oscar'') \<and> r \<noteq> None"
proof -
  let ?argv = "[''-d'', ''movies'', ''-t'', ''oscar'', ''-cage'']"
  let ?run = "dbstat_main (\<lambda>_. True) (\<lambda>_. Result 1 rows_a) ?argv"
  have args: "parse_arguments ?argv = Some \<lparr>a_host = ''localhost'', a_user = ''root'', a_pass = ''my-secret-pw'',
      a_db = Some ''movies'', a_table = Some ''oscar'', a_column = Some ''age''\<rparr>"
    by (simp add: parse_arguments_def arguments_init_def)
  have "length (fst ?run) = 1 \<and> snd ?run \<noteq> None" by code_simp
  moreover have "names_only q ''age'' ''oscar''" if "q \<in> set (fst ?run)" for q
    using queries_are_selects [OF that] args by auto
  ultimately show ?thesis by (simp add: case_prod_beta)
qed

section \<open>What is not a number, and rounding\<close>

text \<open>
  \<open>strtod\<close> reads the text \<open>nan\<close> as a value that compares with nothing. As the first value of the
  column it stays the minimum and the maximum.
\<close>

lemma nan_hides_values:
  "map_option s_min_max (process_rows [Some ''nan'', Some ''5'', Some ''7'']) = Some (Some (NaN, NaN))"
  by code_simp

text \<open>The variance of equal values can come out below zero.\<close>

lemma negative_variance:
  "map_option (\<lambda>s. r_variance (print_statistics s) < 0)
    (process_rows [Some ''0.1'', Some ''0.1'', Some ''0.1'']) = Some True"
  by code_simp

end
