(* ===== verification/LinkedList.thy ===== *)
theory LinkedList
  imports CString
begin

text \<open>
  The list exercise 09_assembler_homework, its C program: cells in an explicit store, the push, map,
  filter and delete of \<open>main.c\<close> on pointers, and \<open>main\<close>, whose table of numbers is a parameter.
\<close>

section \<open>The store\<close>

type_synonym long_int = "64 word"
type_synonym ptr = "nat option"   \<comment> \<open>\<open>None\<close> is the null pointer\<close>

text \<open>The cells by address, the next address \<open>malloc\<close> gives, and how often it still succeeds.\<close>

record heap =
  h_cells :: "nat \<Rightarrow> (long_int \<times> ptr) option"
  h_fresh :: nat
  h_avail :: nat

definition add_element :: "long_int \<Rightarrow> ptr \<Rightarrow> heap \<Rightarrow> ptr \<times> heap" where
  "add_element value lst h =
     (if h_avail h = 0 then (lst, h)
      else (Some (h_fresh h),
        \<lparr>h_cells = (h_cells h)(h_fresh h \<mapsto> (value, lst)), h_fresh = h_fresh h + 1, h_avail = h_avail h - 1\<rparr>))"

text \<open>\<open>m\<close>, with a function that changes the state \<open>'w\<close>. \<open>None\<close> is a recursion without end.\<close>

partial_function (option) map_list ::
  "(long_int \<Rightarrow> 'w \<Rightarrow> 'w) \<Rightarrow> heap \<Rightarrow> ptr \<Rightarrow> 'w \<Rightarrow> 'w run" where
  "map_list func h head w =
     (case head of
        None \<Rightarrow> Some (Inr w)
      | Some a \<Rightarrow>
          (case h_cells h a of
             None \<Rightarrow> Some (Inl UseAfterFree)
           | Some (value, nxt) \<Rightarrow> map_list func h nxt (func value w)))"

text \<open>\<open>f\<close>: the list it returns in \<open>newList\<close>, and the store.\<close>

partial_function (option) filter_list ::
  "(long_int \<Rightarrow> long_int) \<Rightarrow> ptr \<Rightarrow> ptr \<Rightarrow> heap \<Rightarrow> (ptr \<times> heap) run" where
  "filter_list func head newList h =
     (case head of
        None \<Rightarrow> Some (Inr (newList, h))
      | Some a \<Rightarrow>
          (case h_cells h a of
             None \<Rightarrow> Some (Inl UseAfterFree)
           | Some (value, nxt) \<Rightarrow>
               (case (if func value \<noteq> 0 then add_element value newList h else (newList, h)) of
                  (newList, h) \<Rightarrow> filter_list func nxt newList h)))"

definition free_cell :: "nat \<Rightarrow> heap \<Rightarrow> heap" where
  "free_cell a h = h\<lparr>h_cells := (h_cells h)(a := None)\<rparr>"

text \<open>\<open>deleteList\<close>, called with the address of a variable; it reads the first cell unconditionally.\<close>

partial_function (option) delete_list :: "ptr \<Rightarrow> heap \<Rightarrow> heap run" where
  "delete_list head h =
     (case head of
        None \<Rightarrow> Some (Inl NullDeref)
      | Some a \<Rightarrow>
          (case h_cells h a of
             None \<Rightarrow> Some (Inl UseAfterFree)
           | Some (value, None) \<Rightarrow> Some (Inr (free_cell a h))
           | Some (value, Some b) \<Rightarrow> delete_list (Some b) (free_cell a h)))"

section \<open>The program\<close>

definition print_int :: "long_int \<Rightarrow> string \<Rightarrow> string" where
  "print_int value out = out @ dec_int (sint value) @ '' ''"

definition p :: "long_int \<Rightarrow> long_int" where
  "p value = value AND 1"

text \<open>The loop that pushes the table from its end; \<open>n\<close> is \<open>data_length\<close>.\<close>

fun push_data :: "long_int list \<Rightarrow> nat \<Rightarrow> ptr \<Rightarrow> heap \<Rightarrow> ptr \<times> heap" where
  "push_data data 0 head h = (head, h)"
| "push_data data (Suc n) head h =
     (case add_element (data ! n) head h of (head, h) \<Rightarrow> push_data data n head h)"

text \<open>\<open>puts(&empty_str)\<close>.\<close>

definition puts_empty :: "string \<Rightarrow> string" where "puts_empty out = out @ [CHR 0x0A]"

definition list_main :: "long_int list \<Rightarrow> heap \<Rightarrow> (string \<times> heap) run" where
  "list_main data h =
     (case push_data data (length data) None h of
        (head, h) \<Rightarrow>
          bindR (map_list print_int h head []) (\<lambda>out.
          bindR (filter_list p head None h) (\<lambda>(newList, h).
          bindR (map_list print_int h newList (puts_empty out)) (\<lambda>out.
          bindR (delete_list head h) (\<lambda>h.
          bindR (delete_list newList h) (\<lambda>h.
          Some (Inr (puts_empty out, h))))))))"

section \<open>Lists in the store\<close>

fun chain :: "(nat \<Rightarrow> (long_int \<times> ptr) option) \<Rightarrow> ptr \<Rightarrow> (nat \<times> long_int) list \<Rightarrow> bool" where
  "chain C q [] \<longleftrightarrow> q = None"
| "chain C q ((a, v) # xs) \<longleftrightarrow> q = Some a \<and> (\<exists>nxt. C a = Some (v, nxt) \<and> chain C nxt xs)"

lemma chain_cong:
  "(\<And>a. a \<in> fst ` set xs \<Longrightarrow> C a = D a) \<Longrightarrow> chain C q xs = chain D q xs"
  by (induction D q xs rule: chain.induct) auto

lemma cells_upd [simp]: "a \<notin> fst ` set xs \<Longrightarrow> chain (C(a := c)) q xs = chain C q xs"
  by (rule chain_cong) auto

text \<open>All cells lie below the next address, and \<open>xs\<close> is a list at \<open>q\<close> on addresses of its own.\<close>

definition has_list :: "heap \<Rightarrow> ptr \<Rightarrow> (nat \<times> long_int) list \<Rightarrow> bool" where
  "has_list h q xs \<longleftrightarrow> chain (h_cells h) q xs \<and> distinct (map fst xs) \<and> (\<forall>a \<in> fst ` set xs. a < h_fresh h)"

lemma add_element_list:
  assumes "has_list h q xs" and "0 < h_avail h"
  shows "\<exists>h'. add_element v q h = (Some (h_fresh h), h') \<and> has_list h' (Some (h_fresh h)) ((h_fresh h, v) # xs) \<and>
    h_cells h' = (h_cells h)(h_fresh h \<mapsto> (v, q)) \<and> h_fresh h' = Suc (h_fresh h) \<and> h_avail h' = h_avail h - 1"
proof -
  have "h_fresh h \<notin> fst ` set xs" using assms(1) by (auto simp: has_list_def)
  then show ?thesis
    using assms by (auto simp: add_element_def has_list_def)
qed

text \<open>A new cell leaves a list that is there alone.\<close>

lemma has_list_new:
  assumes "has_list h q xs" and "h_cells h' = (h_cells h)(h_fresh h \<mapsto> c)" and "h_fresh h \<le> h_fresh h'"
  shows "has_list h' q xs"
proof -
  have "h_fresh h \<notin> fst ` set xs" using assms(1) by (auto simp: has_list_def)
  then show ?thesis using assms by (fastforce simp: has_list_def)
qed

lemma map_list_chain:
  "chain (h_cells h) q xs \<Longrightarrow> map_list func h q w = Some (Inr (fold func (map snd xs) w))"
  by (induction "h_cells h" q xs arbitrary: w rule: chain.induct) (subst map_list.simps; fastforce)+

lemma filter_list_chain:
  assumes "has_list h q xs" and "has_list h r ys" and "length (filter (\<lambda>v. func v \<noteq> 0) (map snd xs)) \<le> h_avail h"
    and "fst ` set ys \<inter> old = {}" and "dom (h_cells h) = old \<union> fst ` set ys" and "fst ` set xs \<subseteq> old"
    and "\<forall>a \<in> old. a < h_fresh h"
  shows "\<exists>r' h' zs. filter_list func q r h = Some (Inr (r', h')) \<and> has_list h' r' (zs @ ys) \<and>
    map snd zs = rev (filter (\<lambda>v. func v \<noteq> 0) (map snd xs)) \<and>
    fst ` set (zs @ ys) \<inter> old = {} \<and> dom (h_cells h') = old \<union> fst ` set (zs @ ys) \<and>
    (\<forall>a \<in> old. h_cells h' a = h_cells h a)"
  using assms
proof (induction xs arbitrary: h q r ys)
  case Nil
  then show ?case
    by (intro exI [of _ r] exI [of _ h] exI [of _ "[]"]) (simp add: has_list_def filter_list.simps)
next
  case (Cons x xs)
  obtain a v where x: "x = (a, v)" by (cases x)
  obtain nxt where cell: "q = Some a" "h_cells h a = Some (v, nxt)" "has_list h nxt xs"
    using Cons.prems(1) x by (auto simp: has_list_def)
  show ?case
  proof (cases "func v = 0")
    case True
    then have "filter_list func q r h = filter_list func nxt r h"
      using cell by (simp add: filter_list.simps)
    then show ?thesis using Cons.IH [OF cell(3)] Cons.prems x True by simp
  next
    case False
    then have room: "0 < h_avail h" using Cons.prems(3) x by simp
    let ?n = "h_fresh h"
    obtain h1 where h1: "add_element v r h = (Some ?n, h1)" "has_list h1 (Some ?n) ((?n, v) # ys)"
        "h_cells h1 = (h_cells h)(?n \<mapsto> (v, r))" "h_fresh h1 = Suc ?n" "h_avail h1 = h_avail h - 1"
      using add_element_list [OF Cons.prems(2) room] by blast
    have run: "filter_list func q r h = filter_list func nxt (Some ?n) h1"
      using cell False h1(1) by (simp add: filter_list.simps)
    have new: "?n \<notin> old" using Cons.prems(7) by blast
    have few: "length (filter (\<lambda>v. func v \<noteq> 0) (map snd xs)) \<le> h_avail h1"
      using Cons.prems(3) x False h1(5) by simp
    have apart: "fst ` set ((?n, v) # ys) \<inter> old = {}" using new Cons.prems(4) by simp
    have dom1: "dom (h_cells h1) = old \<union> fst ` set ((?n, v) # ys)"
      using Cons.prems(5) unfolding h1(3) by simp
    have sub: "fst ` set xs \<subseteq> old" using Cons.prems(6) by simp
    have bound: "\<forall>b \<in> old. b < h_fresh h1" using Cons.prems(7) h1(4) by (simp add: less_SucI)
    have "has_list h1 nxt xs" using has_list_new [OF cell(3) h1(3)] h1(4) by simp
    then obtain r' h' zs where ih: "filter_list func nxt (Some ?n) h1 = Some (Inr (r', h'))"
        "has_list h' r' (zs @ (?n, v) # ys)" "map snd zs = rev (filter (\<lambda>v. func v \<noteq> 0) (map snd xs))"
        "fst ` set (zs @ (?n, v) # ys) \<inter> old = {}" "dom (h_cells h') = old \<union> fst ` set (zs @ (?n, v) # ys)"
        "\<forall>b \<in> old. h_cells h' b = h_cells h1 b"
      using Cons.IH [OF \<open>has_list h1 nxt xs\<close> h1(2) few apart dom1 sub bound]
      by (elim exE conjE) (rule that; assumption)
    let ?zs = "zs @ [(?n, v)]"
    have g1: "filter_list func q r h = Some (Inr (r', h'))" using run ih(1) by simp
    have g2: "has_list h' r' (?zs @ ys)" using ih(2) by simp
    have g3: "map snd ?zs = rev (filter (\<lambda>v. func v \<noteq> 0) (map snd (x # xs)))"
      using ih(3) x False by simp
    have same: "set (?zs @ ys) = set (zs @ (?n, v) # ys)" by auto
    have g4: "fst ` set (?zs @ ys) \<inter> old = {}" unfolding same by (rule ih(4))
    have g5: "dom (h_cells h') = old \<union> fst ` set (?zs @ ys)" unfolding same by (rule ih(5))
    have g6: "\<forall>b \<in> old. h_cells h' b = h_cells h b" using ih(6) h1(3) new by auto
    show ?thesis by (intro exI conjI) (rule g1, rule g2, rule g3, rule g4, rule g5, rule g6)
  qed
qed

lemma delete_list_chain:
  assumes "chain (h_cells h) q xs" and "xs \<noteq> []" and "distinct (map fst xs)"
  shows "\<exists>h'. delete_list q h = Some (Inr h') \<and> h_cells h' = (h_cells h) |` (- fst ` set xs)"
  using assms
proof (induction xs arbitrary: h q)
  case (Cons x xs)
  obtain a v where x: "x = (a, v)" by (cases x)
  obtain nxt where cell: "q = Some a" "h_cells h a = Some (v, nxt)" "chain (h_cells h) nxt xs"
    using Cons.prems(1) x by auto
  have "a \<notin> fst ` set xs" using Cons.prems(3) x by simp
  then have rest: "chain (h_cells (free_cell a h)) nxt xs"
    using cell(3) by (simp add: free_cell_def)
  have out: "h_cells (free_cell a h) |` (- fst ` set xs) = h_cells h |` (- fst ` set (x # xs))"
    by (auto simp: free_cell_def restrict_map_def x fun_eq_iff)
  have single: "m(a := None) = m |` (- {a})" for m :: "nat \<Rightarrow> (long_int \<times> ptr) option"
    by (auto simp: restrict_map_def)
  show ?case
  proof (cases nxt)
    case None
    then have "xs = []" using cell(3) by (cases xs) auto
    then show ?thesis
      using cell None x single [of "h_cells h"] by (simp add: delete_list.simps free_cell_def)
  next
    case (Some b)
    then have ne: "xs \<noteq> []" using cell(3) by auto
    have "delete_list q h = delete_list nxt (free_cell a h)"
      using cell Some by (subst delete_list.simps) simp
    then show ?thesis
      using Cons.IH [OF rest ne] Cons.prems(3) out by simp
  qed
qed simp

lemma push_data_list:
  assumes "has_list h q xs" and "n \<le> length data" and "n \<le> h_avail h" and "dom (h_cells h) = fst ` set xs"
  shows "\<exists>q' h' zs. push_data data n q h = (q', h') \<and> has_list h' q' (zs @ xs) \<and>
    map snd zs = take n data \<and> dom (h_cells h') = fst ` set (zs @ xs) \<and> h_avail h' = h_avail h - n"
  using assms
proof (induction n arbitrary: h q xs)
  case (Suc n)
  obtain h1 where h1: "add_element (data ! n) q h = (Some (h_fresh h), h1)"
      "has_list h1 (Some (h_fresh h)) ((h_fresh h, data ! n) # xs)"
      "h_cells h1 = (h_cells h)(h_fresh h \<mapsto> (data ! n, q))" "h_avail h1 = h_avail h - 1"
    using add_element_list [OF Suc.prems(1), of "data ! n"] Suc.prems(3) by auto
  have "dom (h_cells h1) = fst ` set ((h_fresh h, data ! n) # xs)"
    using Suc.prems(4) unfolding h1(3) by simp
  then obtain q' h' zs where ih: "push_data data n (Some (h_fresh h)) h1 = (q', h')"
      "has_list h' q' (zs @ (h_fresh h, data ! n) # xs)" "map snd zs = take n data"
      "dom (h_cells h') = fst ` set (zs @ (h_fresh h, data ! n) # xs)" "h_avail h' = h_avail h1 - n"
    using Suc.IH [OF h1(2)] Suc.prems(2,3) h1(4) by fastforce
  have "take (Suc n) data = take n data @ [data ! n]"
    using Suc.prems(2) by (simp add: take_Suc_conv_app_nth)
  then show ?case
    using ih h1(1,4) by (intro exI [of _ q'] exI [of _ h'] exI [of _ "zs @ [(h_fresh h, data ! n)]"]) simp
qed simp

text \<open>What \<open>m\<close> prints.\<close>

definition printed :: "long_int list \<Rightarrow> string" where
  "printed vs = concat (map (\<lambda>v. dec_int (sint v) @ '' '') vs)"

lemma fold_print: "fold print_int vs out = out @ printed vs"
  by (induction vs arbitrary: out) (simp_all add: print_int_def printed_def)

definition odd_values :: "long_int list \<Rightarrow> long_int list" where
  "odd_values vs = filter (\<lambda>v. v AND 1 \<noteq> 0) vs"

definition empty_heap :: "nat \<Rightarrow> heap" where
  "empty_heap n = \<lparr>h_cells = Map.empty, h_fresh = 0, h_avail = n\<rparr>"

text \<open>
  Property C31. For every table with an odd number in it, and when \<open>malloc\<close> does not fail, the program
  ends without touching a freed cell, prints the table in its order and then the odd numbers in
  reverse, and gives every cell back exactly once.
\<close>

theorem list_program:
  assumes "odd_values data \<noteq> []" and "length data + length (odd_values data) \<le> n"
  shows "\<exists>h. list_main data (empty_heap n) =
      Some (Inr (printed data @ [CHR 0x0A] @ printed (rev (odd_values data)) @ [CHR 0x0A], h)) \<and>
    h_cells h = Map.empty"
proof -
  have p: "(\<lambda>v. p v \<noteq> 0) = (\<lambda>v. v AND 1 \<noteq> 0)" by (simp add: p_def)
  have start: "has_list (empty_heap n) None []" by (simp add: has_list_def empty_heap_def)
  obtain q h xs where push: "push_data data (length data) None (empty_heap n) = (q, h)" "has_list h q xs"
      "map snd xs = data" "dom (h_cells h) = fst ` set xs" "h_avail h = n - length data"
    using push_data_list [OF start, of "length data" data] assms(2) by (auto simp: empty_heap_def)
  have few: "length (filter (\<lambda>v. p v \<noteq> 0) (map snd xs)) \<le> h_avail h"
    using push(3,5) assms(2) by (simp add: p odd_values_def)
  have bound: "\<forall>a \<in> fst ` set xs. a < h_fresh h" using push(2) by (simp add: has_list_def)
  have "has_list h None []" by (simp add: has_list_def)
  from filter_list_chain [OF push(2) this few, of "fst ` set xs"] push(4) bound
  obtain r h' zs where filt: "filter_list p q None h = Some (Inr (r, h'))" "has_list h' r zs"
      "map snd zs = rev (odd_values data)" "fst ` set zs \<inter> fst ` set xs = {}"
      "dom (h_cells h') = fst ` set xs \<union> fst ` set zs" "\<forall>a \<in> fst ` set xs. h_cells h' a = h_cells h a"
    using push(3) by (auto simp: p odd_values_def)
  have ne: "xs \<noteq> []" "zs \<noteq> []" using assms(1) push(3) filt(3) by (auto simp: odd_values_def)
  have "chain (h_cells h') q xs"
    using chain_cong [of xs "h_cells h'" "h_cells h" q] filt(6) push(2) by (simp add: has_list_def)
  then obtain h2 where del1: "delete_list q h' = Some (Inr h2)" "h_cells h2 = h_cells h' |` (- fst ` set xs)"
    using delete_list_chain [of h' q xs] ne(1) push(2) by (auto simp: has_list_def)
  have "h_cells h2 b = h_cells h' b" if "b \<in> fst ` set zs" for b
    using filt(4) del1(2) that by (auto simp: restrict_map_def)
  then have "chain (h_cells h2) r zs = chain (h_cells h') r zs" by (rule chain_cong)
  then have "chain (h_cells h2) r zs" using filt(2) by (simp add: has_list_def)
  then obtain h3 where del2: "delete_list r h2 = Some (Inr h3)" "h_cells h3 = h_cells h2 |` (- fst ` set zs)"
    using delete_list_chain [of h2 r zs] ne(2) filt(2) by (auto simp: has_list_def)
  have "h_cells h3 a = None" for a
    using filt(5) by (cases "h_cells h' a") (auto simp: del1(2) del2(2) restrict_map_def)
  then have "h_cells h3 = Map.empty" by (simp add: fun_eq_iff)
  moreover have "map_list print_int h q [] = Some (Inr (printed data))"
    using map_list_chain [of h q xs print_int "[]"] push(2,3) by (simp add: has_list_def fold_print)
  moreover have "map_list print_int h' r out = Some (Inr (out @ printed (rev (odd_values data))))" for out
    using map_list_chain [of h' r zs print_int out] filt(2,3) by (simp add: has_list_def fold_print)
  ultimately show ?thesis
    using push(1) filt(1) del1(1) del2(1) by (simp add: list_main_def puts_empty_def)
qed

text \<open>The table of the program.\<close>

lemma list_program_witness:
  "case list_main [4, 8, 15, 16, 23, 42] (empty_heap 8) of
     Some (Inr (out, h)) \<Rightarrow> out = ''4 8 15 16 23 42 '' @ [CHR 0x0A] @ ''23 15 '' @ [CHR 0x0A] \<and> h_cells h = Map.empty
   | _ \<Rightarrow> False"
proof -
  have odd: "odd_values [4, 8, 15, 16, 23, 42] = [15, 23]" by code_simp
  have out: "printed [4, 8, 15, 16, 23, 42] = ''4 8 15 16 23 42 ''" "printed [23, 15] = ''23 15 ''" by code_simp+
  show ?thesis using list_program [of "[4, 8, 15, 16, 23, 42]" 8] by (auto simp: odd out)
qed

text \<open>Without an odd number the second list is empty, and \<open>deleteList\<close> reads through a null pointer.\<close>

lemma no_odd_value_crashes: "list_main [4, 8] (empty_heap 8) = Some (Inl NullDeref)"
  by (simp add: list_main_def empty_heap_def add_element_def map_list.simps filter_list.simps p_def
      delete_list.simps free_cell_def)

end
