(* ===== verification/Weather.thy ===== *)
theory Weather
  imports CString "HOL-Library.Word"
begin

text \<open>
  The weather client 08_libraries_homework/main.c: the buffer that grows under the callback of
  libcurl, the buffers of fixed size, and the fields printed from the answer. What libcurl delivers,
  the tokeners and accessors of json-c and the success of allocations are parameters.
\<close>

section \<open>Ends of the program\<close>

text \<open>A fault, or the exit with status 1 and what \<open>perror_if\<close> prints: line and message.\<close>

datatype weather_end = Undefined c_fault | Exit nat string

text \<open>The pointers that \<open>perror_if\<close> frees do not outlive the exit.\<close>

definition perror_if :: "bool \<Rightarrow> string \<Rightarrow> nat \<Rightarrow> weather_end + unit" where
  "perror_if cond msg linenum = (if cond then Inl (Exit linenum msg) else Inr ())"

text \<open>A \<open>strcpy\<close> and \<open>strcat\<close> into a buffer of \<open>n\<close> bytes; the NUL needs one of them.\<close>

definition strcat_in :: "nat \<Rightarrow> string \<Rightarrow> string \<Rightarrow> weather_end + string" where
  "strcat_in n buf s = (if n \<le> length (buf @ s) then Inl (Undefined OutOfBounds) else Inr (buf @ s))"

definition strcpy_in :: "nat \<Rightarrow> string \<Rightarrow> weather_end + string" where
  "strcpy_in n s = strcat_in n [] s"

section \<open>Memory\<close>

text \<open>A byte that was never written is \<open>None\<close>. \<open>alloc n\<close> tells whether a request of \<open>n\<close> bytes succeeds.\<close>

definition xmalloc :: "(nat \<Rightarrow> bool) \<Rightarrow> 64 word \<Rightarrow> weather_end + char option list" where
  "xmalloc alloc sz =
     bindE (perror_if (\<not> alloc (unat sz)) ''malloc'' 48) (\<lambda>_. Inr (replicate (unat sz) None))"

definition xrealloc :: "(nat \<Rightarrow> bool) \<Rightarrow> char option list \<Rightarrow> 64 word \<Rightarrow> weather_end + char option list" where
  "xrealloc alloc ptr sz =
     bindE (perror_if (\<not> alloc (unat sz)) ''realloc'' 61) (\<lambda>_.
       Inr (take (unat sz) ptr @ replicate (unat sz - length ptr) None))"

record MemoryStruct =
  memory :: "char option list"
  msize :: "64 word"

text \<open>A store of bytes at an offset.\<close>

definition store :: "char option list \<Rightarrow> nat \<Rightarrow> string \<Rightarrow> weather_end + char option list" where
  "store m p s =
     (if length m < p + length s then Inl (Undefined OutOfBounds)
      else Inr (take p m @ map Some s @ drop (p + length s) m))"

text \<open>The callback; \<open>contents\<close> are the bytes that can be read behind the pointer.\<close>

definition WriteMemoryCallback ::
  "(nat \<Rightarrow> bool) \<Rightarrow> string \<Rightarrow> 64 word \<Rightarrow> 64 word \<Rightarrow> MemoryStruct \<Rightarrow> weather_end + MemoryStruct \<times> 64 word" where
  "WriteMemoryCallback alloc contents sz nmemb mem =
     (let realsize = sz * nmemb
      in bindE (xrealloc alloc (memory mem) (msize mem + realsize + 1)) (\<lambda>ptr.
           if length contents < unat realsize then Inl (Undefined OutOfBounds)
           else bindE (store ptr (unat (msize mem)) (take (unat realsize) contents)) (\<lambda>ptr.
             let n = msize mem + realsize
             in bindE (store ptr (unat n) [CHR 0x00]) (\<lambda>ptr.
                  Inr (\<lparr>memory = ptr, msize = n\<rparr>, realsize)))))"

text \<open>The transfer: the callback for every piece that the network delivers.\<close>

fun transfer ::
  "(nat \<Rightarrow> bool) \<Rightarrow> (string \<times> 64 word \<times> 64 word) list \<Rightarrow> MemoryStruct \<Rightarrow> weather_end + MemoryStruct" where
  "transfer alloc [] mem = Inr mem"
| "transfer alloc ((contents, sz, nmemb) # ps) mem =
     bindE (WriteMemoryCallback alloc contents sz nmemb mem) (\<lambda>(mem, _). transfer alloc ps mem)"

section \<open>The answer\<close>

text \<open>What the code uses of json-c; \<open>None\<close> is the null pointer.\<close>

record 'j json_api =
  tok_new :: bool
  parse_ex :: "char option list \<Rightarrow> 64 word \<Rightarrow> 'j option"
  object_get :: "'j option \<Rightarrow> string \<Rightarrow> 'j option"
  array_get :: "'j option \<Rightarrow> nat \<Rightarrow> 'j option"
  get_string :: "'j option \<Rightarrow> string option"

text \<open>\<open>printf\<close> with one \<open>%s\<close>; a null pointer is undefined.\<close>

definition print_field :: "string \<Rightarrow> string option \<Rightarrow> string \<Rightarrow> string list \<Rightarrow> weather_end + string list" where
  "print_field before v after out =
     (case v of None \<Rightarrow> Inl (Undefined NullDeref) | Some s \<Rightarrow> Inr (out @ [before @ s @ after]))"

definition showobj :: "'j json_api \<Rightarrow> 'j option \<Rightarrow> weather_end + string list \<times> int" where
  "showobj J root =
     (if root = None then Inr ([], 1)
      else
        let request = object_get J root ''request'';
            request_0 = array_get J request 0;
            query = object_get J request_0 ''query''
        in bindE (print_field ''Weather in '' (get_string J query) [] []) (\<lambda>out.
        let current_condition = object_get J root ''current_condition'';
            current_condition_0 = array_get J current_condition 0;
            weatherDesc = object_get J current_condition_0 ''weatherDesc'';
            weatherDesc_0 = array_get J weatherDesc 0;
            weatherDesc_value = object_get J weatherDesc_0 ''value''
        in bindE (print_field ''Weather description: '' (get_string J weatherDesc_value) [] out) (\<lambda>out.
        let winddir16Point = object_get J current_condition_0 ''winddir16Point''
        in bindE (print_field ''Wind direction: '' (get_string J winddir16Point) [] out) (\<lambda>out.
        let windspeedKmph = object_get J current_condition_0 ''windspeedKmph''
        in bindE (print_field ''Wind speed: '' (get_string J windspeedKmph) '' km/h'' out) (\<lambda>out.
        let temp_C = object_get J current_condition_0 ''temp_C''
        in bindE (print_field ''Temperature: '' (get_string J temp_C) '' deg.C'' out) (\<lambda>out.
        Inr (out, 0)))))))"

text \<open>
  The argument of \<open>perror_if\<close> is built whether or not the condition holds; \<open>errno_msg\<close> is what
  \<open>strerror(errno)\<close> gives. The flag \<open>strict_mode\<close> is never set.
\<close>

definition parseit ::
  "'j json_api \<Rightarrow> string \<Rightarrow> MemoryStruct \<Rightarrow> ('j option \<Rightarrow> weather_end + string list \<times> int) \<Rightarrow>
    weather_end + string list \<times> int" where
  "parseit J errno_msg memory_struct callback =
     bindE (strcpy_in 200 ''unable to allocate json_tokener: '') (\<lambda>err_msg.
     bindE (strcat_in 200 err_msg errno_msg) (\<lambda>err_msg.
     bindE (perror_if (\<not> tok_new J) err_msg 104) (\<lambda>_.
       case parse_ex J (memory memory_struct) (msize memory_struct) of
         None \<Rightarrow> Inr ([], 0)
       | Some obj \<Rightarrow>
           bindE (callback (Some obj)) (\<lambda>(out, cb_ret). Inr (out, if cb_ret \<noteq> 0 then 1 else 0)))))"

definition print_usage :: "string \<Rightarrow> string list" where
  "print_usage argv0 = [''Weather nowcast for given location'', [], ''Usage:'', [], ''  '' @ argv0 @ '' Location'', []]"

section \<open>The program\<close>

text \<open>The network: the pieces delivered for an address, and the result code with its text.\<close>

record network =
  pieces :: "string \<Rightarrow> (string \<times> 64 word \<times> 64 word) list"
  curl_res :: "string \<Rightarrow> int"
  curl_strerror :: "int \<Rightarrow> string"

definition weather_url :: "string \<Rightarrow> weather_end + string" where
  "weather_url location =
     bindE (strcpy_in 200 ''https://wttr.in/'') (\<lambda>url.
     bindE (strcat_in 200 url location) (\<lambda>url. strcat_in 200 url ''?format=j1''))"

definition weather_main ::
  "(nat \<Rightarrow> bool) \<Rightarrow> network \<Rightarrow> 'j json_api \<Rightarrow> string \<Rightarrow> string list \<Rightarrow> weather_end + string list \<times> int" where
  "weather_main alloc net J errno_msg argv =
     (if length argv = 2 then
        bindE (weather_url (argv ! 1)) (\<lambda>url.
        bindE (xmalloc alloc 1) (\<lambda>ptr.
        bindE (transfer alloc (pieces net url) \<lparr>memory = ptr, msize = 0\<rparr>) (\<lambda>chunk.
        let res = curl_res net url
        in bindE (strcpy_in 200 ''curl_easy_perform() failed: '') (\<lambda>err_msg.
        bindE (strcat_in 200 err_msg (curl_strerror net res)) (\<lambda>err_msg.
        bindE (perror_if (res \<noteq> 0) err_msg 202) (\<lambda>_.
        bindE (perror_if (msize chunk \<le> 1) ''no network data received'' 203) (\<lambda>_.
        bindE (parseit J errno_msg chunk (showobj J)) (\<lambda>(out, _). Inr (out, 0)))))))))
      else if argv = [] then Inl (Undefined NullDeref)
      else Inr (print_usage (argv ! 0), 1))"


section \<open>The buffer holds what was delivered\<close>

text \<open>The bytes \<open>s\<close> are in the buffer, with room for one more, the NUL once the callback ran.\<close>

definition holds :: "MemoryStruct \<Rightarrow> string \<Rightarrow> bool" where
  "holds mem s \<longleftrightarrow> unat (msize mem) = length s \<and>
     (\<exists>b. memory mem = map Some s @ [b] \<and> (s \<noteq> [] \<longrightarrow> b = Some (CHR 0x00)))"

text \<open>A piece as libcurl gives it: the pointer leads to all the bytes, and their number does not wrap.\<close>

definition piece_ok :: "string \<times> 64 word \<times> 64 word \<Rightarrow> bool" where
  "piece_ok p = (case p of (contents, sz, nmemb) \<Rightarrow>
     length contents = unat sz * unat nmemb \<and> unat sz * unat nmemb < 2 ^ 64)"

definition body :: "(string \<times> 64 word \<times> 64 word) list \<Rightarrow> string" where
  "body ps = concat (map fst ps)"

lemma unat_add_small: "unat x + unat y < 2 ^ 64 \<Longrightarrow> unat (x + y :: 64 word) = unat x + unat y"
  by (simp add: unat_add_lem [THEN iffD1])

lemma unat_mult_small: "unat x * unat y < 2 ^ 64 \<Longrightarrow> unat (x * y :: 64 word) = unat x * unat y"
  by (simp add: unat_mult_lem [THEN iffD1])

lemma callback_holds:
  assumes "holds mem s" "piece_ok (contents, sz, nmemb)" "length s + length contents < 2 ^ 64 - 1"
  shows "WriteMemoryCallback alloc contents sz nmemb mem =
    (if alloc (length s + length contents + 1)
     then Inr (\<lparr>memory = map Some (s @ contents) @ [Some (CHR 0x00)], msize = msize mem + sz * nmemb\<rparr>, sz * nmemb)
     else Inl (Exit 61 ''realloc''))"
    and "unat (msize mem + sz * nmemb) = length (s @ contents)"
proof -
  have sz: "unat (sz * nmemb) = length contents" "length contents < 2 ^ 64"
    using assms(2) unat_mult_small [of sz nmemb] by (auto simp: piece_ok_def)
  have m: "unat (msize mem) = length s" using assms(1) by (simp add: holds_def)
  have n: "unat (msize mem + sz * nmemb) = length s + length contents"
    using unat_add_small [of "msize mem" "sz * nmemb"] m sz assms(3) by simp
  then show "unat (msize mem + sz * nmemb) = length (s @ contents)" by simp
  have n1: "unat (msize mem + sz * nmemb + 1) = length s + length contents + 1"
    using unat_add_small [of "msize mem + sz * nmemb" 1] n assms(3) by simp
  obtain b where b: "memory mem = map Some s @ [b]" using assms(1) by (auto simp: holds_def)
  have grown: "xrealloc alloc (memory mem) (msize mem + sz * nmemb + 1) =
      (if alloc (length s + length contents + 1)
       then Inr (map Some s @ [b] @ replicate (length contents) None) else Inl (Exit 61 ''realloc''))"
    by (simp add: xrealloc_def n1 b perror_if_def)
  have first: "store (map Some s @ [b] @ replicate (length contents) None) (length s) contents =
      Inr (map Some s @ map Some contents @ drop (length contents) ([b] @ replicate (length contents) None))"
    by (simp add: store_def)
  have "length (drop (length contents) ([b] @ replicate (length contents) None)) = 1" by simp
  then obtain z where z: "drop (length contents) ([b] @ replicate (length contents) None) = [z]"
    by (metis One_nat_def length_0_conv length_Suc_conv)
  have second: "store (map Some s @ map Some contents @ [z]) (length s + length contents) [CHR 0x00] =
      Inr (map Some (s @ contents) @ [Some (CHR 0x00)])"
    by (simp add: store_def)
  show "WriteMemoryCallback alloc contents sz nmemb mem =
    (if alloc (length s + length contents + 1)
     then Inr (\<lparr>memory = map Some (s @ contents) @ [Some (CHR 0x00)], msize = msize mem + sz * nmemb\<rparr>, sz * nmemb)
     else Inl (Exit 61 ''realloc''))"
    unfolding WriteMemoryCallback_def Let_def grown n sz(1) m
    using first second unfolding z by simp
qed

lemma transfer_holds:
  assumes "holds mem s" "\<forall>p \<in> set ps. piece_ok p" "length s + length (body ps) < 2 ^ 64 - 1"
  shows "(\<exists>mem'. transfer alloc ps mem = Inr mem' \<and> holds mem' (s @ body ps)) \<or>
    transfer alloc ps mem = Inl (Exit 61 ''realloc'') \<and> (\<exists>n. \<not> alloc n)"
  using assms
proof (induction ps arbitrary: mem s)
  case Nil
  then show ?case by (simp add: body_def)
next
  case (Cons p ps)
  obtain contents sz nmemb where p: "p = (contents, sz, nmemb)" by (cases p)
  have len: "length s + length contents < 2 ^ 64 - 1" using Cons.prems(3) by (simp add: body_def p)
  have ok: "piece_ok (contents, sz, nmemb)" using Cons.prems(2) p by simp
  note cb = callback_holds [OF Cons.prems(1) ok len]
  show ?case
  proof (cases "alloc (length s + length contents + 1)")
    case False
    then show ?thesis using cb(1) by (auto simp: p)
  next
    case True
    let ?mem = "\<lparr>memory = map Some (s @ contents) @ [Some (CHR 0x00)], msize = msize mem + sz * nmemb\<rparr>"
    have "holds ?mem (s @ contents)" using cb(2) by (simp add: holds_def)
    then have "(\<exists>mem'. transfer alloc ps ?mem = Inr mem' \<and> holds mem' ((s @ contents) @ body ps)) \<or>
        transfer alloc ps ?mem = Inl (Exit 61 ''realloc'') \<and> (\<exists>n. \<not> alloc n)"
      using Cons.prems(2,3) by (intro Cons.IH) (simp_all add: body_def p)
    moreover have "transfer alloc (p # ps) mem = transfer alloc ps ?mem"
      using cb(1) True by (simp add: p)
    ultimately show ?thesis by (simp add: body_def p)
  qed
qed

section \<open>The program\<close>

definition url_of :: "string \<Rightarrow> string" where
  "url_of location = ''https://wttr.in/'' @ location @ ''?format=j1''"

lemma weather_url_cases:
  "weather_url location =
    (if length location < 174 then Inr (url_of location) else Inl (Undefined OutOfBounds))"
  by (simp add: weather_url_def strcpy_in_def strcat_in_def url_of_def)

text \<open>What libcurl promises for an address, with an error text that fits its buffer.\<close>

definition net_ok :: "network \<Rightarrow> string \<Rightarrow> bool" where
  "net_ok net url \<longleftrightarrow> (\<forall>p \<in> set (pieces net url). piece_ok p) \<and>
     length (body (pieces net url)) < 2 ^ 64 - 1 \<and> length (curl_strerror net (curl_res net url)) < 172"

text \<open>The five values printed.\<close>

definition weather_fields :: "'j json_api \<Rightarrow> 'j \<Rightarrow> string option list" where
  "weather_fields J root =
     (let req = array_get J (object_get J (Some root) ''request'') 0;
          cur = array_get J (object_get J (Some root) ''current_condition'') 0
      in [get_string J (object_get J req ''query''),
          get_string J (object_get J (array_get J (object_get J cur ''weatherDesc'') 0) ''value''),
          get_string J (object_get J cur ''winddir16Point''),
          get_string J (object_get J cur ''windspeedKmph''),
          get_string J (object_get J cur ''temp_C'')])"

lemma showobj_fields:
  "weather_fields J root = map Some [a, b, c, d, e] \<Longrightarrow> showobj J (Some root) =
    Inr ([''Weather in '' @ a, ''Weather description: '' @ b, ''Wind direction: '' @ c,
          ''Wind speed: '' @ d @ '' km/h'', ''Temperature: '' @ e @ '' deg.C''], 0)"
  by (simp add: weather_fields_def showobj_def Let_def print_field_def)


lemma start_holds: "holds \<lparr>memory = [None], msize = 0\<rparr> []"
  by (simp add: holds_def)

text \<open>The program after the address is built and the first byte allocated.\<close>

lemma weather_main_run:
  assumes "length location < 174" "alloc 1" "transfer alloc (pieces net (url_of location)) \<lparr>memory = [None], msize = 0\<rparr> = Inr chunk"
    and "length (curl_strerror net (curl_res net (url_of location))) < 172"
  shows "weather_main alloc net J errno_msg [prog, location] =
    (if curl_res net (url_of location) \<noteq> 0
     then Inl (Exit 202 (''curl_easy_perform() failed: '' @ curl_strerror net (curl_res net (url_of location))))
     else if msize chunk \<le> 1 then Inl (Exit 203 ''no network data received'')
     else bindE (parseit J errno_msg chunk (showobj J)) (\<lambda>(out, _). Inr (out, 0)))"
  using assms by (simp add: weather_main_def weather_url_cases xmalloc_def perror_if_def strcpy_in_def strcat_in_def Let_def)

lemma parseit_cases:
  assumes "length errno_msg < 167"
  shows "parseit J errno_msg chunk cb =
    (if \<not> tok_new J then Inl (Exit 104 (''unable to allocate json_tokener: '' @ errno_msg))
     else case parse_ex J (memory chunk) (msize chunk) of None \<Rightarrow> Inr ([], 0)
       | Some obj \<Rightarrow> bindE (cb (Some obj)) (\<lambda>(out, cb_ret). Inr (out, if cb_ret \<noteq> 0 then 1 else 0)))"
  using assms by (simp add: parseit_def strcpy_in_def strcat_in_def perror_if_def split: option.split)


text \<open>An instance: an answer in two pieces, and a tokener that takes it for one object with every field.\<close>

definition two_pieces :: network where
  "two_pieces = \<lparr>pieces = (\<lambda>_. [(''[[[['', 1, 4), ('']]]'', 1, 3)]), curl_res = (\<lambda>_. 0), curl_strerror = (\<lambda>_. ''No error'')\<rparr>"

definition one_object :: "unit json_api" where
  "one_object = \<lparr>tok_new = True, parse_ex = (\<lambda>m n. if n = 7 then Some () else None),
     object_get = (\<lambda>j _. j), array_get = (\<lambda>j _. j), get_string = (\<lambda>_. Some ''x'')\<rparr>"

lemma two_pieces_ok: "net_ok two_pieces url"
  by (simp add: net_ok_def two_pieces_def piece_ok_def body_def)

text \<open>
  Property C25. When the network answers and memory suffices, json-c is given exactly the bytes that were
  delivered, in order and closed by a NUL, and the program prints the five fields of what it makes of
  them.
\<close>

theorem weather_prints_answer:
  assumes "length location < 174" "\<And>n. alloc n" "net_ok net (url_of location)" "curl_res net (url_of location) = 0"
    and "answer = body (pieces net (url_of location))" "1 < length answer" "length errno_msg < 167" "tok_new J"
    and "parse_ex J (map Some answer @ [Some (CHR 0x00)]) (of_nat (length answer)) = Some obj"
    and "weather_fields J obj = map Some [a, b, c, d, e]"
  shows "weather_main alloc net J errno_msg [prog, location] =
    Inr ([''Weather in '' @ a, ''Weather description: '' @ b, ''Wind direction: '' @ c,
          ''Wind speed: '' @ d @ '' km/h'', ''Temperature: '' @ e @ '' deg.C''], 0)"
proof -
  have net: "\<forall>p \<in> set (pieces net (url_of location)). piece_ok p" "length answer < 2 ^ 64 - 1"
    "length (curl_strerror net (curl_res net (url_of location))) < 172"
    using assms(3,5) by (simp_all add: net_ok_def)
  have "length [] + length (body (pieces net (url_of location))) < 2 ^ 64 - 1" using net(2) assms(5) by simp
  from transfer_holds [OF start_holds net(1) this, of alloc] obtain chunk where
    chunk: "transfer alloc (pieces net (url_of location)) \<lparr>memory = [None], msize = 0\<rparr> = Inr chunk"
      "holds chunk answer"
    using assms(2,5) by auto
  have m: "unat (msize chunk) = length answer" "memory chunk = map Some answer @ [Some (CHR 0x00)]"
    using chunk(2) assms(6) by (auto simp: holds_def)
  have size: "msize chunk = of_nat (length answer)" by (simp add: m(1) [symmetric])
  have "\<not> msize chunk \<le> 1" using m(1) assms(6) by (simp add: word_le_nat_alt)
  then show ?thesis
    unfolding weather_main_run [OF assms(1,2) chunk(1) net(3)] parseit_cases [OF assms(7)]
    using assms(4,8,9) m(2) size showobj_fields [OF assms(10)] by simp
qed

lemma weather_prints_answer_witness:
  "weather_main (\<lambda>_. True) two_pieces one_object [] [''weather'', ''Moscow''] =
    Inr ([''Weather in x'', ''Weather description: x'', ''Wind direction: x'', ''Wind speed: x km/h'',
          ''Temperature: x deg.C''], 0)"
  by (subst weather_prints_answer [where a = "''x''" and b = "''x''" and c = "''x''" and d = "''x''" and e = "''x''" and obj = "()",
        OF _ _ two_pieces_ok _ refl])
    (simp_all add: two_pieces_def one_object_def body_def weather_fields_def Let_def)



text \<open>An answer that does not parse ends the program with success and no output.\<close>

lemma unparsed_answer_succeeds:
  assumes "length location < 174" "alloc 1"
    and "transfer alloc (pieces net (url_of location)) \<lparr>memory = [None], msize = 0\<rparr> = Inr chunk"
    and "curl_res net (url_of location) = 0" "length (curl_strerror net 0) < 172" "1 < msize chunk"
    and "length errno_msg < 167" "tok_new J" "parse_ex J (memory chunk) (msize chunk) = None"
  shows "weather_main alloc net J errno_msg [prog, location] = Inr ([], 0)"
proof -
  have short: "length (curl_strerror net (curl_res net (url_of location))) < 172" using assms(4,5) by simp
  have "\<not> msize chunk \<le> 1" using assms(6) by simp
  then show ?thesis
    unfolding weather_main_run [OF assms(1-3) short] parseit_cases [OF assms(7)] using assms(4,8,9) by simp
qed

end
