(* ===== verification/Spectrum.thy ===== *)
theory Spectrum
  imports Double
begin

text \<open>
  The wave spectrum of point_wave_model/spectrum.c. The definitions are stated for any type with the
  operations of \<open>double\<close> and are used twice: on \<open>double\<close> itself, and on \<open>real\<close>, which gives what the
  formulas mean in exact arithmetic. The functions of the mathematical library are parameters. The
  loops read arrays at indices below \<open>nfreq\<close> and \<open>ndir\<close>, which are the lengths of the lists in every
  spectrum that \<open>spectrum_create\<close> makes (\<open>spec_good\<close> in WaveFacts); allocations succeed here.
\<close>

section \<open>Arithmetic\<close>

text \<open>Decimal constants \<open>n / d\<close>, the library functions, and the conversions to \<open>int\<close>.\<close>

record 'd libm =
  lit :: "int \<Rightarrow> int \<Rightarrow> 'd"
  m_sqrt :: "'d \<Rightarrow> 'd"
  m_exp :: "'d \<Rightarrow> 'd"
  m_log :: "'d \<Rightarrow> 'd"
  m_cos :: "'d \<Rightarrow> 'd"
  m_sin :: "'d \<Rightarrow> 'd"
  m_tanh :: "'d \<Rightarrow> 'd"
  m_pow :: "'d \<Rightarrow> 'd \<Rightarrow> 'd"
  m_fmod :: "'d \<Rightarrow> 'd \<Rightarrow> 'd"
  m_floor :: "'d \<Rightarrow> int option"
  m_ceil :: "'d \<Rightarrow> int option"
  m_trunc :: "'d \<Rightarrow> int option"

text \<open>\<open>(double)n\<close>, \<open>M_PI\<close>, \<open>fabs\<close> (up to the sign of a zero), and \<open>fmax\<close>, which skips a NaN.\<close>

definition num :: "'d libm \<Rightarrow> nat \<Rightarrow> 'd" where "num F n = lit F (int n) 1"

definition m_pi :: "'d libm \<Rightarrow> 'd" where
  "m_pi F = lit F 314159265358979323846 100000000000000000000"

definition fabs where "fabs x = (if x < 0 then - x else x)"

definition fmax where
  "fmax x y = (if \<not> x \<le> x then y else if \<not> y \<le> y then x else if x < y then y else x)"

text \<open>A loop that adds up the values of an array, from \<open>0.0\<close>.\<close>

definition sum_up where "sum_up xs = foldl (+) 0 xs"

section \<open>The spectrum\<close>

record 'd spectrum =
  nfreq :: nat
  ndir :: nat
  freq :: "'d list"
  dir :: "'d list"
  energy :: "'d list list"
  dsii :: "'d list"
  dtheta :: 'd
  peak_freq :: 'd

definition XFR where "XFR F = lit F 11 10"

text \<open>The frequencies \<open>f0 * pow(xfr, i)\<close>, and the widths of their bands.\<close>

definition log_grid where
  "log_grid F f0 n = map (\<lambda>i. f0 * m_pow F (XFR F) (num F i)) [0..<n]"

definition band_widths where
  "band_widths F fr n =
     map (\<lambda>i. if i = 0 then lit F 5 10 * (fr ! 1 - fr ! 0)
               else if i = n - 1 then lit F 5 10 * (fr ! i - fr ! (i - 1))
               else lit F 5 10 * (fr ! (i + 1) - fr ! (i - 1))) [0..<n]"

definition spectrum_create where
  "spectrum_create F nfr nd f_min =
     (let nk = (if nfr < 2 then 2 else nfr);
          dth = num F 2 * m_pi F / num F nd;
          fr = log_grid F f_min nk
      in \<lparr>nfreq = nk, ndir = nd, freq = fr,
          dir = map (\<lambda>j. - m_pi F + num F j * dth) [0..<nd],
          energy = replicate nk (replicate nd 0),
          dsii = band_widths F fr nk, dtheta = dth, peak_freq = f_min\<rparr>)"

text \<open>The energy of frequency \<open>i\<close> over all directions, and over the whole spectrum.\<close>

definition row_sum where "row_sum s i = sum_up (energy s ! i)"

definition total_energy where
  "total_energy s = sum_up (map (\<lambda>i. row_sum s i * dtheta s * dsii s ! i) [0..<nfreq s])"

definition spectrum_Hs where "spectrum_Hs F s = num F 4 * m_sqrt F (total_energy s)"

definition spectrum_update_peak where
  "spectrum_update_peak s =
     (case foldl (\<lambda>(max_E, f_peak) i.
          let E_omni = row_sum s i * dtheta s
          in if max_E < E_omni then (E_omni, freq s ! i) else (max_E, f_peak))
        (0, freq s ! 0) [0..<nfreq s] of
      (max_E, f_peak) \<Rightarrow> s\<lparr>peak_freq := f_peak\<rparr>)"

section \<open>The JONSWAP start\<close>

definition jonswap_E where
  "jonswap_E F fp gam f =
     (let g = lit F 981 100;
          r = f / fp;
          sigma = (if f \<le> fp then lit F 7 100 else lit F 9 100);
          exp_arg = - (r - num F 1) * (r - num F 1) / (num F 2 * sigma * sigma);
          gamma_factor = m_pow F gam (m_exp F exp_arg)
      in lit F 81 10000 * g * g * m_pow F (num F 2 * m_pi F) (- num F 4) * m_pow F f (- num F 5)
         * m_exp F (- lit F 125 100 * m_pow F r (- num F 4)) * gamma_factor)"

definition dir_dist where
  "dir_dist F theta =
     (if fabs theta \<le> m_pi F / num F 2 then num F 2 / m_pi F * m_pow F (m_cos F theta) (num F 2) else 0)"

text \<open>The shape before scaling; a row whose frequency is not positive is left as it is.\<close>

definition jonswap_shape where
  "jonswap_shape F fp gam s =
     s\<lparr>energy := map (\<lambda>i. let f = freq s ! i
        in if f \<le> 0 then energy s ! i
           else map (\<lambda>j. jonswap_E F fp gam f * dir_dist F (dir s ! j)) [0..<ndir s]) [0..<nfreq s]\<rparr>"

definition scale_energy where
  "scale_energy c s = s\<lparr>energy := map (map (\<lambda>E. E * c)) (energy s)\<rparr>"

definition spectrum_init_jonswap where
  "spectrum_init_jonswap F s Hs fp gam =
     (let s = jonswap_shape F fp gam s;
          target_E = (Hs / num F 4) * (Hs / num F 4);
          scale = target_E / total_energy s
      in spectrum_update_peak (scale_energy scale s))"

end
