(* ===== verification/SourceTerms.thy ===== *)
theory SourceTerms
  imports Spectrum
begin

text \<open>
  The source terms of point_wave_model/source_terms.c: wind input, its reduction to the stress the
  wind can give, dissipation, and their sum. Whether allocations succeed is a parameter where the
  code tests it; the arrays \<open>S_omni\<close> and \<open>S_omni10\<close>, which nothing reads, are left out.
\<close>

section \<open>Parameters\<close>

record 'd wind_forcing =
  u10 :: 'd
  wind_dir :: 'd
  rho_air :: 'd
  rho_water :: 'd

record 'd st6_params =
  sin6ws :: 'd
  a1 :: 'd
  a2 :: 'd
  par_L :: 'd
  par_M :: 'd
  Bnt :: 'd
  norm_type :: int
  z0 :: 'd

definition st6_params_default :: "'d libm \<Rightarrow> 'd st6_params" where
  "st6_params_default F =
     \<lparr>sin6ws = num F 32, a1 = lit F 57 100000000, a2 = lit F 8 1000000, par_L = num F 4, par_M = num F 4,
      Bnt = lit F 1225 1000000, norm_type = 1, z0 = lit F 1 10000\<rparr>"

text \<open>Which allocations succeed: the two groups in the stress constraint, those of each round, and dissipation.\<close>

record allocs =
  al_input :: bool
  al_tail :: bool
  al_round :: "nat \<Rightarrow> bool"
  al_diss :: bool

definition G_acc :: "'d libm \<Rightarrow> 'd" where "G_acc F = lit F 981 100"

definition FLT_MIN :: "'d libm \<Rightarrow> 'd" where "FLT_MIN F = lit F 1 (10 ^ 38)"

definition phase_speed where "phase_speed F f = G_acc F / (num F 2 * m_pi F * f)"

definition friction_velocity where
  "friction_velocity F u z = u * lit F 41 100 / m_log F (num F 10 / z)"

section \<open>The stress constraint\<close>

definition integrate_stress where
  "integrate_stress S cinv ds n rho g =
     sum_up (map (\<lambda>i. S ! i * cinv ! i * ds ! i) [0..<n]) * rho * g"

definition norm_stress_excess where
  "norm_stress_excess F Sx Sy cinv ds n rho g tau_v_x tau_v_y tau_tot =
     (let tau_x = tau_v_x + integrate_stress Sx cinv ds n rho g;
          tau_y = tau_v_y + integrate_stress Sy cinv ds n rho g;
          tau_norm = m_sqrt F (tau_x * tau_x + tau_y * tau_y)
      in (tau_norm - tau_tot) / tau_tot)"

text \<open>The component of the input in a direction, per frequency; \<open>trig\<close> is \<open>cos\<close> or \<open>sin\<close>.\<close>

definition component where
  "component trig s dS =
     map (\<lambda>i. sum_up (map (\<lambda>j. dS ! i ! j * trig (dir s ! j)) [0..<ndir s]) * dtheta s) [0..<nfreq s]"

text \<open>The grid up to 10 Hz and what the rounds read of it.\<close>

record 'd stress_grid =
  g_n :: nat
  g_cinv :: "'d list"
  g_dsii :: "'d list"
  g_Sx :: "'d list"
  g_Sy :: "'d list"
  g_ucinv :: "'d list"

text \<open>The size of the grid; \<open>None\<close> is a conversion to \<open>int\<close> out of range.\<close>

definition tail_size where
  "tail_size F s =
     (case m_ceil F (m_log F (num F 10 / freq s ! 0) / m_log F (XFR F)) of
        None \<Rightarrow> None
      | Some c \<Rightarrow> if 2 ^ 31 \<le> c + 1 then None else Some (if c + 1 < int (nfreq s) then nfreq s else nat (c + 1)))"

definition extended where
  "extended fr nk n S =
     map (\<lambda>i. if i < nk then S ! i
               else let ratio = fr ! (nk - 1) / fr ! i; ratio2 = ratio * ratio in S ! (nk - 1) * ratio2) [0..<n]"

definition stress_grid where
  "stress_grid F s uproxy Sx Sy n =
     (let g = lit F 981 100;
          fr = log_grid F (freq s ! 0) n;
          cinv = map (\<lambda>i. num F 1 / (g / (num F 2 * m_pi F * fr ! i))) [0..<n]
      in \<lparr>g_n = n, g_cinv = cinv, g_dsii = band_widths F fr n,
          g_Sx = extended fr (nfreq s) n Sx, g_Sy = extended fr (nfreq s) n Sy,
          g_ucinv = map (\<lambda>i. num F 1 - uproxy * cinv ! i) [0..<n]\<rparr>)"

record 'd stresses =
  t_x :: 'd
  t_y :: 'd
  t_tot :: 'd

definition viscous_stress where
  "viscous_stress F wind ustar =
     (let tau_tot = ustar * ustar * rho_air wind;
          cv = - lit F 5 100000 * u10 wind + lit F 11 10000;
          cv = (if cv < 0 then 0 else cv);
          tau_v = cv * u10 wind * u10 wind * rho_air wind;
          tau_v = (if lit F 95 100 * tau_tot < tau_v then lit F 95 100 * tau_tot else tau_v)
      in \<lparr>t_x = tau_v * m_cos F (wind_dir wind), t_y = tau_v * m_sin F (wind_dir wind), t_tot = tau_tot\<rparr>)"

definition excess where
  "excess F wind gr t Sx Sy =
     norm_stress_excess F Sx Sy (g_cinv gr) (g_dsii gr) (g_n gr) (rho_water wind) (lit F 981 100)
       (t_x t) (t_y t) (t_tot t)"

text \<open>The reduction \<open>L\<close> at each frequency, at most 1.\<close>

definition lfactors where
  "lfactors F gr Rtau =
     map (\<lambda>u. let L = m_exp F (u * Rtau) in if num F 1 < L then num F 1 else L) (g_ucinv gr)"

definition products where "products xs ys = map2 (\<lambda>x y. x * y) xs ys"

text \<open>The rounds that search for \<open>Rtau\<close>; \<open>k\<close> of the 80 are left. The result is the last \<open>lfact10\<close>.\<close>

definition ITER_MAX :: nat where "ITER_MAX = 80"

fun stress_rounds where
  "stress_rounds F al wind gr t 0 lfact Rtau dRtau sign_old overshot = lfact"
| "stress_rounds F al wind gr t (Suc k) lfact Rtau dRtau sign_old overshot =
     (let lfact = lfactors F gr Rtau
      in if \<not> al_round al (ITER_MAX - Suc k) then lfact
         else
           let err = excess F wind gr t (products (g_Sx gr) lfact) (products (g_Sy gr) lfact);
               sign_new = (if 0 < err then 1 else - 1);
               overshot = (overshot \<or> sign_new \<noteq> (sign_old :: int));
               dRtau = (if overshot
                        then (let d = lit F 5 10 * (num F 1 + dRtau) in
                              if d < lit F 10001 10000 then lit F 10001 10000 else d)
                        else dRtau);
               Rtau = Rtau * m_pow F dRtau (if sign_new = 1 then num F 1 else - num F 1)
           in if fabs err < lit F 15 100000 then lfact
              else stress_rounds F al wind gr t k lfact Rtau dRtau sign_new overshot)"

definition reduce_rows where
  "reduce_rows lfact nk dS = map (\<lambda>i. map (\<lambda>x. x * lfact ! i) (dS ! i)) [0..<nk]"

definition apply_stress_constraint where
  "apply_stress_constraint F al s wind par dS =
     (if \<not> al_input al then Inr dS
      else case tail_size F s of
        None \<Rightarrow> Inl ConvOverflow
      | Some n \<Rightarrow>
          if \<not> al_tail al then Inr dS
          else
            let ustar = friction_velocity F (u10 wind) (z0 par);
                gr = stress_grid F s (sin6ws par * ustar)
                       (component (m_cos F) s dS) (component (m_sin F) s dS) n;
                t = viscous_stress F wind ustar;
                err_init = excess F wind gr t (g_Sx gr) (g_Sy gr)
            in if 0 < err_init
               then Inr (reduce_rows
                      (stress_rounds F al wind gr t ITER_MAX (replicate n (num F 1))
                         (err_init / num F 90) (num F 2) 1 False)
                      (nfreq s) dS)
               else Inr dS)"

section \<open>Wind input\<close>

text \<open>One direction of a frequency whose other quantities are known.\<close>

definition wind_cell where
  "wind_cell F sqrtBn u_scaled c sigma rho_ratio cos_diff E =
     (if cos_diff \<le> FLT_MIN F then 0
      else let arg = u_scaled / c * cos_diff - num F 1;
               W = (if 0 < arg then arg * arg else 0);
               shelter = lit F 28 10 - (num F 1 + m_tanh F (num F 10 * sqrtBn * W - num F 11));
               gam = shelter * sqrtBn * W;
               Bterm = gam * sigma * rho_ratio
           in Bterm * E)"

definition row_max where
  "row_max F row = foldl (\<lambda>m E. if m < E then E else m) (- num F 1) row"

definition saturation where
  "saturation F s row c k maxE =
     (let Cg = lit F 5 10 * c;
          A_f_int = sum_up (map (\<lambda>E. E / maxE * dtheta s) row);
          A = num F 1 / A_f_int;
          E_omni = sum_up row * dtheta s;
          Bn = num F 1 / (num F 2 * m_pi F) * E_omni * k * k * k * Cg;
          sqrtBn = m_sqrt F (A * Bn)
      in if sqrtBn < lit F 1 (10 ^ 10) then lit F 1 (10 ^ 10) else sqrtBn)"

definition wind_row where
  "wind_row F s wind par i =
     (let f = freq s ! i;
          row = energy s ! i;
          sigma = num F 2 * m_pi F * f;
          c = phase_speed F f;
          k = sigma * sigma / G_acc F;
          u_scaled = friction_velocity F (u10 wind) (z0 par) * sin6ws par;
          rho_ratio = rho_air wind / rho_water wind;
          maxE = row_max F row
      in if c < lit F 1 10 then replicate (ndir s) 0
         else if maxE \<le> FLT_MIN F then replicate (ndir s) 0
         else map (\<lambda>j. wind_cell F (saturation F s row c k maxE) u_scaled c sigma rho_ratio
                          (m_cos F (dir s ! j - wind_dir wind)) (row ! j)) [0..<ndir s])"

definition source_term_wind_input where
  "source_term_wind_input F al s wind par =
     apply_stress_constraint F al s wind par (map (wind_row F s wind par) [0..<nfreq s])"

section \<open>Dissipation\<close>

definition threshold where
  "threshold F par f =
     (let g = lit F 981 100;
          omega = num F 2 * m_pi F * f;
          k = omega * omega / g;
          Cg = lit F 5 10 * g / omega
      in num F 2 * m_pi F * Bnt par / (Cg * k * k * k))"

definition excess_ratio where
  "excess_ratio par eps E_omni E_T =
     (let Delta = E_omni - E_T;
          Delta = (if Delta < 0 then 0 else Delta)
      in if norm_type par = 0 then (if eps < E_omni then Delta / E_omni else 0)
         else (if 0 < E_T then Delta / E_T else 0))"

text \<open>The running integral: \<open>accum[i]\<close> for every \<open>i\<close>.\<close>

fun accumulate where
  "accumulate (acc :: 'd :: plus option) [] = []"
| "accumulate acc (x # xs) =
     (let v = (case acc of None \<Rightarrow> x | Some a \<Rightarrow> a + x) in v # accumulate (Some v) xs)"

definition diss_ratios where
  "diss_ratios F s par =
     (let E_omni = map (\<lambda>i. row_sum s i * dtheta s) [0..<nfreq s];
          maxE = foldl (\<lambda>m E. if m < E then E else m) 0 E_omni;
          eps = lit F 1 100000 * maxE
      in map (\<lambda>i. excess_ratio par eps (E_omni ! i) (threshold F par (freq s ! i))) [0..<nfreq s])"

definition source_term_dissipation where
  "source_term_dissipation F al s par =
     (if \<not> al_diss al then replicate (nfreq s) (replicate (ndir s) 0)
      else
        let ratio = diss_ratios F s par;
            accum = accumulate None (map (\<lambda>i. m_pow F (ratio ! i) (par_M par) * dsii s ! i) [0..<nfreq s])
        in map (\<lambda>i.
             let T1_coef = a1 par * freq s ! i * m_pow F (fmax (ratio ! i) 0) (par_L par);
                 T2_coef = a2 par * accum ! i
             in map (\<lambda>j. let E = energy s ! i ! j in - (T1_coef * E + T2_coef * E)) [0..<ndir s])
           [0..<nfreq s])"

section \<open>The sum\<close>

definition source_term_total where
  "source_term_total F al s wind par =
     bindE (source_term_wind_input F al s wind par) (\<lambda>dS_in.
       let dS_ds = source_term_dissipation F al s par
       in Inr (map (\<lambda>i. map (\<lambda>j. dS_in ! i ! j + dS_ds ! i ! j) [0..<ndir s]) [0..<nfreq s]))"

end
