(* ===== verification/WaveModel.thy ===== *)
theory WaveModel
  imports SourceTerms CString
begin

text \<open>
  The wave model program of point_wave_model: the time step (integrator.c), the output
  (netcdf_output.c) as the sequence of calls of the NetCDF library, and the run
  (point_wave_model.c). What the library answers is a parameter.
\<close>

section \<open>The time step\<close>

datatype integrator_type = EULER_FORWARD | RK4

record 'd time_step_control =
  dt :: 'd
  dt_max :: 'd
  cfl_factor :: 'd
  min_energy :: 'd

definition time_step_control_default :: "'d libm \<Rightarrow> 'd time_step_control" where
  "time_step_control_default F =
     \<lparr>dt = num F 60, dt_max = num F 300, cfl_factor = lit F 5 10, min_energy = lit F 1 (10 ^ 10)\<rparr>"

definition compute_adaptive_dt where
  "compute_adaptive_dt s control =
     (let f_max = freq s ! (nfreq s - 1);
          dt_cfl = cfl_factor control / f_max
      in if dt_max control < dt_cfl then dt_max control else dt_cfl)"

definition euler_step where
  "euler_step F al s wind par step =
     bindE (source_term_total F al s wind par) (\<lambda>dS.
       Inr (s\<lparr>energy := map (\<lambda>i. map (\<lambda>j.
              let new_energy = energy s ! i ! j + dS ! i ! j * step
              in if new_energy < 0 then 0 else new_energy) [0..<ndir s]) [0..<nfreq s]\<rparr>))"

definition integrator_step where
  "integrator_step F al s wind par type step =
     (case type of
        EULER_FORWARD \<Rightarrow> bindE (euler_step F al s wind par step) (\<lambda>s. Inr (spectrum_update_peak s))
      | _ \<Rightarrow> bindE (euler_step F al s wind par step) (\<lambda>s. Inr (spectrum_update_peak s)))"

section \<open>The output\<close>

text \<open>
  The calls of the library. An array written is given with its start and its extent. The allocation
  of a buffer, which ends the function with \<open>NC_ENOMEM\<close> when it fails, has its place in the sequence.
\<close>

datatype 'd nc_call =
    Create string
  | Def_dim string "nat option"        \<comment> \<open>\<open>None\<close> is \<open>NC_UNLIMITED\<close>\<close>
  | Def_var string "string list"
  | Put_text string string string
  | End_def
  | Put_all string "'d list"
  | Put_slice string "nat list" "nat list" "'d list"
  | Alloc nat                          \<comment> \<open>a buffer of that many numbers, not of the library\<close>
  | Open string
  | Inq_dim string
  | Inq_dimlen string
  | Inq_var string
  | Close

definition freq_name :: string where "freq_name = ''FullWaveDirectionalSpectra_Frequency''"

definition dir_name :: string where "dir_name = ''FullWaveDirectionalSpectra_Direction''"

definition full_name :: string where "full_name = ''FullWaveDirectionalSpectra_Energy''"

definition create_calls where
  "create_calls F filename s =
     [Create filename,
      Def_dim freq_name (Some (nfreq s)), Def_dim dir_name (Some (ndir s)), Def_dim ''time'' None,
      Def_var freq_name [freq_name], Def_var dir_name [dir_name],
      Put_text dir_name ''units'' (take 7 ''degrees''),
      Def_var ''time'' [''time''],
      Put_text ''time'' ''units'' (take 30 ''seconds since 1970-01-01 00:00:00''),
      Def_var ''EnergySpectra'' [''time'', freq_name],
      Def_var full_name [''time'', dir_name, freq_name],
      End_def,
      Put_all freq_name (freq s),
      Alloc (ndir s),
      Put_all dir_name (map (\<lambda>j. dir s ! j * num F 180 / m_pi F) [0..<ndir s]),
      Close]"

text \<open>The spectrum in the order direction, frequency: cell \<open>j * nfreq + i\<close> is \<open>energy[i][j]\<close>.\<close>

definition full_buf where
  "full_buf s = concat (map (\<lambda>j. map (\<lambda>i. energy s ! i ! j) [0..<nfreq s]) [0..<ndir s])"

definition append_calls where
  "append_calls filename s time_seconds time_idx =
     [Open filename, Inq_dim ''time'', Inq_dimlen ''time'',
      Inq_var ''time'', Inq_var ''EnergySpectra'', Inq_var full_name,
      Put_slice ''time'' [time_idx] [1] [time_seconds],
      Alloc (nfreq s),
      Put_slice ''EnergySpectra'' [time_idx, 0] [1, nfreq s]
        (map (\<lambda>i. row_sum s i * dtheta s) [0..<nfreq s]),
      Alloc (ndir s * nfreq s),
      Put_slice full_name [time_idx, 0, 0] [1, ndir s, nfreq s] (full_buf s),
      Close]"

text \<open>
  The calls up to the first that fails, and the value returned. \<open>lib made c\<close> is the answer to the
  call \<open>c\<close> after the calls \<open>made\<close>; 0 is \<open>NC_NOERR\<close>.
\<close>

fun nc_run :: "('d nc_call list \<Rightarrow> 'd nc_call \<Rightarrow> int) \<Rightarrow> 'd nc_call list \<Rightarrow> 'd nc_call list \<Rightarrow> 'd nc_call list \<times> int" where
  "nc_run lib made [] = (made, 0)"
| "nc_run lib made (c # cs) =
     (let ret = lib made c in if ret \<noteq> 0 then (made @ [c], ret) else nc_run lib (made @ [c]) cs)"

text \<open>\<open>time_len\<close> is the length of the time dimension that the library reports.\<close>

definition write_spectrum_to_netcdf where
  "write_spectrum_to_netcdf F lib time_len filename s time_seconds is_first =
     nc_run lib [] ((if is_first then create_calls F filename s else [])
       @ append_calls filename s time_seconds time_len)"

section \<open>The run\<close>

text \<open>What \<open>print_progress\<close> prints; a percentage that is no \<open>int\<close> is undefined.\<close>

record 'd progress =
  p_percent :: int
  p_time :: 'd
  p_Hs :: 'd
  p_fp :: 'd

definition print_progress where
  "print_progress F t duration Hs fp =
     (case m_trunc F (num F 100 * t / duration) of
        None \<Rightarrow> Inl ConvOverflow
      | Some percent \<Rightarrow> Inr \<lparr>p_percent = percent, p_time = t, p_Hs = Hs, p_fp = fp\<rparr>)"

text \<open>A record written: its time, the spectrum, and whether the file is created.\<close>

record 'd run_state =
  r_spec :: "'d spectrum"
  r_time :: 'd
  r_written :: "('d \<times> 'd spectrum \<times> bool) list"
  r_progress :: "'d progress list"

definition run_step where
  "run_step F al wind par duration step r =
     bindE (integrator_step F al (r_spec r) wind par EULER_FORWARD step) (\<lambda>s.
       let t = r_time r + step;
           r = r\<lparr>r_spec := s, r_time := t\<rparr>
       in if m_fmod F t (num F 1800) < step
          then bindE (print_progress F t duration (spectrum_Hs F s) (peak_freq s)) (\<lambda>p.
                 Inr (r\<lparr>r_written := r_written r @ [(t, s, False)], r_progress := r_progress r @ [p]\<rparr>))
          else Inr r)"

text \<open>The loop; \<open>None\<close> is a run that does not end.\<close>

partial_function (option) run_loop where
  "run_loop F al wind par duration step r =
     (if r_time r < (duration :: 'd :: {zero, one, plus, minus, uminus, times, inverse, ord})
      then (case run_step F al wind par duration step r of
              Inl e \<Rightarrow> Some (Inl e)
            | Inr r \<Rightarrow> run_loop F al wind par duration step r)
      else Some (Inr r))"

declare run_loop.simps [code]

definition run_duration_limited_test where
  "run_duration_limited_test F al s wind par duration =
     run_loop F al wind par duration (compute_adaptive_dt s (time_step_control_default F))
       \<lparr>r_spec = s, r_time = 0, r_written = [(0, s, True)], r_progress = []\<rparr>"

definition wave_start where
  "wave_start F =
     (case m_floor F (m_log F (num F 1 / lit F 4 100) / m_log F (XFR F)) of
        None \<Rightarrow> Inl ConvOverflow
      | Some n \<Rightarrow>
          Inr (spectrum_init_jonswap F (spectrum_create F (nat (n + 1)) 36 (lit F 4 100))
                 (lit F 5 10) (lit F 2 10) (lit F 33 10)))"

definition wave_wind :: "'d libm \<Rightarrow> ('d :: zero) wind_forcing" where
  "wave_wind F = \<lparr>u10 = num F 15, wind_dir = 0, rho_air = lit F 1225 1000, rho_water = num F 1025\<rparr>"

text \<open>What \<open>main\<close> prints at the end.\<close>

record 'd wave_report =
  w_Hs :: 'd
  w_growth :: 'd
  w_fp :: 'd
  w_shift :: 'd

definition wave_report where
  "wave_report F s =
     (let Hs = spectrum_Hs F s; fp = peak_freq s
      in \<lparr>w_Hs = Hs, w_growth = Hs / lit F 5 10, w_fp = fp, w_shift = (lit F 2 10 - fp) / lit F 2 10 * num F 100\<rparr>)"

definition wave_main where
  "wave_main F al =
     (case wave_start F of
        Inl e \<Rightarrow> Some (Inl e)
      | Inr s \<Rightarrow>
          map_option (\<lambda>res. bindE res (\<lambda>r. Inr (r, wave_report F (r_spec r))))
            (run_duration_limited_test F al s (wave_wind F) (st6_params_default F) (num F 3600 * num F 24)))"

end
