(* ===== verification/WaveFacts.thy ===== *)
theory WaveFacts
  imports WaveModel
begin

text \<open>
  What holds of the wave model. The interface \<open>signs\<close> lists the laws of arithmetic that the signs of
  the source terms rest on; \<open>double\<close> with its roundings and \<open>real\<close> both have them. Then the run on
  \<open>double\<close> (signs, grid, end of the loop), the start in exact arithmetic, and the output.
\<close>

section \<open>Arithmetic with signs\<close>

text \<open>
  \<open>pn\<close>: a proper number; \<open>nn\<close>: not below zero (or no number); \<open>sf\<close>: without a sign bit, so that one can
  divide by it and stay there; \<open>lt n d\<close>: the constant \<open>n / d\<close>.
\<close>

locale signs =
  fixes pn nn sf :: "'d :: {zero, one, plus, minus, uminus, times, inverse, ord} \<Rightarrow> bool"
    and lt :: "int \<Rightarrow> int \<Rightarrow> 'd"
  assumes nn_pn: "nn x \<Longrightarrow> pn x"
    and sf_nn: "sf x \<Longrightarrow> nn x"
    and sf_0: "sf 0"
    and sf_lt: "0 \<le> n \<Longrightarrow> 0 < d \<Longrightarrow> sf (lt n d)"
    and pn_plus: "pn x \<Longrightarrow> pn y \<Longrightarrow> pn (x + y)"
    and pn_minus: "pn x \<Longrightarrow> pn y \<Longrightarrow> pn (x - y)"
    and pn_uminus: "pn x \<Longrightarrow> pn (- x)"
    and pn_times: "pn x \<Longrightarrow> pn y \<Longrightarrow> pn (x * y)"
    and pn_divide: "pn x \<Longrightarrow> pn y \<Longrightarrow> pn (x / y)"
    and sf_plus: "sf x \<Longrightarrow> nn y \<Longrightarrow> sf (x + y)"
    and nn_plus: "nn x \<Longrightarrow> nn y \<Longrightarrow> nn (x + y)"
    and sf_times: "sf x \<Longrightarrow> sf y \<Longrightarrow> sf (x * y)"
    and nn_times: "nn x \<Longrightarrow> nn y \<Longrightarrow> nn (x * y)"
    and sf_divide: "sf x \<Longrightarrow> sf y \<Longrightarrow> sf (x / y)"
    and nn_divide: "nn x \<Longrightarrow> sf y \<Longrightarrow> nn (x / y)"
    and clamped: "pn x \<Longrightarrow> \<not> x < 0 \<Longrightarrow> nn x"
    and above: "pn x \<Longrightarrow> sf y \<Longrightarrow> y < x \<Longrightarrow> sf x"
    and not_below: "pn x \<Longrightarrow> 0 \<le> n \<Longrightarrow> 0 < d \<Longrightarrow> \<not> x \<le> lt n d \<Longrightarrow> sf x"
    and neg_nn: "nn x \<Longrightarrow> \<not> 0 < - x"
    and irrefl: "\<not> x < x"
    and ordered: "pn x \<Longrightarrow> pn y \<Longrightarrow> x \<le> y \<Longrightarrow> nn (y - x)"
    and reduced: "nn x \<Longrightarrow> nn L \<Longrightarrow> \<not> lt 1 1 < L \<Longrightarrow> \<not> x < x * L"
    and shelter: "pn t \<Longrightarrow> \<not> lt 1 1 < t \<Longrightarrow> sf (lt 28 10 - (lt 1 1 + t))"

text \<open>What the library functions give: proper numbers, with the signs of the functions they compute.\<close>

definition lib_ok where
  "lib_ok pn nn sf lt F \<longleftrightarrow> lit F = lt \<and>
     (\<forall>x. sf x \<longrightarrow> sf (m_sqrt F x)) \<and> (\<forall>x. sf (m_exp F x)) \<and> (\<forall>x. pn (m_log F x)) \<and> (\<forall>x. pn (m_cos F x)) \<and>
     (\<forall>x. pn (m_tanh F x) \<and> \<not> lt 1 1 < m_tanh F x) \<and> (\<forall>x y. nn x \<longrightarrow> nn y \<longrightarrow> nn (m_pow F x y))"

text \<open>For the start also powers of positive numbers and squares.\<close>

definition start_lib where
  "start_lib pn nn sf lt F \<longleftrightarrow> lib_ok pn nn sf lt F \<and> (\<forall>x y. sf x \<longrightarrow> sf (m_pow F x y)) \<and>
     (\<forall>x. nn (m_pow F x (num F 2)))"

definition spec_good where
  "spec_good nn sf s \<longleftrightarrow> 0 < nfreq s \<and> length (freq s) = nfreq s \<and> length (dir s) = ndir s \<and>
     length (dsii s) = nfreq s \<and> length (energy s) = nfreq s \<and>
     (\<forall>row \<in> set (energy s). length row = ndir s \<and> (\<forall>E \<in> set row. nn E)) \<and>
     (\<forall>f \<in> set (freq s). sf f) \<and> (\<forall>w \<in> set (dsii s). nn w) \<and> sf (dtheta s)"

definition wind_good where
  "wind_good pn nn sf wind par \<longleftrightarrow> pn (u10 wind) \<and> sf (rho_air wind) \<and> sf (rho_water wind) \<and>
     pn (z0 par) \<and> pn (sin6ws par) \<and> sf (a1 par) \<and> sf (a2 par) \<and> sf (Bnt par) \<and>
     nn (par_L par) \<and> nn (par_M par)"

text \<open>All cells of a table of the spectrum's size.\<close>

definition all_cells where
  "all_cells P s dS \<longleftrightarrow> length dS = nfreq s \<and> (\<forall>row \<in> set dS. length row = ndir s \<and> (\<forall>x \<in> set row. P x))"

lemma all_cells_map:
  "(\<And>i j. i < nfreq s \<Longrightarrow> j < ndir s \<Longrightarrow> P (f i j)) \<Longrightarrow>
    all_cells P s (map (\<lambda>i. map (f i) [0..<ndir s]) [0..<nfreq s])"
  by (auto simp: all_cells_def)

lemma all_cells_nth:
  assumes "all_cells P s dS" "i < nfreq s" "j < ndir s"
  shows "P (dS ! i ! j)"
proof -
  have "dS ! i \<in> set dS" using assms(1,2) by (simp add: all_cells_def)
  then have "length (dS ! i) = ndir s" "\<forall>x \<in> set (dS ! i). P x" using assms(1) by (simp_all add: all_cells_def)
  then show ?thesis using assms(3) by simp
qed

lemma all_cells_rows:
  "(\<And>i. i < nfreq s \<Longrightarrow> length (f i) = ndir s \<and> (\<forall>x \<in> set (f i). P x)) \<Longrightarrow> all_cells P s (map f [0..<nfreq s])"
  by (auto simp: all_cells_def)

lemma all_cells_mono: "all_cells P s dS \<Longrightarrow> (\<And>x. P x \<Longrightarrow> Q x) \<Longrightarrow> all_cells Q s dS"
  by (auto simp: all_cells_def)

text \<open>The stress constraint returns the table as it is or with every row reduced.\<close>

lemma constraint_cases:
  assumes "apply_stress_constraint F al s wind par dS = Inr dS'"
  shows "dS' = dS \<or> (\<exists>n (gr :: _ stress_grid) (t :: _ stresses) R. nfreq s \<le> n \<and> length (g_ucinv gr) = n \<and>
    dS' = reduce_rows (stress_rounds F al wind gr t ITER_MAX (replicate n (num F 1)) R (num F 2) 1 False) (nfreq s) dS)"
proof (cases "tail_size F s")
  case None
  then show ?thesis using assms by (auto simp: apply_stress_constraint_def split: if_splits)
next
  case (Some n)
  define gr where "gr = stress_grid F s (sin6ws par * friction_velocity F (u10 wind) (z0 par))
    (component (m_cos F) s dS) (component (m_sin F) s dS) n"
  define t where "t = viscous_stress F wind (friction_velocity F (u10 wind) (z0 par))"
  define R where "R = excess F wind gr t (g_Sx gr) (g_Sy gr) / num F 90"
  have "nfreq s \<le> n" using Some by (auto simp: tail_size_def split: option.splits if_splits)
  moreover have "length (g_ucinv gr) = n" by (simp add: gr_def stress_grid_def Let_def)
  moreover have "dS' = dS \<or>
      dS' = reduce_rows (stress_rounds F al wind gr t ITER_MAX (replicate n (num F 1)) R (num F 2) 1 False) (nfreq s) dS"
    using assms unfolding apply_stress_constraint_def Some Let_def option.case gr_def [symmetric] t_def [symmetric]
      R_def [symmetric] by (auto split: if_splits)
  ultimately show ?thesis by blast
qed

lemma stress_rounds_result:
  "stress_rounds F al wind gr t k lfact R dR so ov = lfact \<or>
    (\<exists>R'. stress_rounds F al wind gr t k lfact R dR so ov = lfactors F gr R')"
proof (induction k arbitrary: lfact R dR so ov)
  case (Suc k)
  have "stress_rounds F al wind gr t (Suc k) lfact R dR so ov = lfactors F gr R \<or>
      (\<exists>R' dR' so' ov'. stress_rounds F al wind gr t (Suc k) lfact R dR so ov =
        stress_rounds F al wind gr t k (lfactors F gr R) R' dR' so' ov')"
    by (simp only: stress_rounds.simps Let_def split: if_split) blast
  then show ?case using Suc.IH by metis
qed simp

text \<open>Spectra on one grid; the search of the peak changes nothing else.\<close>

definition same_grid where
  "same_grid s s' \<longleftrightarrow> nfreq s' = nfreq s \<and> ndir s' = ndir s \<and> freq s' = freq s \<and> dir s' = dir s \<and>
     dsii s' = dsii s \<and> dtheta s' = dtheta s"

lemma update_peak_simps [simp]:
  "nfreq (spectrum_update_peak s) = nfreq s" "ndir (spectrum_update_peak s) = ndir s"
  "freq (spectrum_update_peak s) = freq s" "dir (spectrum_update_peak s) = dir s"
  "energy (spectrum_update_peak s) = energy s" "dsii (spectrum_update_peak s) = dsii s"
  "dtheta (spectrum_update_peak s) = dtheta s"
  by (simp_all add: spectrum_update_peak_def split: prod.split)

context signs
begin

lemma lib_lit: "lib_ok pn nn sf lt F \<Longrightarrow> lit F = lt"
  and lib_sqrt: "lib_ok pn nn sf lt F \<Longrightarrow> sf x \<Longrightarrow> sf (m_sqrt F x)"
  and lib_exp: "lib_ok pn nn sf lt F \<Longrightarrow> sf (m_exp F x)"
  and lib_log: "lib_ok pn nn sf lt F \<Longrightarrow> pn (m_log F x)"
  and lib_cos: "lib_ok pn nn sf lt F \<Longrightarrow> pn (m_cos F x)"
  and lib_tanh: "lib_ok pn nn sf lt F \<Longrightarrow> pn (m_tanh F x) \<and> \<not> lt 1 1 < m_tanh F x"
  and lib_pow: "lib_ok pn nn sf lt F \<Longrightarrow> nn x \<Longrightarrow> nn y \<Longrightarrow> nn (m_pow F x y)"
  by (auto simp: lib_ok_def)

lemma sf_num: "lib_ok pn nn sf lt F \<Longrightarrow> sf (num F n)"
  by (simp add: num_def lib_lit sf_lt)

lemma sf_lit: "lib_ok pn nn sf lt F \<Longrightarrow> 0 \<le> n \<Longrightarrow> 0 < d \<Longrightarrow> sf (lit F n d)"
  by (simp add: lib_lit sf_lt)

lemma sf_pi: "lib_ok pn nn sf lt F \<Longrightarrow> sf (m_pi F)"
  by (simp add: m_pi_def sf_lit)

lemma sf_pn: "sf x \<Longrightarrow> pn x"
  by (simp add: nn_pn sf_nn)

lemma sf_nn_times: "sf x \<Longrightarrow> nn y \<Longrightarrow> nn (x * y)"
  by (simp add: nn_times sf_nn)

lemmas arith = sf_times sf_divide nn_times nn_divide nn_plus sf_plus sf_num sf_pi sf_lit
  pn_plus pn_minus pn_uminus pn_times pn_divide

lemma fold_sf: "sf a \<Longrightarrow> (\<forall>x \<in> set xs. nn x) \<Longrightarrow> sf (foldl (+) a xs)"
  by (induction xs arbitrary: a) (auto simp: sf_plus)

lemma sum_up_sf: "(\<And>x. x \<in> set xs \<Longrightarrow> nn x) \<Longrightarrow> sf (sum_up xs)"
  by (simp add: sum_up_def fold_sf sf_0)

lemma fold_max_pn: "pn a \<Longrightarrow> (\<forall>x \<in> set xs. pn x) \<Longrightarrow> pn (foldl (\<lambda>m E. if m < E then E else m) a xs)"
  by (induction xs arbitrary: a) auto

lemma fold_max_sf: "sf a \<Longrightarrow> (\<forall>x \<in> set xs. sf x) \<Longrightarrow> sf (foldl (\<lambda>m E. if m < E then E else m) a xs)"
  by (induction xs arbitrary: a) auto

lemma good_freq: "spec_good nn sf s \<Longrightarrow> i < nfreq s \<Longrightarrow> sf (freq s ! i)"
  and good_dsii: "spec_good nn sf s \<Longrightarrow> i < nfreq s \<Longrightarrow> nn (dsii s ! i)"
  and good_dtheta: "spec_good nn sf s \<Longrightarrow> sf (dtheta s)"
  and good_cells: "spec_good nn sf s \<Longrightarrow> all_cells nn s (energy s)"
  by (simp_all add: spec_good_def all_cells_def)

lemmas good_cell = all_cells_nth [OF good_cells]

lemma row_sum_sf: "spec_good nn sf s \<Longrightarrow> i < nfreq s \<Longrightarrow> sf (row_sum s i)"
  unfolding row_sum_def by (rule sum_up_sf) (auto simp: spec_good_def)

lemma wind_cell_nn:
  assumes "lib_ok pn nn sf lt F" "sf sqrtBn" "pn us" "sf c" "sf sigma" "sf rr" "pn cd" "nn E"
  shows "nn (wind_cell F sqrtBn us c sigma rr cd E)"
proof -
  define arg where "arg = us / c * cd - num F 1"
  define W where "W = (if 0 < arg then arg * arg else 0)"
  define sh where "sh = lit F 28 10 - (num F 1 + m_tanh F (num F 10 * sqrtBn * W - num F 11))"
  have "pn arg" unfolding arg_def using assms by (simp add: arith sf_pn)
  then have "sf W" unfolding W_def using above [of arg 0] by (auto simp: sf_0 intro: sf_times)
  moreover have "sf sh"
    unfolding sh_def using lib_tanh [OF assms(1)] shelter by (simp add: lib_lit [OF assms(1)] num_def)
  ultimately have "sf (sh * sqrtBn * W * sigma * rr)" using assms by (simp add: arith)
  then have "nn (sh * sqrtBn * W * sigma * rr * E)" using assms(8) by (rule nn_times [OF sf_nn])
  moreover have "wind_cell F sqrtBn us c sigma rr cd E =
      (if cd \<le> FLT_MIN F then 0 else sh * sqrtBn * W * sigma * rr * E)"
    unfolding wind_cell_def Let_def arg_def [symmetric] W_def [symmetric] sh_def [symmetric] ..
  ultimately show ?thesis by (simp add: sf_0 sf_nn)
qed

lemma saturation_sf:
  assumes "lib_ok pn nn sf lt F" "spec_good nn sf s" "i < nfreq s" "sf c" "sf k" "sf maxE"
  shows "sf (saturation F s (energy s ! i) c k maxE)"
proof -
  have row: "nn E" if "E \<in> set (energy s ! i)" for E
    using assms(2,3) that by (auto simp: spec_good_def)
  have dth: "sf (dtheta s)" using assms(2) by (simp add: spec_good_def)
  have "sf (sum_up (map (\<lambda>E. E / maxE * dtheta s) (energy s ! i)))"
    by (rule sum_up_sf) (use row assms(6) dth in \<open>auto intro: nn_times nn_divide sf_nn\<close>)
  moreover have "sf (sum_up (energy s ! i))" using row by (rule sum_up_sf)
  ultimately have "sf (num F 1 / sum_up (map (\<lambda>E. E / maxE * dtheta s) (energy s ! i)) *
      (num F 1 / (num F 2 * m_pi F) * (sum_up (energy s ! i) * dtheta s) * k * k * k * (lit F 5 10 * c)))"
    using assms dth by (simp add: arith)
  then show ?thesis
    using assms(1) lib_sqrt [OF assms(1)] by (simp add: saturation_def Let_def sf_lit)
qed

lemma wind_row_nn:
  assumes F: "lib_ok pn nn sf lt F" and s: "spec_good nn sf s" and w: "wind_good pn nn sf wind par" and i: "i < nfreq s"
  shows "length (wind_row F s wind par i) = ndir s \<and> (\<forall>x \<in> set (wind_row F s wind par i). nn x)"
proof -
  have f: "sf (freq s ! i)" and row: "length (energy s ! i) = ndir s" "\<forall>E \<in> set (energy s ! i). nn E"
    using s i by (auto simp: spec_good_def)
  have c: "sf (phase_speed F (freq s ! i))" "sf (num F 2 * m_pi F * freq s ! i)"
    using F f by (simp_all add: phase_speed_def G_acc_def arith)
  have k: "sf (num F 2 * m_pi F * freq s ! i * (num F 2 * m_pi F * freq s ! i) / G_acc F)"
    using F c by (simp add: G_acc_def arith)
  have us: "pn (friction_velocity F (u10 wind) (z0 par) * sin6ws par)" "sf (rho_air wind / rho_water wind)"
    using w F by (auto simp: wind_good_def friction_velocity_def sf_pn sf_num sf_lit lib_log sf_divide
        intro!: pn_times pn_divide)
  have "pn (row_max F (energy s ! i))"
    unfolding row_max_def by (rule fold_max_pn) (use F row in \<open>auto simp: sf_pn sf_num nn_pn pn_uminus\<close>)
  then have mx: "sf (row_max F (energy s ! i))" if "\<not> row_max F (energy s ! i) \<le> FLT_MIN F"
    using not_below [of _ 1 "10 ^ 38"] that F by (simp add: FLT_MIN_def lib_lit)
  have cell: "nn (wind_cell F (saturation F s (energy s ! i) (phase_speed F (freq s ! i))
        (num F 2 * m_pi F * freq s ! i * (num F 2 * m_pi F * freq s ! i) / G_acc F) (row_max F (energy s ! i)))
      (friction_velocity F (u10 wind) (z0 par) * sin6ws par) (phase_speed F (freq s ! i))
      (num F 2 * m_pi F * freq s ! i) (rho_air wind / rho_water wind) cd (energy s ! i ! j))"
    if "\<not> row_max F (energy s ! i) \<le> FLT_MIN F" "pn cd" "j < ndir s" for cd j
    using that F c us row by (intro wind_cell_nn saturation_sf [OF F s i c(1) k mx]) auto
  show ?thesis
    using cell lib_cos [OF F] by (auto simp: wind_row_def Let_def sf_0 sf_nn)
qed

text \<open>A reduction factor.\<close>

definition factor where "factor L \<longleftrightarrow> nn L \<and> \<not> lt 1 1 < L"

lemma lfactors_ok: "lib_ok pn nn sf lt F \<Longrightarrow> (\<forall>L \<in> set (lfactors F gr R). factor L) \<and> length (lfactors F gr R) = length (g_ucinv gr)"
  by (auto simp: lfactors_def Let_def factor_def num_def lib_lit lib_exp sf_lt sf_nn irrefl)

lemma stress_rounds_ok:
  assumes "lib_ok pn nn sf lt F" "length (g_ucinv gr) = n" "\<forall>L \<in> set lfact. factor L" "length lfact = n"
  shows "(\<forall>L \<in> set (stress_rounds F al wind gr t k lfact R dR so ov). factor L) \<and>
    length (stress_rounds F al wind gr t k lfact R dR so ov) = n"
  using stress_rounds_result [of F al wind gr t k lfact R dR so ov] lfactors_ok [OF assms(1), of gr] assms(2-4)
  by (elim disjE exE) simp_all

lemma reduce_rows_ok:
  assumes "all_cells nn s dS" "\<forall>L \<in> set lf. factor L" "nfreq s \<le> length lf"
  shows "all_cells nn s (reduce_rows lf (nfreq s) dS) \<and>
    (\<forall>i < nfreq s. \<forall>j < ndir s. \<not> dS ! i ! j < reduce_rows lf (nfreq s) dS ! i ! j)"
proof -
  have L: "factor (lf ! i)" if "i < nfreq s" for i using assms(2,3) that by simp
  have row: "length (dS ! i) = ndir s" "\<forall>x \<in> set (dS ! i). nn x" if "i < nfreq s" for i
    using assms(1) that by (auto simp: all_cells_def)
  show ?thesis
  proof
    show "all_cells nn s (reduce_rows lf (nfreq s) dS)"
      unfolding reduce_rows_def
      by (rule all_cells_rows) (use L row in \<open>auto simp: factor_def intro: nn_times\<close>)
    show "\<forall>i < nfreq s. \<forall>j < ndir s. \<not> dS ! i ! j < reduce_rows lf (nfreq s) dS ! i ! j"
      using L row reduced by (auto simp: reduce_rows_def factor_def)
  qed
qed

lemma wind_input_ok:
  assumes F: "lib_ok pn nn sf lt F" and s: "spec_good nn sf s" and w: "wind_good pn nn sf wind par"
    and run: "source_term_wind_input F al s wind par = Inr dS"
  shows "all_cells nn s dS \<and> (\<forall>i < nfreq s. \<forall>j < ndir s. \<not> wind_row F s wind par i ! j < dS ! i ! j)"
proof -
  define raw where "raw = map (wind_row F s wind par) [0..<nfreq s]"
  have raw: "all_cells nn s raw"
    unfolding raw_def by (rule all_cells_rows) (rule wind_row_nn [OF F s w])
  have nth: "raw ! i = wind_row F s wind par i" if "i < nfreq s" for i using that by (simp add: raw_def)
  have one: "\<forall>L \<in> set (replicate n (num F 1)). factor L" for n
    using F by (auto simp: factor_def num_def lib_lit sf_lt sf_nn irrefl)
  have "apply_stress_constraint F al s wind par raw = Inr dS"
    using run by (simp add: source_term_wind_input_def raw_def)
  from constraint_cases [OF this] show ?thesis
  proof
    assume "dS = raw"
    then show ?thesis using raw irrefl nth by simp
  next
    assume "\<exists>n (gr :: _ stress_grid) (t :: _ stresses) R. nfreq s \<le> n \<and> length (g_ucinv gr) = n \<and>
      dS = reduce_rows (stress_rounds F al wind gr t ITER_MAX (replicate n (num F 1)) R (num F 2) 1 False) (nfreq s) raw"
    then obtain n and gr :: "_ stress_grid" and t :: "_ stresses" and R where n: "nfreq s \<le> n" "length (g_ucinv gr) = n"
      "dS = reduce_rows (stress_rounds F al wind gr t ITER_MAX (replicate n (num F 1)) R (num F 2) 1 False) (nfreq s) raw"
      by blast
    define lf where "lf = stress_rounds F al wind gr t ITER_MAX (replicate n (num F 1)) R (num F 2) 1 False"
    have "(\<forall>L \<in> set lf. factor L) \<and> length lf = n"
      unfolding lf_def by (rule stress_rounds_ok [OF F n(2) one]) simp
    then show ?thesis
      using reduce_rows_ok [OF raw, of lf] n(1) nth unfolding n(3) lf_def [symmetric] by simp
  qed
qed

lemma accumulate_ok:
  assumes "\<forall>x \<in> set xs. nn x" "\<forall>a. acc = Some a \<longrightarrow> nn a"
  shows "length (accumulate acc xs) = length xs" "\<forall>v \<in> set (accumulate acc xs). nn v"
proof -
  have "length (accumulate acc xs) = length xs \<and> (\<forall>v \<in> set (accumulate acc xs). nn v)"
    using assms
  proof (induction xs arbitrary: acc)
    case (Cons x xs)
    define v where "v = (case acc of None \<Rightarrow> x | Some a \<Rightarrow> a + x)"
    have nnv: "nn v" using Cons.prems by (cases acc) (auto simp: v_def nn_plus)
    have eq: "accumulate acc (x # xs) = v # accumulate (Some v) xs"
      by (simp only: accumulate.simps Let_def v_def)
    have "\<forall>x \<in> set xs. nn x" "\<forall>a. Some v = Some a \<longrightarrow> nn a" using Cons.prems(1) nnv by simp_all
    from Cons.IH [OF this] show ?case unfolding eq using nnv by simp
  qed simp
  then show "length (accumulate acc xs) = length xs" "\<forall>v \<in> set (accumulate acc xs). nn v" by blast+
qed

lemma fmax_0: "nn x \<Longrightarrow> nn (fmax x 0)"
  by (simp add: fmax_def sf_0 sf_nn)

lemma excess_ratio_nn:
  assumes "sf E" "sf T"
  shows "nn (excess_ratio par eps E T)"
proof -
  define D where "D = (if E - T < 0 then 0 else E - T)"
  have "pn (E - T)" using assms by (simp add: sf_pn pn_minus)
  then have "nn D" using clamped by (simp add: D_def sf_0 sf_nn)
  then show ?thesis
    unfolding excess_ratio_def Let_def D_def [symmetric] using assms by (simp add: nn_divide sf_0 sf_nn)
qed

lemma threshold_sf:
  assumes "lib_ok pn nn sf lt F" "sf f" "sf (Bnt par)"
  shows "sf (threshold F par f)"
  using assms by (simp add: threshold_def Let_def arith)

lemma diss_ratios_nn:
  assumes "lib_ok pn nn sf lt F" "spec_good nn sf s" "wind_good pn nn sf wind par"
  shows "length (diss_ratios F s par) = nfreq s \<and> (\<forall>i < nfreq s. nn (diss_ratios F s par ! i))"
proof -
  have "sf (dtheta s)" using assms(2) by (simp add: spec_good_def)
  then have "sf (row_sum s i * dtheta s)" if "i < nfreq s" for i
    using row_sum_sf [OF assms(2) that] by (rule sf_times [rotated])
  moreover have "sf (threshold F par (freq s ! i))" if "i < nfreq s" for i
    using assms that by (intro threshold_sf) (simp_all add: good_freq wind_good_def)
  ultimately show ?thesis by (simp add: diss_ratios_def Let_def excess_ratio_nn)
qed

lemma dissipation_ok:
  assumes F: "lib_ok pn nn sf lt F" and s: "spec_good nn sf s" and w: "wind_good pn nn sf wind par"
  shows "all_cells (\<lambda>x. pn x \<and> \<not> 0 < x) s (source_term_dissipation F al s par)"
proof (cases "al_diss al")
  case False
  then show ?thesis
    by (auto simp: source_term_dissipation_def all_cells_def sf_0 sf_pn irrefl)
next
  case True
  define ratio where "ratio = diss_ratios F s par"
  define integrand where "integrand = map (\<lambda>i. m_pow F (ratio ! i) (par_M par) * dsii s ! i) [0..<nfreq s]"
  define accum where "accum = accumulate None integrand"
  have ratio: "nn (ratio ! i)" if "i < nfreq s" for i
    using diss_ratios_nn [OF F s w] that by (simp add: ratio_def)
  have good: "sf (freq s ! i)" "nn (dsii s ! i)" if "i < nfreq s" for i
    using s that by (simp_all add: good_freq good_dsii)
  have "\<forall>x \<in> set integrand. nn x"
    using ratio good w by (auto simp: integrand_def wind_good_def intro!: nn_times lib_pow [OF F])
  note acc_ok = accumulate_ok [OF this, of None, folded accum_def]
  have acc: "nn (accum ! i)" if "i < nfreq s" for i
  proof -
    have "length accum = nfreq s" using acc_ok(1) by (simp add: integrand_def)
    then show ?thesis using acc_ok(2) that by simp
  qed
  have E: "nn (energy s ! i ! j)" if "i < nfreq s" "j < ndir s" for i j
    using s that by (rule good_cell)
  have par: "sf (a1 par)" "sf (a2 par)" using w by (simp_all add: wind_good_def)
  have cell: "nn (a1 par * freq s ! i * m_pow F (fmax (ratio ! i) 0) (par_L par) * energy s ! i ! j +
      a2 par * accum ! i * energy s ! i ! j)" if "i < nfreq s" "j < ndir s" for i j
  proof (intro nn_plus nn_times)
    show "nn (a1 par)" "nn (a2 par)" using par by (simp_all add: sf_nn)
    show "nn (freq s ! i)" using good(1) [OF that(1)] by (rule sf_nn)
    show "nn (m_pow F (fmax (ratio ! i) 0) (par_L par))" by (rule lib_pow [OF F fmax_0 [OF ratio [OF that(1)]]]) (use w in \<open>simp add: wind_good_def\<close>)
    show "nn (energy s ! i ! j)" "nn (energy s ! i ! j)" using E that by simp_all
    show "nn (accum ! i)" using acc that by simp
  qed
  have "source_term_dissipation F al s par = map (\<lambda>i. map (\<lambda>j. - (a1 par * freq s ! i *
      m_pow F (fmax (ratio ! i) 0) (par_L par) * energy s ! i ! j + a2 par * accum ! i * energy s ! i ! j))
      [0..<ndir s]) [0..<nfreq s]"
    unfolding source_term_dissipation_def Let_def ratio_def [symmetric] integrand_def [symmetric] accum_def [symmetric]
    using True by simp
  then show ?thesis
    using cell by (auto intro!: all_cells_map simp: nn_pn pn_uminus dest: neg_nn)
qed

lemma total_pn:
  assumes "lib_ok pn nn sf lt F" "spec_good nn sf s" "wind_good pn nn sf wind par"
    and "source_term_total F al s wind par = Inr dS"
  shows "all_cells pn s dS"
proof -
  obtain dS_in where dS_in: "source_term_wind_input F al s wind par = Inr dS_in"
    "dS = map (\<lambda>i. map (\<lambda>j. dS_in ! i ! j + source_term_dissipation F al s par ! i ! j) [0..<ndir s]) [0..<nfreq s]"
    using assms(4) by (auto simp: source_term_total_def bindE_eq_Inr_iff Let_def)
  have "all_cells pn s dS_in"
    using wind_input_ok [OF assms(1-3) dS_in(1)] all_cells_mono nn_pn by blast
  moreover have "all_cells pn s (source_term_dissipation F al s par)"
    using dissipation_ok [OF assms(1-3)] all_cells_mono by blast
  ultimately show ?thesis
    unfolding dS_in(2) by (intro all_cells_map pn_plus) (simp_all add: all_cells_nth)
qed

text \<open>One step keeps the spectrum good and changes only the energy and the peak.\<close>

lemma integrator_step_ok:
  assumes "lib_ok pn nn sf lt F" "spec_good nn sf s" "wind_good pn nn sf wind par" "pn step"
    and "integrator_step F al s wind par ty step = Inr s'"
  shows "spec_good nn sf s' \<and> same_grid s s'"
proof -
  have "bindE (euler_step F al s wind par step) (\<lambda>s. Inr (spectrum_update_peak s)) = Inr s'"
    using assms(5) by (cases ty) (simp_all add: integrator_step_def)
  then obtain s1 where s1: "euler_step F al s wind par step = Inr s1" "s' = spectrum_update_peak s1"
    by (auto simp: bindE_eq_Inr_iff)
  obtain dS where dS: "source_term_total F al s wind par = Inr dS"
    "s1 = s\<lparr>energy := map (\<lambda>i. map (\<lambda>j. let new_energy = energy s ! i ! j + dS ! i ! j * step
        in if new_energy < 0 then 0 else new_energy) [0..<ndir s]) [0..<nfreq s]\<rparr>"
    using s1(1) by (auto simp: euler_step_def bindE_eq_Inr_iff)
  have old: "nn (energy s ! i ! j)" if "i < nfreq s" "j < ndir s" for i j
    using assms(2) that by (rule good_cell)
  have new: "pn (energy s ! i ! j + dS ! i ! j * step)" if "i < nfreq s" "j < ndir s" for i j
    using total_pn [OF assms(1-3) dS(1)] old that assms(4)
    by (intro pn_plus pn_times) (simp_all add: all_cells_nth nn_pn)
  have "all_cells nn s (energy s1)"
    unfolding dS(2) using new clamped
    by (auto intro!: all_cells_map simp: Let_def sf_0 sf_nn)
  then show ?thesis
    using assms(2) unfolding s1(2) by (auto simp: spec_good_def same_grid_def all_cells_def dS(2))
qed

text \<open>The start: a grid of rising frequencies and the JONSWAP energies.\<close>

lemma band_widths_nn:
  assumes F: "lib_ok pn nn sf lt F" and "2 \<le> n" "length fr = n" "\<forall>f \<in> set fr. sf f"
    and rising: "\<And>i j. i \<le> j \<Longrightarrow> j < n \<Longrightarrow> fr ! i \<le> fr ! j"
  shows "\<forall>w \<in> set (band_widths F fr n). nn w"
proof -
  have half: "nn (lit F 5 10 * (fr ! j - fr ! i))" if "i \<le> j" "j < n" for i j
  proof -
    have "pn (fr ! i)" "pn (fr ! j)" using assms(3,4) that by (simp_all add: sf_pn)
    then have "nn (fr ! j - fr ! i)" using rising [OF that] by (rule ordered)
    then show ?thesis using F by (intro sf_nn_times sf_lit) simp_all
  qed
  show ?thesis using half assms(2) by (auto simp: band_widths_def)
qed

lemma create_good:
  assumes F: "start_lib pn nn sf lt F" and "sf f_min"
    and rising: "\<And>i j. i \<le> j \<Longrightarrow> f_min * m_pow F (XFR F) (num F i) \<le> f_min * m_pow F (XFR F) (num F j)"
  shows "spec_good nn sf (spectrum_create F nfr nd f_min)"
proof -
  define n where "n = (if nfr < 2 then 2 else nfr)"
  define fr where "fr = log_grid F f_min n"
  have ok: "lib_ok pn nn sf lt F" using F by (simp add: start_lib_def)
  have "sf (XFR F)" using ok by (simp add: XFR_def sf_lit)
  then have freqs: "\<forall>f \<in> set fr. sf f"
    using F assms(2) by (auto simp: fr_def log_grid_def start_lib_def sf_times)
  moreover have len: "length fr = n" "2 \<le> n" by (simp_all add: fr_def log_grid_def n_def)
  moreover have "fr ! i \<le> fr ! j" if "i \<le> j" "j < n" for i j
    using rising [OF that(1)] that by (simp add: fr_def log_grid_def)
  ultimately have "\<forall>w \<in> set (band_widths F fr n). nn w" by (intro band_widths_nn [OF ok])
  moreover have "sf (num F 2 * m_pi F / num F nd)" using ok by (simp add: arith)
  moreover have "spectrum_create F nfr nd f_min =
      \<lparr>nfreq = n, ndir = nd, freq = fr,
       dir = map (\<lambda>j. - m_pi F + num F j * (num F 2 * m_pi F / num F nd)) [0..<nd],
       energy = replicate n (replicate nd 0), dsii = band_widths F fr n,
       dtheta = num F 2 * m_pi F / num F nd, peak_freq = f_min\<rparr>"
    by (simp only: spectrum_create_def Let_def n_def fr_def)
  ultimately show ?thesis
    using freqs len by (simp add: spec_good_def sf_0 sf_nn band_widths_def)
qed

lemma jonswap_E_sf:
  assumes "start_lib pn nn sf lt F" "sf fp" "sf gam" "sf f"
  shows "sf (jonswap_E F fp gam f)"
proof -
  have ok: "lib_ok pn nn sf lt F" using assms(1) by (simp add: start_lib_def)
  have pow: "sf x \<Longrightarrow> sf (m_pow F x y)" for x y using assms(1) by (simp add: start_lib_def)
  show ?thesis
    using assms(2-4) ok by (simp add: jonswap_E_def Let_def lib_exp arith pow)
qed

lemma total_energy_sf: "spec_good nn sf s \<Longrightarrow> sf (total_energy s)"
  unfolding total_energy_def
  by (rule sum_up_sf) (auto simp: good_dsii row_sum_sf good_dtheta intro!: sf_nn_times sf_times)

lemma jonswap_good:
  assumes F: "start_lib pn nn sf lt F" and s: "spec_good nn sf s" and "sf Hs" "sf fp" "sf gam"
  shows "spec_good nn sf (spectrum_init_jonswap F s Hs fp gam)"
proof -
  have ok: "lib_ok pn nn sf lt F" and square: "nn (m_pow F x (num F 2))" for x using F by (simp_all add: start_lib_def)
  define s1 where "s1 = jonswap_shape F fp gam s"
  have dist: "nn (dir_dist F t)" for t
    using ok square by (auto simp: dir_dist_def sf_0 sf_nn intro!: nn_times sf_nn [OF sf_divide] sf_num sf_pi)
  have E: "nn (jonswap_E F fp gam (freq s ! i) * dir_dist F t)" if "i < nfreq s" for i t
    using good_freq [OF s that] jonswap_E_sf [OF F assms(4,5)] dist by (intro sf_nn_times)
  have row: "length (energy s ! i) = ndir s \<and> (\<forall>E \<in> set (energy s ! i). nn E)" if "i < nfreq s" for i
  proof -
    have "energy s ! i \<in> set (energy s)" using s that by (simp add: spec_good_def)
    then show ?thesis using s by (simp add: spec_good_def)
  qed
  have "all_cells nn s (energy s1)"
    unfolding s1_def jonswap_shape_def Let_def
    by (simp del: upt.simps, rule all_cells_rows) (use row E in auto)
  then have s1: "spec_good nn sf s1"
    using s by (simp add: s1_def jonswap_shape_def spec_good_def all_cells_def del: nth_map)
  have "sf (Hs / num F 4 * (Hs / num F 4) / total_energy s1)"
    using total_energy_sf [OF s1] assms(3) ok by (simp add: arith)
  then have "spec_good nn sf (scale_energy c s1)" if "c = Hs / num F 4 * (Hs / num F 4) / total_energy s1" for c
    using s1 that by (auto simp: spec_good_def scale_energy_def sf_nn intro!: nn_times)
  then show ?thesis
    by (simp add: spectrum_init_jonswap_def Let_def s1_def spec_good_def)
qed

end

interpretation dbl: signs normal not_neg no_sign d_lit
proof
  fix x y L t :: double
  show "not_neg x \<Longrightarrow> normal x" by (rule not_neg_normal)
  show "no_sign x \<Longrightarrow> not_neg x" by (rule no_sign_not_neg)
  show "no_sign (0 :: double)" by (rule zero_facts)
  show "0 \<le> n \<Longrightarrow> 0 < d \<Longrightarrow> no_sign (d_lit n d)" for n d by (rule no_sign_lit)
  show "normal x \<Longrightarrow> normal y \<Longrightarrow> normal (x + y)" by (rule plus_normal)
  show "normal x \<Longrightarrow> normal y \<Longrightarrow> normal (x - y)" by (rule minus_normal)
  show "normal x \<Longrightarrow> normal (- x)" by (simp add: uminus_normal)
  show "normal x \<Longrightarrow> normal y \<Longrightarrow> normal (x * y)" by (rule times_normal)
  show "normal x \<Longrightarrow> normal y \<Longrightarrow> normal (x / y)" by (rule divide_normal)
  show "no_sign x \<Longrightarrow> not_neg y \<Longrightarrow> no_sign (x + y)" by (rule no_sign_plus)
  show "not_neg x \<Longrightarrow> not_neg y \<Longrightarrow> not_neg (x + y)" by (rule not_neg_plus)
  show "no_sign x \<Longrightarrow> no_sign y \<Longrightarrow> no_sign (x * y)" by (rule no_sign_times)
  show "not_neg x \<Longrightarrow> not_neg y \<Longrightarrow> not_neg (x * y)" by (rule not_neg_times)
  show "no_sign x \<Longrightarrow> no_sign y \<Longrightarrow> no_sign (x / y)" by (rule no_sign_divide)
  show "not_neg x \<Longrightarrow> no_sign y \<Longrightarrow> not_neg (x / y)" by (rule not_neg_divide)
  show "normal x \<Longrightarrow> \<not> x < 0 \<Longrightarrow> not_neg x" by (rule clamped_not_neg)
  show "normal x \<Longrightarrow> no_sign y \<Longrightarrow> y < x \<Longrightarrow> no_sign x" by (rule above_no_sign [of x y]) simp_all
  show "normal x \<Longrightarrow> 0 \<le> n \<Longrightarrow> 0 < d \<Longrightarrow> \<not> x \<le> d_lit n d \<Longrightarrow> no_sign x" for n d
    by (rule above_no_sign [of x "d_lit n d"]) (simp_all add: no_sign_lit lit_not_NaN)
  show "not_neg x \<Longrightarrow> \<not> 0 < - x" by (rule negated_not_pos)
  show "\<not> x < x" by (rule less_irrefl)
  show "x \<le> y \<Longrightarrow> not_neg (y - x)" by (rule ordered_difference)
  show "not_neg x \<Longrightarrow> not_neg L \<Longrightarrow> \<not> d_lit 1 1 < L \<Longrightarrow> \<not> x < x * L" unfolding lit_one by (rule reduced_le)
  show "normal t \<Longrightarrow> \<not> d_lit 1 1 < t \<Longrightarrow> no_sign (d_lit 28 10 - (d_lit 1 1 + t))"
    unfolding lit_one by (rule shelter_sign)
qed

text \<open>The reals, with every number proper and the signs those of the order.\<close>

interpretation ex: signs "\<lambda>_ :: real. True" "\<lambda>x. 0 \<le> x" "\<lambda>x. 0 \<le> x" "\<lambda>n d. of_int n / of_int d"
proof
  show "0 \<le> x" if "0 \<le> n" "0 < d" "\<not> x \<le> of_int n / of_int d" for x :: real and n d
  proof -
    have "0 \<le> of_int n / (of_int d :: real)" using that by simp
    then show ?thesis using that(3) by linarith
  qed
qed (auto simp: mult_left_le not_less)

end
