(* ===== verification/WaveRun.thy ===== *)
theory WaveRun
  imports WaveFacts
begin

text \<open>
  The run of the wave model on \<open>double\<close>: signs of the source terms, the spectra that are written, the
  end of the loop, and the calls of the output. The mathematical library is any that \<open>lib_ok\<close> allows.
\<close>

section \<open>The loop\<close>

text \<open>What every step keeps holds at the end, where the time has passed the duration.\<close>

lemma run_loop_keeps:
  fixes I :: "('d :: {zero, one, plus, minus, uminus, times, inverse, ord}) run_state \<Rightarrow> bool"
  assumes "run_loop F al wind par duration step r = Some (Inr r')"
    and "\<And>r r'. I r \<Longrightarrow> run_step F al wind par duration step r = Inr r' \<Longrightarrow> I r'" "I r"
  shows "I r' \<and> \<not> r_time r' < duration"
proof -
  have "I z \<and> \<not> r_time z < duration" if "run_loop F al wind par duration step r = Some res" "res = Inr z" for res z
    using that assms(2,3)
  proof (induction F al wind par duration step r res
      rule: run_loop.raw_induct [rotated, consumes 1, case_names round])
    case (round loop F al wind par duration step r res)
    show ?case
    proof (cases "r_time r < duration")
      case True
      then obtain q where q: "run_step F al wind par duration step r = Inr q"
        "loop F al wind par duration step q = Some res"
        using round.prems(1,2) round.hyps by (cases "run_step F al wind par duration step r") auto
      show ?thesis using round.IH [OF q(2) round.prems(1)] round.prems(2) [OF _ q(1)] round.prems by blast
    next
      case False
      then show ?thesis using round.hyps round.prems by auto
    qed
  qed
  then show ?thesis using assms(1) by blast
qed

lemma run_step_fields:
  assumes "run_step F al wind par duration step r = Inr r'"
  shows "integrator_step F al (r_spec r) wind par EULER_FORWARD step = Inr (r_spec r')"
    and "r_time r' = r_time r + step"
    and "r_written r' = r_written r \<or> r_written r' = r_written r @ [(r_time r', r_spec r', False)]"
  using assms by (auto simp: run_step_def bindE_eq_Inr_iff Let_def split: if_splits)

section \<open>The spectra of a run\<close>

text \<open>A written record is good when its spectrum is, on the grid of the start \<open>s\<close>.\<close>

definition good_run where
  "good_run s r \<longleftrightarrow> spec_good not_neg no_sign (r_spec r) \<and> same_grid s (r_spec r) \<and>
     (\<forall>w \<in> set (r_written r). spec_good not_neg no_sign (fst (snd w)) \<and> same_grid s (fst (snd w))) \<and>
     (\<exists>n. map (\<lambda>w. snd (snd w)) (r_written r) = True # replicate n False)"

lemma same_grid_refl: "same_grid s s"
  and same_grid_trans: "same_grid s t \<Longrightarrow> same_grid t u \<Longrightarrow> same_grid s u"
  by (simp_all add: same_grid_def)

lemma run_step_good:
  assumes "lib_ok normal not_neg no_sign d_lit F" "wind_good normal not_neg no_sign wind par" "normal step"
    and "good_run s r" "run_step F al wind par duration step r = Inr r'"
  shows "good_run s r'"
proof -
  note f = run_step_fields [OF assms(5)]
  have s: "spec_good not_neg no_sign (r_spec r)" "same_grid s (r_spec r)" using assms(4) by (simp_all add: good_run_def)
  have "spec_good not_neg no_sign (r_spec r') \<and> same_grid (r_spec r) (r_spec r')"
    using f(1) by (rule dbl.integrator_step_ok [OF assms(1) s(1) assms(2,3)])
  then have new: "spec_good not_neg no_sign (r_spec r')" "same_grid s (r_spec r')"
    using s(2) by (auto intro: same_grid_trans)
  have "\<exists>m. (True # replicate n False) @ [False] = True # replicate m False" for n
    by (rule exI [of _ "Suc n"]) (simp add: replicate_append_same)
  then show ?thesis
    using f(3) new assms(4) unfolding good_run_def by (elim disjE) (auto simp del: append_Cons)
qed

lemma adaptive_dt_normal:
  assumes "lib_ok normal not_neg no_sign d_lit F" "spec_good not_neg no_sign s"
  shows "normal (compute_adaptive_dt s (time_step_control_default F))"
proof -
  have "no_sign (freq s ! (nfreq s - 1))"
    using assms(2) dbl.good_freq [OF assms(2)] by (simp add: spec_good_def)
  then show ?thesis
    using assms(1) by (simp add: compute_adaptive_dt_def time_step_control_default_def Let_def num_def dbl.lib_lit
        divide_normal no_sign_normal no_sign_lit)
qed

lemma run_good:
  assumes "lib_ok normal not_neg no_sign d_lit F" "spec_good not_neg no_sign s"
    and "wind_good normal not_neg no_sign wind par"
    and "run_duration_limited_test F al s wind par duration = Some (Inr r)"
  shows "good_run s r \<and> \<not> r_time r < duration"
proof -
  have start: "good_run s \<lparr>r_spec = s, r_time = 0, r_written = [(0, s, True)], r_progress = []\<rparr>"
    using assms(2) by (simp add: good_run_def same_grid_refl)
  show ?thesis
    using assms(4) run_step_good [OF assms(1,3) adaptive_dt_normal [OF assms(1,2)]] start
    unfolding run_duration_limited_test_def by (rule run_loop_keeps)
qed

section \<open>The end of the run\<close>

lemma loop_over:
  assumes "\<not> r_time r < (duration :: double)"
  shows "run_loop F al wind par duration step r = Some (Inr r)"
  using assms by (simp add: run_loop.simps)

text \<open>A time that is reached: not below zero, and finite or the positive infinity.\<close>

definition reached :: "double \<Rightarrow> bool" where
  "reached t \<longleftrightarrow> t = Infty False \<or> not_neg t \<and> (\<exists>s m e. t = Fin s m e)"

lemma over:
  assumes "reached t" "val (Fin u m e) \<le> val t"
  shows "\<not> t < Fin u m e"
proof (cases "t = Infty False")
  case False
  then obtain s p g where t: "t = Fin s p g" using assms(1) by (auto simp: reached_def)
  show ?thesis unfolding t less_Fin using assms(2) unfolding t by linarith
qed simp

text \<open>Every round brings the time closer to the duration by half a step or more.\<close>

lemma run_loop_ends:
  assumes "normal (Fin False n f)" "0 < n" "val (Fin u m e) \<le> 2 ^ 50 * val (Fin False n f)"
    and "reached (r_time r)" "val (Fin u m e) - val (r_time r) \<le> real k * (val (Fin False n f) / 2)"
  shows "\<exists>res. run_loop F al wind par (Fin u m e) (Fin False n f) r = Some res"
  using assms(4,5)
proof (induction k arbitrary: r)
  case 0
  have "\<not> r_time r < Fin u m e" using 0 by (intro over) simp_all
  then show ?case by (auto simp: loop_over)
next
  case (Suc k)
  show ?case
  proof (cases "r_time r < Fin u m e")
    case False
    then show ?thesis by (auto simp: loop_over)
  next
    case True
    then obtain s p g where t: "r_time r = Fin s p g" "not_neg (Fin s p g)"
      using Suc.prems(1) by (auto simp: reached_def)
    have "val (Fin s p g) < val (Fin u m e)" using True unfolding t(1) less_Fin .
    then have small: "val (Fin s p g) \<le> 2 ^ 50 * val (Fin False n f)" using assms(3) by linarith
    have pos: "not_neg (Fin False n f)" using assms(1) by simp
    note grow = plus_progress [OF t(2) pos assms(2) small]
    show ?thesis
    proof (cases "run_step F al wind par (Fin u m e) (Fin False n f) r")
      case (Inl c)
      then show ?thesis using True by (simp add: run_loop.simps [of _ _ _ _ _ _ r])
    next
      case (Inr q)
      have time: "r_time q = Fin s p g + Fin False n f" using run_step_fields(2) [OF Inr] t(1) by simp
      have "\<exists>res. run_loop F al wind par (Fin u m e) (Fin False n f) q = Some res"
        using grow unfolding time [symmetric]
      proof (elim disjE exE conjE)
        assume "r_time q = Infty False"
        then have "\<not> r_time q < Fin u m e" by simp
        then show ?thesis by (auto simp: loop_over)
      next
        fix a b
        assume a: "r_time q = Fin False a b" "normal (Fin False a b)"
          "val (Fin s p g) + val (Fin False n f) / 2 \<le> val (Fin False a b)"
        have "val (Fin u m e) - val (r_time q) \<le> real k * (val (Fin False n f) / 2)"
          using Suc.prems(2) a(1,3) unfolding t(1) by (simp add: algebra_simps del: val.simps)
        moreover have "reached (r_time q)" using a(1,2) by (auto simp: reached_def)
        ultimately show ?thesis by (intro Suc.IH)
      qed
      then show ?thesis using True Inr by (simp add: run_loop.simps [of _ _ _ _ _ _ r])
    qed
  qed
qed

section \<open>A small instance\<close>

text \<open>A library with simple functions that have the signs required, and a start with two frequencies.\<close>

definition plain_libm :: "double libm" where
  "plain_libm = \<lparr>lit = d_lit, m_sqrt = (\<lambda>x. x), m_exp = (\<lambda>_. 1), m_log = (\<lambda>_. 1), m_cos = (\<lambda>_. 1),
     m_sin = (\<lambda>_. 0), m_tanh = (\<lambda>_. 0),
     m_pow = (\<lambda>x y. if normal x \<and> \<not> x < 0 \<and> y \<noteq> 0 then x else 1),
     m_fmod = (\<lambda>_ _. 0), m_floor = d_floor, m_ceil = (\<lambda>_. Some 1), m_trunc = (\<lambda>_. Some 0)\<rparr>"

definition all_fit :: allocs where
  "all_fit = \<lparr>al_input = True, al_tail = True, al_round = (\<lambda>_. True), al_diss = True\<rparr>"

definition start2 :: "double spectrum" where
  "start2 = spectrum_init_jonswap plain_libm (spectrum_create plain_libm 2 2 (d_lit 4 100))
     (d_lit 5 10) (d_lit 2 10) (d_lit 33 10)"

lemma num_not_0:
  assumes "0 < n"
  shows "d_lit (int n) 1 \<noteq> 0"
proof -
  have "of_int (2 ^ 52) * 2 powi (-52) = (1 :: real)" using powi_split [of 52 "-52"] powi_nat [of 52] by simp
  then have "of_int (2 ^ 52) * 2 powi (-52) \<le> ratio (int n) 1" using assms by simp
  then have "d_lit (int n) 1 = Infty False \<or> (\<exists>q e. d_lit (int n) 1 = Fin False q e \<and> 1 \<le> of_int q * (2 :: real) powi e)"
    unfolding d_lit_def using rounded_ge [of "int n" 1 "2 ^ 52" "-52" False] assms
    using \<open>of_int (2 ^ 52) * 2 powi (-52) = (1 :: real)\<close> by simp
  then show ?thesis by (auto simp: zero_double_def)
qed

lemma plain_ok: "start_lib normal not_neg no_sign d_lit plain_libm"
proof -
  have "\<not> d_lit 1 1 < (0 :: double)" "\<not> (1 :: double) < 0" "\<not> signbit (1 :: double)"
    unfolding lit_one by code_simp+
  then show ?thesis
    by (auto simp: start_lib_def lib_ok_def plain_libm_def zero_facts not_neg_def no_sign_def dbl.irrefl)
qed

lemma plain_rising:
  assumes "i \<le> j"
  shows "d_lit 4 100 * m_pow plain_libm (XFR plain_libm) (num plain_libm i)
    \<le> d_lit 4 100 * m_pow plain_libm (XFR plain_libm) (num plain_libm j)"
proof -
  have "d_lit 0 1 = 0" by code_simp
  moreover have "m_pow plain_libm x y = (if normal x \<and> \<not> x < 0 \<and> y \<noteq> 0 then x else 1)" for x y
    by (simp add: plain_libm_def)
  moreover have "num plain_libm n = d_lit (int n) 1" "XFR plain_libm = d_lit 11 10" for n
    by (simp_all add: num_def XFR_def plain_libm_def)
  moreover have "normal (d_lit 11 10)" "\<not> d_lit 11 10 < 0" "d_lit 4 100 * 1 \<le> d_lit 4 100 * d_lit 11 10"
    "d_lit 4 100 * 1 \<le> d_lit 4 100 * 1" "d_lit 4 100 * d_lit 11 10 \<le> d_lit 4 100 * d_lit 11 10"
    by code_simp+
  ultimately show ?thesis using assms num_not_0 by (cases "i = 0"; cases "j = 0") auto
qed

lemma plain_wind: "wind_good normal not_neg no_sign (wave_wind plain_libm) (st6_params_default plain_libm)"
proof -
  have "no_sign (d_lit n d)" if "0 \<le> n" "0 < d" for n d using that by (rule no_sign_lit)
  then show ?thesis
    by (simp add: wind_good_def wave_wind_def st6_params_default_def plain_libm_def num_def
        no_sign_normal no_sign_not_neg)
qed

lemma plain_input: "\<exists>dS. source_term_wind_input plain_libm al s wind par = Inr dS"
  by (simp add: source_term_wind_input_def apply_stress_constraint_def tail_size_def Let_def plain_libm_def)

lemma plain_step: "\<exists>q. run_step plain_libm al wind par duration step r = Inr q"
proof -
  have "\<exists>dS. source_term_total plain_libm al s wind par = Inr dS" for s
    using plain_input [of al s wind par] by (auto simp: source_term_total_def Let_def)
  then obtain dS where "source_term_total plain_libm al (r_spec r) wind par = Inr dS" by blast
  moreover have "m_trunc plain_libm x = Some 0" for x by (simp add: plain_libm_def)
  ultimately show ?thesis
    by (simp add: run_step_def integrator_step_def euler_step_def print_progress_def Let_def)
qed

lemma start2_step:
  "compute_adaptive_dt start2 (time_step_control_default plain_libm) = Fin False 6397158561605818 (- 49)"
  by code_simp

lemma start2_good: "spec_good not_neg no_sign start2"
  unfolding start2_def
  by (intro dbl.jonswap_good [OF plain_ok] dbl.create_good [OF plain_ok] plain_rising no_sign_lit) simp_all

section \<open>Properties of the run\<close>

text \<open>
  Property C13. Whatever the parameters of the start, the wind and the duration: every spectrum that a
  run from a JONSWAP start writes, and the one it ends with, is on the grid of the start and has no
  energy below zero; the first record creates the file, the others append to it, and the time has
  passed the duration.
\<close>

theorem run_writes_good_spectra:
  assumes "start_lib normal not_neg no_sign d_lit F" "no_sign f_min" "no_sign Hs" "no_sign fp" "no_sign gam"
    and "\<And>i j. i \<le> j \<Longrightarrow> f_min * m_pow F (XFR F) (num F i) \<le> f_min * m_pow F (XFR F) (num F j)"
    and "wind_good normal not_neg no_sign wind par"
    and "s = spectrum_init_jonswap F (spectrum_create F nfr nd f_min) Hs fp gam"
    and "run_duration_limited_test F al s wind par duration = Some (Inr r)"
  shows "spec_good not_neg no_sign (r_spec r) \<and> same_grid s (r_spec r) \<and>
    (\<forall>(t, s', is_first) \<in> set (r_written r). spec_good not_neg no_sign s' \<and> same_grid s s') \<and>
    (\<exists>n. map (\<lambda>(t, s', is_first). is_first) (r_written r) = True # replicate n False) \<and>
    \<not> r_time r < duration"
proof -
  have ok: "lib_ok normal not_neg no_sign d_lit F" using assms(1) by (simp add: start_lib_def)
  have "spec_good not_neg no_sign (spectrum_create F nfr nd f_min)"
    using assms(1,2,6) by (rule dbl.create_good)
  then have "spec_good not_neg no_sign s"
    unfolding assms(8) using assms(1,3-5) by (intro dbl.jonswap_good)
  then have "good_run s r \<and> \<not> r_time r < duration" by (rule run_good [OF ok _ assms(7,9)])
  then show ?thesis by (auto simp: good_run_def case_prod_unfold)
qed

lemma run_writes_good_spectra_witness:
  "\<exists>r. run_duration_limited_test plain_libm all_fit start2 (wave_wind plain_libm) (st6_params_default plain_libm) 1 =
      Some (Inr r) \<and> spec_good not_neg no_sign (r_spec r) \<and> length (r_written r) = 2"
proof -
  define r0 :: "double run_state" where
    "r0 = \<lparr>r_spec = start2, r_time = 0, r_written = [(0, start2, True)], r_progress = []\<rparr>"
  define step where "step = Fin False 6397158561605818 (- 49)"
  obtain q where q: "run_step plain_libm all_fit (wave_wind plain_libm) (st6_params_default plain_libm) 1 step r0 = Inr q"
    using plain_step by blast
  have t: "r_time q = 0 + step" using run_step_fields(2) [OF q] by (simp add: r0_def)
  have ended: "\<not> r_time q < 1" unfolding t step_def by code_simp
  have lib: "m_fmod plain_libm x y = 0" for x y by (simp add: plain_libm_def)
  have small: "0 < step" "(0 :: double) < 1" unfolding step_def by code_simp+
  have "length (r_written q) = 2"
    using q by (auto simp: run_step_def bindE_eq_Inr_iff Let_def lib small r0_def)
  moreover have run: "run_duration_limited_test plain_libm all_fit start2 (wave_wind plain_libm)
      (st6_params_default plain_libm) 1 = Some (Inr q)"
    unfolding run_duration_limited_test_def start2_step step_def [symmetric] r0_def [symmetric]
    by (subst run_loop.simps) (simp add: q loop_over [OF ended], simp add: r0_def small)
  moreover have "spec_good not_neg no_sign (r_spec q)"
    using run_writes_good_spectra [OF plain_ok _ _ _ _ plain_rising plain_wind start2_def run]
    by (simp add: no_sign_lit)
  ultimately show ?thesis by blast
qed

text \<open>
  Property C20. The source terms have the right signs: the wind only feeds energy into the waves, the
  limit on the stress never raises what a cell gets, and dissipation only takes energy out.
\<close>

theorem source_terms_signed:
  assumes "lib_ok normal not_neg no_sign d_lit F" "spec_good not_neg no_sign s"
    and "wind_good normal not_neg no_sign wind par"
    and "source_term_wind_input F al s wind par = Inr dS"
  shows "all_cells not_neg s dS \<and>
    (\<forall>i < nfreq s. \<forall>j < ndir s. \<not> wind_row F s wind par i ! j < dS ! i ! j) \<and>
    all_cells (\<lambda>x. \<not> 0 < x) s (source_term_dissipation F al s par)"
proof (intro conjI)
  note dS = dbl.wind_input_ok [OF assms]
  show "all_cells not_neg s dS" using dS by (rule conjunct1)
  show "\<forall>i < nfreq s. \<forall>j < ndir s. \<not> wind_row F s wind par i ! j < dS ! i ! j" using dS by (rule conjunct2)
  show "all_cells (\<lambda>x. \<not> 0 < x) s (source_term_dissipation F al s par)"
    by (rule all_cells_mono [OF dbl.dissipation_ok [OF assms(1-3)]]) (rule conjunct2)
qed

lemma source_terms_signed_witness:
  "\<exists>dS. source_term_wind_input plain_libm all_fit start2 (wave_wind plain_libm) (st6_params_default plain_libm) = Inr dS \<and>
    all_cells not_neg start2 dS \<and>
    all_cells (\<lambda>x. \<not> 0 < x) start2
      (source_term_dissipation plain_libm all_fit start2 (st6_params_default plain_libm))"
proof -
  have "lib_ok normal not_neg no_sign d_lit plain_libm" using plain_ok by (simp add: start_lib_def)
  then show ?thesis
    using plain_input source_terms_signed [OF _ start2_good plain_wind] by blast
qed

text \<open>
  Property C14. A run ends, with a result or an error: when the step is a positive finite number and the
  duration is finite and at most \<open>2 ^ 50\<close> steps long, the rounding of the time never stops its growth.
\<close>

theorem run_ends:
  assumes "compute_adaptive_dt s (time_step_control_default F) = Fin False n f" "normal (Fin False n f)" "0 < n"
    and "duration = Fin u m e" "val duration \<le> 2 ^ 50 * val (Fin False n f)"
  shows "\<exists>res. run_duration_limited_test F al s wind par duration = Some res"
proof -
  have pos: "0 < val (Fin False n f)" using assms(3) by (simp add: with_sign_def)
  have "\<exists>k. val duration \<le> real k * (val (Fin False n f) / 2)"
    using reals_Archimedean3 [of "val (Fin False n f) / 2"] pos by (metis half_gt_zero less_imp_le)
  then obtain k where "val duration - val 0 \<le> real k * (val (Fin False n f) / 2)"
    by (auto simp: val_zero simp del: val.simps)
  moreover have "reached 0" using not_neg_0 by (auto simp: reached_def zero_double_def)
  ultimately show ?thesis
    unfolding run_duration_limited_test_def assms(1) using assms(2,3,5) unfolding assms(4)
    by (intro run_loop_ends) (auto simp del: val.simps normal.simps)
qed

lemma run_ends_witness:
  "\<exists>res. run_duration_limited_test plain_libm all_fit start2 (wave_wind plain_libm) (st6_params_default plain_libm)
    (Fin False 5937362789990400 (- 36)) = Some res"
  by (rule run_ends [OF start2_step _ _ refl]) (simp_all add: with_sign_def power_int_minus field_simps)

end
