(* ===== verification/WaveStart.thy ===== *)
theory WaveStart
  imports WaveFacts
begin

text \<open>
  The JONSWAP start in exact arithmetic: the definitions of the spectrum on \<open>real\<close>, with the functions
  of mathematics as the library. \<open>M_PI\<close> is the constant of the code, not the number.
\<close>

section \<open>The exact library\<close>

definition real_pow :: "real \<Rightarrow> real \<Rightarrow> real" where
  "real_pow x y =
     (if y \<in> \<int> then (if 0 \<le> y then x ^ nat \<lfloor>y\<rfloor> else inverse (x ^ nat \<lfloor>- y\<rfloor>)) else x powr y)"

definition in_int :: "int \<Rightarrow> int option" where
  "in_int z = (if - (2 ^ 31) \<le> z \<and> z < 2 ^ 31 then Some z else None)"

definition real_libm :: "real libm" where
  "real_libm = \<lparr>lit = (\<lambda>n d. of_int n / of_int d), m_sqrt = sqrt, m_exp = exp, m_log = ln, m_cos = cos,
     m_sin = sin, m_tanh = tanh, m_pow = real_pow, m_fmod = (\<lambda>x y. x - y * of_int \<lfloor>x / y\<rfloor>),
     m_floor = (\<lambda>x. in_int \<lfloor>x\<rfloor>), m_ceil = (\<lambda>x. in_int \<lceil>x\<rceil>),
     m_trunc = (\<lambda>x. in_int (if 0 \<le> x then \<lfloor>x\<rfloor> else \<lceil>x\<rceil>))\<rparr>"

lemma real_libm_simps [simp]:
  "lit real_libm n d = of_int n / of_int d" "m_sqrt real_libm = sqrt" "m_exp real_libm = exp"
  "m_cos real_libm = cos" "m_pow real_libm = real_pow" "num real_libm k = real k"
  by (simp_all add: real_libm_def num_def)

lemma real_pow_nat [simp]: "real_pow x (real i) = x ^ i"
  by (simp add: real_pow_def)

lemma real_pow_pos: "0 < x \<Longrightarrow> 0 < real_pow x y"
  by (simp add: real_pow_def)

lemma pi_pos: "0 < m_pi real_libm"
  by (simp add: m_pi_def)

lemma sum_up_real: "sum_up xs = sum_list (xs :: real list)"
proof -
  have "foldl (+) a xs = a + sum_list xs" for a :: real
    by (induction xs arbitrary: a) simp_all
  then show ?thesis by (simp add: sum_up_def)
qed

lemma sum_list_pos:
  assumes "\<And>x. x \<in> set xs \<Longrightarrow> 0 \<le> x" "y \<in> set xs" "0 < y"
  shows "0 < sum_list (xs :: real list)"
proof -
  have "y \<le> sum_list xs" using assms(1,2) by (intro member_le_sum_list) auto
  then show ?thesis using assms(3) by simp
qed

section \<open>The start has energy\<close>

lemma log_grid_nth: "i < n \<Longrightarrow> log_grid real_libm f n ! i = f * (11 / 10) ^ i"
  by (simp add: log_grid_def XFR_def)

lemma band_width_pos:
  assumes "0 < f" "2 \<le> n" "i < n"
  shows "0 < band_widths real_libm (log_grid real_libm f n) n ! i"
proof -
  have less: "log_grid real_libm f n ! k < log_grid real_libm f n ! l" if "k < l" "l < n" for k l
    using that assms(1) by (simp add: log_grid_nth power_strict_increasing)
  show ?thesis using assms(2,3) less by (auto simp: band_widths_def)
qed

lemma jonswap_E_pos: "0 < f \<Longrightarrow> 0 < fp \<Longrightarrow> 0 < gam \<Longrightarrow> 0 < jonswap_E real_libm fp gam f"
  unfolding jonswap_E_def Let_def using pi_pos by (auto intro!: mult_pos_pos real_pow_pos)

lemma dir_dist_nn: "0 \<le> dir_dist real_libm t"
proof -
  have "real_pow (cos t) 2 = (cos t)\<^sup>2" using real_pow_nat [of "cos t" 2] by simp
  then show ?thesis using pi_pos by (simp add: dir_dist_def)
qed

lemma dir_dist_0: "0 < dir_dist real_libm 0"
proof -
  have "real_pow 1 2 = 1" using real_pow_nat [of 1 2] by simp
  then show ?thesis using pi_pos by (simp add: dir_dist_def fabs_def)
qed

lemma shape_energy_pos:
  assumes "even nd" "0 < nd" "0 < f_min" "0 < fp" "0 < gam"
  shows "0 < total_energy (jonswap_shape real_libm fp gam (spectrum_create real_libm nfr nd f_min))"
proof -
  define n where "n = (if nfr < 2 then 2 else nfr)"
  define s where "s = spectrum_create real_libm nfr nd f_min"
  define s1 where "s1 = jonswap_shape real_libm fp gam s"
  have n: "2 \<le> n" by (simp add: n_def)
  have s: "nfreq s = n" "ndir s = nd" "freq s = log_grid real_libm f_min n"
    "dsii s = band_widths real_libm (log_grid real_libm f_min n) n"
    "dtheta s = 2 * m_pi real_libm / real nd"
    "dir s = map (\<lambda>j. - m_pi real_libm + real j * dtheta s) [0..<nd]"
    by (simp_all add: s_def spectrum_create_def Let_def n_def)
  have dth: "0 < dtheta s" unfolding s(5) using pi_pos assms(2) by simp
  obtain h where h: "nd = 2 * h" "h < nd" using assms(1,2) by (auto elim: evenE)
  have mid: "dir s ! h = 0" using h unfolding s(6) s(5) by simp
  have row: "0 < row_sum s1 i" if i: "i < n" for i
  proof -
    have f: "0 < freq s ! i" using i assms(3) by (simp add: s(3) log_grid_nth)
    define E where "E = jonswap_E real_libm fp gam (freq s ! i)"
    have E: "0 < E" unfolding E_def using f assms(4,5) by (intro jonswap_E_pos)
    have cells: "energy s1 ! i = map (\<lambda>j. E * dir_dist real_libm (dir s ! j)) [0..<nd]"
      using i f by (simp add: s1_def jonswap_shape_def s(1,2) E_def)
    have "0 < E * dir_dist real_libm (dir s ! h)" using E dir_dist_0 mid by simp
    then show ?thesis
      unfolding row_sum_def sum_up_real cells
      by (rule sum_list_pos [rotated 2]) (use h(2) E dir_dist_nn in auto)
  qed
  have "nfreq s1 = n" "dtheta s1 = dtheta s" "dsii s1 = dsii s" by (simp_all add: s1_def jonswap_shape_def s(1))
  then have cells: "total_energy s1 = sum_list (map (\<lambda>i. row_sum s1 i * dtheta s * dsii s ! i) [0..<n])"
    by (simp add: total_energy_def sum_up_real)
  have pos: "0 < row_sum s1 i * dtheta s * dsii s ! i" if "i < n" for i
    using row [OF that] dth band_width_pos [OF assms(3) n that] by (simp add: s(4))
  have "0 < total_energy s1"
    unfolding cells by (rule sum_list_pos [of _ "row_sum s1 0 * dtheta s * dsii s ! 0"]) (use pos n in \<open>auto intro: less_imp_le\<close>)
  then show ?thesis by (simp add: s1_def s_def)
qed

lemma total_energy_scale:
  assumes "\<forall>i < nfreq s. i < length (energy s)"
  shows "total_energy (scale_energy c s) = c * total_energy (s :: real spectrum)"
proof -
  have "row_sum (scale_energy c s) i = c * row_sum s i" if "i < nfreq s" for i
    using assms that sum_list_mult_const [of "\<lambda>x. x" c "energy s ! i"]
    by (simp add: row_sum_def scale_energy_def sum_up_real mult.commute)
  then have cells: "map (\<lambda>i. row_sum (scale_energy c s) i * dtheta s * dsii s ! i) [0..<nfreq s] =
      map (\<lambda>i. c * (row_sum s i * dtheta s * dsii s ! i)) [0..<nfreq s]"
    by (intro map_cong) (simp_all only: atLeastLessThan_iff set_upt mult.assoc)
  have "nfreq (scale_energy c s) = nfreq s" "dtheta (scale_energy c s) = dtheta s" "dsii (scale_energy c s) = dsii s"
    by (simp_all add: scale_energy_def)
  then have "total_energy (scale_energy c s) =
      sum_list (map (\<lambda>i. row_sum (scale_energy c s) i * dtheta s * dsii s ! i) [0..<nfreq s])"
    by (simp only: total_energy_def sum_up_real)
  then show ?thesis unfolding cells sum_list_const_mult by (simp only: total_energy_def sum_up_real)
qed

text \<open>
  Property C22. In exact arithmetic the JONSWAP start has the wave height that it was asked for, for an
  even number of directions.
\<close>

theorem jonswap_start_has_height:
  assumes "even nd" "0 < nd" "0 < f_min" "0 < fp" "0 < gam" "0 \<le> Hs"
  shows "spectrum_Hs real_libm
    (spectrum_init_jonswap real_libm (spectrum_create real_libm nfr nd f_min) Hs fp gam) = Hs"
proof -
  define s where "s = jonswap_shape real_libm fp gam (spectrum_create real_libm nfr nd f_min)"
  define c where "c = (Hs / 4) * (Hs / 4) / total_energy s"
  have pos: "0 < total_energy s" unfolding s_def using assms(1-5) by (rule shape_energy_pos)
  have len: "\<forall>i < nfreq s. i < length (energy s)" by (simp add: s_def jonswap_shape_def)
  have same: "total_energy (spectrum_update_peak t) = total_energy t" for t :: "real spectrum"
    by (simp add: total_energy_def row_sum_def)
  have "total_energy (scale_energy c s) = (Hs / 4) * (Hs / 4)"
    unfolding total_energy_scale [OF len] using pos by (simp add: c_def)
  moreover have "sqrt ((Hs / 4) * (Hs / 4)) = Hs / 4" 
    using real_sqrt_abs2 [of "Hs / 4"] assms(6) by (simp only: abs_of_nonneg [of "Hs / 4"] zero_le_divide_iff)
  moreover have "spectrum_init_jonswap real_libm (spectrum_create real_libm nfr nd f_min) Hs fp gam =
      spectrum_update_peak (scale_energy c s)"
    by (simp add: spectrum_init_jonswap_def Let_def s_def c_def)
  ultimately show ?thesis by (simp add: spectrum_Hs_def same del: times_divide_eq_left times_divide_eq_right)
qed

lemma jonswap_start_has_height_witness:
  "spectrum_Hs real_libm (spectrum_init_jonswap real_libm (spectrum_create real_libm 34 36 (4 / 100))
     (1 / 2) (1 / 5) (33 / 10)) = 1 / 2"
  by (rule jonswap_start_has_height) simp_all

text \<open>With one direction there is no energy to scale, and the code divides by zero.\<close>

lemma one_direction_no_energy:
  "total_energy (jonswap_shape real_libm fp gam (spectrum_create real_libm nfr 1 f_min)) = 0"
proof -
  define s where "s = spectrum_create real_libm nfr 1 f_min"
  define s1 where "s1 = jonswap_shape real_libm fp gam s"
  have s: "ndir s = 1" "dir s = [- m_pi real_libm]" "energy s = replicate (nfreq s) [0]"
    by (simp_all add: s_def spectrum_create_def Let_def)
  have "dir_dist real_libm (- m_pi real_libm) = 0" using pi_pos by (simp add: dir_dist_def fabs_def)
  then have "row_sum s1 i = 0" if "i < nfreq s" for i
    using that by (simp add: s1_def row_sum_def sum_up_real jonswap_shape_def Let_def s)
  moreover have "nfreq s1 = nfreq s" by (simp add: s1_def jonswap_shape_def)
  ultimately have "map (\<lambda>i. row_sum s1 i * dtheta s1 * dsii s1 ! i) [0..<nfreq s1] = map (\<lambda>_. 0) [0..<nfreq s1]"
    by (intro map_cong) simp_all
  then have "total_energy s1 = 0" by (simp only: total_energy_def sum_up_real) simp
  then show ?thesis by (simp add: s1_def s_def)
qed

end
