(* ===== verification/WaveOutput.thy ===== *)
theory WaveOutput
  imports WaveModel
begin

text \<open>
  The output of the wave model: the layout of the directional buffer, and the sequence of library
  calls that a write makes, with its end at the first failure.
\<close>

section \<open>The buffer\<close>

lemma length_concat_rows: "(\<And>j. length (f j) = k) \<Longrightarrow> length (concat (map f [0..<n])) = n * k"
  by (induction n) simp_all

lemma nth_concat_rows:
  assumes "\<And>j. length (f j) = k" "j < n" "i < k"
  shows "concat (map f [0..<n]) ! (j * k + i) = f j ! i"
  using assms(2)
proof (induction n)
  case (Suc n)
  have len: "length (concat (map f [0..<n])) = n * k" by (rule length_concat_rows) (rule assms(1))
  show ?case
  proof (cases "j < n")
    case True
    then have "Suc j * k \<le> n * k" by (intro mult_le_mono1) simp
    then have "j * k + i < n * k" using assms(3) by simp
    then show ?thesis using Suc.IH [OF True] len by (simp add: nth_append)
  next
    case False
    then have "j = n" using Suc.prems by simp
    then show ?thesis using len by (simp add: nth_append)
  qed
qed simp

text \<open>
  Property C0. In the buffer for the directional spectrum the frequency varies fastest: cell
  \<open>j * nfreq + i\<close> is the energy at frequency \<open>i\<close> and direction \<open>j\<close>, as the extent of the slice says.
\<close>

theorem full_buf_layout:
  assumes "i < nfreq s" "j < ndir s"
  shows "length (full_buf s) = ndir s * nfreq s \<and> full_buf s ! (j * nfreq s + i) = energy s ! i ! j"
  using nth_concat_rows [of "\<lambda>j. map (\<lambda>i. energy s ! i ! j) [0..<nfreq s]" "nfreq s" j "ndir s" i] assms
    length_concat_rows [of "\<lambda>j. map (\<lambda>i. energy s ! i ! j) [0..<nfreq s]" "nfreq s" "ndir s"]
  by (simp add: full_buf_def)

definition spectrum23 :: "double spectrum" where
  "spectrum23 = \<lparr>nfreq = 2, ndir = 3, freq = [1, 1], dir = [0, 1, 1],
     energy = [[d_lit 10 1, d_lit 11 1, d_lit 12 1], [d_lit 20 1, d_lit 21 1, d_lit 22 1]],
     dsii = [1, 1], dtheta = 1, peak_freq = 1\<rparr>"

lemma full_buf_layout_witness: "full_buf spectrum23 ! 3 = d_lit 21 1 \<and> map (\<lambda>i. full_buf spectrum23 ! i) [0, 1] = [d_lit 10 1, d_lit 20 1]"
  using full_buf_layout [of 1 spectrum23 1] by (simp add: spectrum23_def full_buf_def upt_rec)

section \<open>The calls\<close>







text \<open>The attribute of the time variable is cut off in the seconds.\<close>

lemma time_units_cut:
  "Put_text ''time'' ''units'' ''seconds since 1970-01-01 00:00'' \<in> set (create_calls F filename s)"
  by (simp add: create_calls_def)

end
