(* ===== verification/RingbufTest.thy ===== *)
theory RingbufTest
  imports Ringbuf
begin

text \<open>
  The test program 27_driver/test_ringbuf.c, run against the model of the driver: two writes and a
  read, three writes and a read, the same after a change of the size through the module parameter.
  Which calls are interrupted and what the copies, \<open>kstrtoint\<close> and \<open>kmalloc\<close> do are parameters.
\<close>

section \<open>Calls\<close>

text \<open>The number of calls made, what was printed of the reads, and the driver.\<close>

record test_run =
  t_calls :: nat
  t_reads :: "(int \<times> byte list) list"
  t_drv :: driver

text \<open>The kernel: interruptions by number of the call, copies, \<open>kstrtoint\<close>, \<open>kmalloc\<close>.\<close>

record kernel =
  k_intr :: "nat \<Rightarrow> bool"
  k_from :: copy_fn
  k_to :: copy_fn
  k_strtoint :: "string \<Rightarrow> int + int"
  k_malloc :: "nat \<Rightarrow> byte list option"

definition called :: "driver \<Rightarrow> test_run \<Rightarrow> test_run" where
  "called s r = r\<lparr>t_calls := Suc (t_calls r), t_drv := s\<rparr>"

definition t_write :: "kernel \<Rightarrow> string \<Rightarrow> test_run \<Rightarrow> test_run + test_run" where
  "t_write K data r =
     (case dev_write (k_intr K (t_calls r)) (k_from K) (bytes_of data) (t_drv r) of
        (n, s) \<Rightarrow> if n < 0 then Inl (called s r) else Inr (called s r))"

text \<open>\<open>lseek\<close> to the start, the result of which is not looked at.\<close>

definition t_seek :: "kernel \<Rightarrow> test_run \<Rightarrow> test_run" where
  "t_seek K r = called (snd (dev_llseek (k_intr K (t_calls r)) 0 SEEK_SET (t_drv r))) r"

text \<open>A read into the cleared buffer of 256 bytes; printed are the count and the bytes before a NUL.\<close>

definition t_read :: "kernel \<Rightarrow> test_run \<Rightarrow> test_run + test_run" where
  "t_read K r =
     (case dev_read (k_intr K (t_calls r)) (k_to K) 255 (t_drv r) of
        (n, bs, s) \<Rightarrow>
          if n < 0 then Inl (called s r)
          else Inr (called s r\<lparr>t_reads := t_reads r @ [(n, takeWhile (\<lambda>b. b \<noteq> 0) bs)]\<rparr>))"

text \<open>\<open>echo 54\<close> into the parameter, by a command whose result is not looked at.\<close>

definition t_resize :: "kernel \<Rightarrow> test_run \<Rightarrow> test_run" where
  "t_resize K r =
     called (snd (buf_size_set (k_strtoint K) (k_malloc K) (k_intr K (t_calls r)) (''54'' @ [CHR 0x0A]) (t_drv r))) r"

section \<open>The program\<close>

fun t_writes :: "kernel \<Rightarrow> string list \<Rightarrow> test_run \<Rightarrow> test_run + test_run" where
  "t_writes K [] r = Inr r"
| "t_writes K (d # ds) r = bindE (t_write K d r) (t_writes K ds)"

definition data1 :: string where "data1 = ''Hello''"

definition data2 :: string where "data2 = '', ring buffer world!''"

definition data3 :: string where "data3 = ''1_3_5_7_9_11_14_16_18''"

text \<open>The check of the ring: back to the start, three writes, back, a read.\<close>

definition ring_check :: "kernel \<Rightarrow> test_run \<Rightarrow> test_run + test_run" where
  "ring_check K r = bindE (t_writes K (replicate 3 data3) (t_seek K r)) (\<lambda>r. t_read K (t_seek K r))"

text \<open>The exit status, and the run where the device could be opened.\<close>

definition test_main :: "bool \<Rightarrow> kernel \<Rightarrow> driver \<Rightarrow> int \<times> test_run option" where
  "test_main opened K s =
     (if \<not> opened then (1, None)
      else
        case bindE (t_writes K [data1, data2] \<lparr>t_calls = 0, t_reads = [], t_drv = s\<rparr>) (\<lambda>r.
             bindE (t_read K (t_seek K r)) (\<lambda>r.
             bindE (ring_check K r) (\<lambda>r. ring_check K (t_resize K r)))) of
          Inl r \<Rightarrow> (1, Some r)
        | Inr r \<Rightarrow> (0, Some r))"

section \<open>What the test prints\<close>

text \<open>A kernel that neither interrupts nor faults, and can allocate 54 bytes.\<close>

definition smooth :: "kernel \<Rightarrow> bool" where
  "smooth K \<longleftrightarrow> (\<forall>k. \<not> k_intr K k) \<and> k_from K = copy_total \<and> k_to K = copy_total \<and>
     k_strtoint K (''54'' @ [CHR 0x0A]) = Inr 54 \<and> kmalloc_ok (k_malloc K) \<and> k_malloc K 54 \<noteq> None"

text \<open>A run that has read \<open>rs\<close>, on a driver with a buffer of \<open>n\<close> bytes that stores \<open>bs\<close>.\<close>

definition holding :: "nat \<Rightarrow> byte list \<Rightarrow> (int \<times> byte list) list \<Rightarrow> test_run \<Rightarrow> bool" where
  "holding n bs rs r \<longleftrightarrow> drv_ready (t_drv r) \<and> rb_size (drv_rb (t_drv r)) = n \<and>
     contents (drv_rb (t_drv r)) = bs \<and> t_reads r = rs"

lemma t_write_holding:
  assumes "smooth K" "holding n bs rs r"
  shows "\<exists>r'. t_write K d r = Inr r' \<and> holding n (lastn n (bs @ bytes_of d)) rs r'"
proof -
  obtain m s where w: "dev_write False copy_total (bytes_of d) (t_drv r) = (m, s)" by fastforce
  then have "\<not> m < 0" "s = write_call (bytes_of d) (t_drv r)"
    by (auto simp: dev_write_def write_call_def split: prod.splits)
  then show ?thesis
    using assms w by (simp add: t_write_def smooth_def holding_def called_def write_call_ready write_call_stored)
qed

lemma t_writes_holding:
  assumes "smooth K" "holding n bs rs r"
  shows "\<exists>r'. t_writes K ds r = Inr r' \<and> holding n (lastn n (bs @ concat (map bytes_of ds))) rs r'"
  using assms(2)
proof (induction ds arbitrary: bs r)
  case Nil
  then have "length bs \<le> n" using drv_ready_bound by (auto simp: holding_def)
  then show ?case using Nil by simp
next
  case (Cons d ds)
  obtain r' where "t_write K d r = Inr r'" "holding n (lastn n (bs @ bytes_of d)) rs r'"
    using t_write_holding [OF assms(1) Cons.prems] by blast
  then show ?case using Cons.IH by (fastforce simp: lastn_lastn_append)
qed

lemma t_seek_holding: "holding n bs rs r \<Longrightarrow> holding n bs rs (t_seek K r)"
  using dev_llseek_inv [of "t_drv r" "k_intr K (t_calls r)" 0 SEEK_SET]
  by (auto simp: holding_def t_seek_def called_def drv_ready_def)

lemma t_read_holding:
  assumes "smooth K" "holding n bs rs r" "length bs \<le> 255"
  shows "\<exists>r'. t_read K r = Inr r' \<and>
    holding n [] (rs @ [(int (length bs), takeWhile (\<lambda>b. b \<noteq> 0) bs)]) r'"
proof -
  obtain m cs s where r: "dev_read False copy_total 255 (t_drv r) = (m, cs, s)" by (metis prod_cases3)
  have inv: "drv_inv (t_drv r)" using assms(2) by (simp add: holding_def drv_ready_def)
  have out: "m = int (length bs)" "cs = bs" "contents (drv_rb s) = []"
    using dev_read_taken [OF inv copy_total_ok r] assms(2,3) by (auto simp: holding_def)
  have s: "s = snd (read_call 255 (t_drv r))" using r by (simp add: read_call_def)
  have "drv_ready s" unfolding s using assms(2) by (intro read_call_ready) (simp add: holding_def)
  moreover have "rb_size (drv_rb s) = rb_size (drv_rb (t_drv r))"
    using r by (auto simp: dev_read_def ringbuf_discard_simps split: if_splits prod.splits)
  ultimately show ?thesis
    using assms(1,2) r out by (simp add: t_read_def smooth_def holding_def called_def)
qed

lemma t_resize_holding:
  assumes "smooth K" "holding n bs rs r"
  shows "holding 54 [] rs (t_resize K r)"
proof -
  obtain d where d: "k_malloc K 54 = Some d" using assms(1) by (auto simp: smooth_def)
  let ?s = "snd (buf_size_set (k_strtoint K) (k_malloc K) False (''54'' @ [CHR 0x0A]) (t_drv r))"
  have "drv_inv ?s" using assms buf_size_set_inv by (auto simp: smooth_def holding_def drv_ready_def)
  moreover have "rb_data (drv_rb ?s) = Some d" "rb_size (drv_rb ?s) = 54" "rb_count (drv_rb ?s) = 0"
    using assms(1) d by (simp_all add: buf_size_set_def smooth_def Let_def)
  moreover have "contents (drv_rb ?s) = []"
    using calculation(4) by (simp add: contents_def split: option.split)
  ultimately show ?thesis
    using assms by (simp add: holding_def t_resize_def called_def smooth_def drv_ready_def)
qed

lemma ring_check_holding:
  assumes "smooth K" "holding n [] rs r" "n \<le> 255"
  shows "\<exists>r'. ring_check K r = Inr r' \<and>
    holding n [] (rs @ [(int (length (lastn n (concat (replicate 3 (bytes_of data3))))),
      takeWhile (\<lambda>b. b \<noteq> 0) (lastn n (concat (replicate 3 (bytes_of data3)))))]) r'"
proof -
  obtain r1 where r1: "t_writes K (replicate 3 data3) (t_seek K r) = Inr r1"
    "holding n (lastn n (concat (replicate 3 (bytes_of data3)))) rs r1"
    using t_writes_holding [OF assms(1) t_seek_holding [OF assms(2)], of "replicate 3 data3"] by auto
  have "length (lastn n (concat (replicate 3 (bytes_of data3)))) \<le> 255" using assms(3) by simp
  from t_read_holding [OF assms(1) t_seek_holding [OF r1(2)] this] show ?thesis
    using r1(1) by (simp add: ring_check_def)
qed

lemma no_nul: "0 \<notin> set bs \<Longrightarrow> takeWhile (\<lambda>b. b \<noteq> 0) bs = (bs :: byte list)"
  by (induction bs) auto

text \<open>
  Property C33. On a loaded driver with an empty buffer of at most 255 bytes, and a kernel that does
  not interfere, the test ends well and prints three times the last bytes written, as many as the
  buffer holds: of the two greetings, of three copies of the digits, and of these again after the
  buffer was set to 54 bytes.
\<close>

theorem test_prints_last_bytes:
  assumes "smooth K" "drv_ready s" "contents (drv_rb s) = []" "n = rb_size (drv_rb s)" "n \<le> 255"
    and "digits = concat (replicate 3 (bytes_of data3))" "greeting = bytes_of data1 @ bytes_of data2"
  shows "\<exists>r. test_main True K s = (0, Some r) \<and>
    t_reads r = map (\<lambda>bs. (int (length bs), bs)) [lastn n greeting, lastn n digits, lastn 54 digits]"
proof -
  have clean: "0 \<notin> set greeting" "0 \<notin> set digits"
    unfolding assms(6,7) by code_simp+
  have sub: "set (lastn k bs) \<subseteq> set bs" for k and bs :: "byte list"
    by (simp add: lastn_def set_drop_subset)
  have tw: "takeWhile (\<lambda>b. b \<noteq> 0) (lastn k bs) = lastn k bs" if "0 \<notin> set bs" for k and bs :: "byte list"
    using sub [of k bs] that by (intro no_nul) blast
  have "holding n [] [] \<lparr>t_calls = 0, t_reads = [], t_drv = s\<rparr>" using assms(2-4) by (simp add: holding_def)
  from t_writes_holding [OF assms(1) this, of "[data1, data2]"] obtain r1 where
    r1: "t_writes K [data1, data2] \<lparr>t_calls = 0, t_reads = [], t_drv = s\<rparr> = Inr r1" "holding n (lastn n greeting) [] r1"
    by (auto simp: assms(7))
  have "length (lastn n greeting) \<le> 255" using assms(5) by simp
  from t_read_holding [OF assms(1) t_seek_holding [OF r1(2)] this] obtain r2 where
    r2: "t_read K (t_seek K r1) = Inr r2" "holding n [] [(int (length (lastn n greeting)), lastn n greeting)] r2"
    by (auto simp: tw clean(1))
  from ring_check_holding [OF assms(1) r2(2) assms(5)] obtain r3 where
    r3: "ring_check K r2 = Inr r3" "holding n [] [(int (length (lastn n greeting)), lastn n greeting),
      (int (length (lastn n digits)), lastn n digits)] r3"
    unfolding assms(6) [symmetric] by (auto simp: tw clean(2))
  from ring_check_holding [OF assms(1) t_resize_holding [OF assms(1) r3(2)]] obtain r4 where
    r4: "ring_check K (t_resize K r3) = Inr r4" "t_reads r4 = [(int (length (lastn n greeting)), lastn n greeting),
      (int (length (lastn n digits)), lastn n digits), (int (length (lastn 54 digits)), lastn 54 digits)]"
    unfolding assms(6) [symmetric] by (auto simp: tw clean(2) holding_def)
  show ?thesis using r1(1) r2(1) r3(1) r4 by (simp add: test_main_def)
qed

text \<open>On the module as it is loaded by default, with 16 bytes.\<close>

definition quiet_kernel :: kernel where
  "quiet_kernel = \<lparr>k_intr = (\<lambda>_. False), k_from = copy_total, k_to = copy_total,
     k_strtoint = (\<lambda>_. Inr 54), k_malloc = kzalloc\<rparr>"

lemma test_prints_last_bytes_witness:
  "\<exists>r. test_main True quiet_kernel loaded = (0, Some r) \<and> map fst (t_reads r) = [16, 16, 54] \<and>
    snd (hd (t_reads r)) = bytes_of ''ng buffer world!''"
proof -
  have "smooth quiet_kernel" by (simp add: smooth_def quiet_kernel_def kmalloc_ok_def kzalloc_def)
  moreover have "lastn 16 (bytes_of data1 @ bytes_of data2) = bytes_of ''ng buffer world!''" by code_simp
  moreover have "length (lastn 16 (bytes_of data1 @ bytes_of data2)) = 16"
    "length (lastn 16 (concat (replicate 3 (bytes_of data3)))) = 16"
    "length (lastn 54 (concat (replicate 3 (bytes_of data3)))) = 54" by code_simp+
  ultimately show ?thesis
    using test_prints_last_bytes [of quiet_kernel loaded 16, OF _ _ _ _ _ refl refl] by auto
qed

end
