(* ===== verification/FileTree.thy ===== *)
theory FileTree
  imports Prelude
begin

text \<open>
  The window of 16_oop_gtk/main.c: the tree store that \<open>read_filenames_in_the_dir\<close> fills. What the
  file system answers is a parameter; the widgets around the store are calls of GTK.
\<close>

section \<open>The walk\<close>

record file_system =
  dir_open :: "string \<Rightarrow> string list option"   \<comment> \<open>the names that \<open>g_dir_read_name\<close> gives\<close>
  is_dir :: "string \<Rightarrow> bool"                   \<comment> \<open>\<open>g_file_test\<close>, which follows links\<close>
  build_filename :: "string \<Rightarrow> string \<Rightarrow> string"   \<comment> \<open>\<open>g_build_filename\<close>\<close>

text \<open>A row of the store with the rows below it.\<close>

datatype row = Row string "row list"

text \<open>
  The rows for the names of a directory. A directory that cannot be opened makes \<open>g_dir_open\<close> look at
  \<open>error\<close>, which has no value. \<open>None\<close> is a recursion that does not end.
\<close>

partial_function (option) read_names :: "file_system \<Rightarrow> string \<Rightarrow> string list \<Rightarrow> row list run" where
  "read_names fs path names =
     (case names of
        [] \<Rightarrow> Some (Inr [])
      | filename # rest \<Rightarrow>
          let full = build_filename fs path filename
          in Option.bind
               (if is_dir fs full
                then (case dir_open fs full of
                        None \<Rightarrow> Some (Inl Uninitialised)
                      | Some below \<Rightarrow> read_names fs full below)
                else Some (Inr []))
               (\<lambda>res. case res of
                  Inl e \<Rightarrow> Some (Inl e)
                | Inr rows \<Rightarrow>
                    Option.bind (read_names fs path rest) (\<lambda>res. case res of
                      Inl e \<Rightarrow> Some (Inl e)
                    | Inr others \<Rightarrow> Some (Inr (Row filename rows # others)))))"

declare read_names.simps [code]

definition read_filenames_in_the_dir :: "file_system \<Rightarrow> string \<Rightarrow> row list run" where
  "read_filenames_in_the_dir fs path =
     (case dir_open fs path of None \<Rightarrow> Some (Inl Uninitialised) | Some names \<Rightarrow> read_names fs path names)"

definition create_and_fill_model :: "file_system \<Rightarrow> row list run" where
  "create_and_fill_model fs = read_filenames_in_the_dir fs ''.''"

section \<open>The rows are the tree of the files\<close>

text \<open>A tree of files, and a file system that has it at a path.\<close>

datatype entry = File | Dir "(string \<times> entry) list"

fun stored :: "file_system \<Rightarrow> string \<Rightarrow> entry \<Rightarrow> bool" where
  "stored fs path File \<longleftrightarrow> \<not> is_dir fs path"
| "stored fs path (Dir es) \<longleftrightarrow> is_dir fs path \<and> dir_open fs path = Some (map fst es) \<and>
     (\<forall>(n, e) \<in> set es. stored fs (build_filename fs path n) e)"

fun rows_of :: "entry \<Rightarrow> row list" where
  "rows_of File = []"
| "rows_of (Dir es) = map (\<lambda>(n, e). Row n (rows_of e)) es"

lemma read_names_Nil [simp]: "read_names fs path [] = Some (Inr [])"
  by (simp add: read_names.simps)

lemma read_names_rows:
  assumes "\<forall>(n, e) \<in> set es. read_filenames_in_the_dir fs (build_filename fs path n) = Some (Inr (rows_of e)) \<or> e = File"
    and "\<forall>(n, e) \<in> set es. stored fs (build_filename fs path n) e"
  shows "read_names fs path (map fst es) = Some (Inr (map (\<lambda>(n, e). Row n (rows_of e)) es))"
  using assms
proof (induction es)
  case (Cons p es)
  obtain n e where p: "p = (n, e)" by (cases p)
  have rest: "read_names fs path (map fst es) = Some (Inr (map (\<lambda>(n, e). Row n (rows_of e)) es))"
    using Cons.prems by (intro Cons.IH) auto
  have st: "stored fs (build_filename fs path n) e" using Cons.prems(2) p by simp
  show ?case
  proof (cases e)
    case File
    then show ?thesis
      using st rest by (subst read_names.simps) (simp add: p Let_def)
  next
    case (Dir fs')
    then have "read_filenames_in_the_dir fs (build_filename fs path n) = Some (Inr (rows_of e))" "is_dir fs (build_filename fs path n)"
      "dir_open fs (build_filename fs path n) \<noteq> None"
      using Cons.prems(1) st p by auto
    then show ?thesis
      using rest by (subst read_names.simps) (auto simp: p Let_def read_filenames_in_the_dir_def)
  qed
qed simp

text \<open>
  On a file system that is a finite tree the walk ends, and the store has a row for every file and
  directory, below the row of its directory and in the order of its names.
\<close>

lemma walk_shows_tree:
  "stored fs path (Dir es) \<Longrightarrow> read_filenames_in_the_dir fs path = Some (Inr (rows_of (Dir es)))"
proof -
  have "stored fs path e \<Longrightarrow> e = File \<or> read_filenames_in_the_dir fs path = Some (Inr (rows_of e))" for e
  proof (induction e arbitrary: path)
    case (Dir es)
    have "read_filenames_in_the_dir fs (build_filename fs path n) = Some (Inr (rows_of e)) \<or> e = File"
      if "(n, e) \<in> set es" for n e
    proof -
      have "stored fs (build_filename fs path n) e" using Dir.prems that by auto
      then show ?thesis using Dir.IH [OF that] by auto
    qed
    then have "read_names fs path (map fst es) = Some (Inr (map (\<lambda>(n, e). Row n (rows_of e)) es))"
      using Dir.prems by (intro read_names_rows) auto
    then show ?case using Dir.prems by (simp add: read_filenames_in_the_dir_def)
  qed simp
  then show "stored fs path (Dir es) \<Longrightarrow> read_filenames_in_the_dir fs path = Some (Inr (rows_of (Dir es)))"
    by (metis entry.distinct(1))
qed

lemma walk_shows_tree_example:
  "create_and_fill_model
    \<lparr>dir_open = (\<lambda>p. if p = ''.'' then Some [''a'', ''b''] else if p = ''./b'' then Some [''c''] else None),
     is_dir = (\<lambda>p. p = ''.'' \<or> p = ''./b''),
     build_filename = (\<lambda>path filename. path @ ''/'' @ filename)\<rparr> = Some (Inr [Row ''a'' [], Row ''b'' [Row ''c'' []]])"
  by code_simp

section \<open>Other file systems\<close>

text \<open>
  The walk itself has no limit: where every name is again a directory it does not end. A link to a
  directory above it leads there, up to the limit that the file system sets on links.
\<close>

definition looped :: file_system where
  "looped = \<lparr>dir_open = (\<lambda>_. Some [''link'']), is_dir = (\<lambda>_. True),
     build_filename = (\<lambda>path filename. path @ ''/'' @ filename)\<rparr>"

lemma loop_does_not_end: "create_and_fill_model looped = None"
proof -
  have "read_names fs path names = Some res \<Longrightarrow> fs = looped \<longrightarrow> names \<noteq> [''link'']" for fs path names res
  proof (induction fs path names res rule: read_names.raw_induct [rotated, consumes 1, case_names round])
    case (round walk fs path names res)
    show ?case
    proof
      assume fs: "fs = looped"
      show "names \<noteq> [''link'']"
      proof
        assume "names = [''link'']"
        then obtain x where "walk looped (build_filename looped path ''link'') [''link''] = Some x"
          using round.hyps fs by (auto simp: looped_def Let_def split: bind_splits)
        then show False using round.IH by blast
      qed
    qed
  qed
  then have "read_names looped ''.'' [''link''] = None" by (metis not_None_eq)
  then show ?thesis by (simp add: create_and_fill_model_def read_filenames_in_the_dir_def looped_def)
qed

text \<open>A directory that may not be read.\<close>

lemma unreadable_directory:
  "create_and_fill_model \<lparr>dir_open = (\<lambda>p. if p = ''.'' then Some [''secret''] else None), is_dir = (\<lambda>_. True),
     build_filename = (\<lambda>path filename. path @ ''/'' @ filename)\<rparr> =
    Some (Inl Uninitialised)"
  by code_simp

end
