(* ===== verification/Cube.thy ===== *)
theory Cube
  imports DoubleNat
begin

text \<open>
  The spinning cube 30_cube/main.c: the handlers that GLUT calls, with the calls they make to OpenGL and
  GLUT recorded. Numbers of type \<open>float\<close> are doubles rounded to binary32 after every operation; two
  roundings in a row give the same as one for sums, differences and quotients of such numbers.
\<close>

section \<open>Floats\<close>

fun to_float :: "double \<Rightarrow> double" where
  "to_float (Fin s m e) =
     (let k = max (-149) (e + bit_len m - 24); q = nearest m (2 ^ nat (k - e))
      in if 128 < bit_len q + k then Infty s else rounded2 s q 1 k)"
| "to_float x = x"

definition float_lit :: "int \<Rightarrow> int \<Rightarrow> double" where
  "float_lit n d = to_float (d_lit n d)"

definition of_int32 :: "int \<Rightarrow> double" where
  "of_int32 i = to_float (if i < 0 then - d_lit (- i) 1 else d_lit i 1)"

section \<open>State\<close>

record cube =
  WindW :: int
  WindH :: int
  angle :: double
  window_title :: "string option"
  timers :: nat                    \<comment> \<open>calls of \<open>glutTimerFunc\<close> that have not come back\<close>

definition cube_static :: cube where
  "cube_static = \<lparr>WindW = 800, WindH = 600, angle = float_lit 0 1, window_title = None, timers = 0\<rparr>"

datatype gl =
    Viewport int int int int
  | ProjectionMatrix
  | ModelviewMatrix
  | LoadIdentity
  | Perspective double double double double
  | ClearBuffers
  | EnableDepthTest
  | LookAt "double list"
  | Rotate double double double double
  | Color double double double
  | SolidCube double
  | WireCube double
  | DepthMask bool
  | SwapBuffers
  | PostRedisplay
  | TimerFunc int
  | InitGlut
  | WindowSize int int
  | DisplayMode
  | CreateWindow string
  | Handlers
  | ClearColor double double double double
  | MainLoop

section \<open>The handlers\<close>

definition Reshape :: "int \<Rightarrow> int \<Rightarrow> cube \<Rightarrow> gl list \<times> cube" where
  "Reshape width height s =
     ([Viewport 0 0 width height, ProjectionMatrix, LoadIdentity,
       Perspective (float_lit 45 1) (to_float (of_int32 width / of_int32 height)) (float_lit 1 10) (float_lit 100 1),
       ModelviewMatrix],
      s\<lparr>WindW := width, WindH := height\<rparr>)"

definition Draw :: "cube \<Rightarrow> gl list" where
  "Draw s =
     [ClearBuffers, EnableDepthTest, LoadIdentity, LookAt [0, 0, d_lit 5 1, 0, 0, 0, 0, 1, 0],
      Rotate (angle s) 1 1 0, Color (float_lit 2 10) (float_lit 6 10) (float_lit 9 10), SolidCube (d_lit 18 10),
      DepthMask False, Color (float_lit 3 10) (float_lit 3 10) (float_lit 3 10), WireCube (d_lit 18 10),
      DepthMask True, SwapBuffers]"

text \<open>The exit status, if the handler exits.\<close>

definition Keyboard :: "nat \<Rightarrow> int option" where
  "Keyboard key = (if key = 27 then Some 0 else None)"

definition Timer :: "cube \<Rightarrow> gl list \<times> cube" where
  "Timer s =
     (let a = to_float (angle s + float_lit 2 1);
          a = (if float_lit 360 1 \<le> a then to_float (a - float_lit 360 1) else a)
      in ([PostRedisplay, TimerFunc 40], s\<lparr>angle := a, timers := Suc (timers s)\<rparr>))"

text \<open>\<open>main\<close>: the exit status when \<open>atexit\<close> or \<open>malloc\<close> fails, or the state and calls up to the loop.\<close>

definition title_bytes :: string where
  "title_bytes = map char_of
     [208, 146, 209, 128, 208, 176, 209, 137, 208, 176, 209, 142, 209, 137, 208, 184, 208, 185, 209, 129,
      209, 143, 32, 208, 186, 209, 131, 208, 177 :: nat]"

definition cube_main :: "bool \<Rightarrow> bool \<Rightarrow> int + gl list \<times> cube" where
  "cube_main atexit_ok malloc_ok =
     (if \<not> atexit_ok then Inl 1
      else if \<not> malloc_ok then Inl 1
      else
        let s = cube_static\<lparr>window_title := Some (take 31 title_bytes)\<rparr>
        in Inr ([InitGlut, WindowSize (WindW s) (WindH s), DisplayMode, CreateWindow (take 31 title_bytes), Handlers,
                 TimerFunc 40, ClearColor (float_lit 95 100) (float_lit 95 100) (float_lit 95 100) (float_lit 1 1),
                 MainLoop], s\<lparr>timers := Suc (timers s)\<rparr>))"

text \<open>The loop of GLUT: any handler in any order, the timer when one is armed; a key may exit.\<close>

inductive glut_step :: "cube \<Rightarrow> cube \<Rightarrow> bool" where
  reshaped: "glut_step s (snd (Reshape width height s))"
| drawn: "glut_step s s"
| key: "Keyboard k = None \<Longrightarrow> glut_step s s"
| ticked: "timers s = Suc n \<Longrightarrow> glut_step s (snd (Timer (s\<lparr>timers := n\<rparr>)))"

section \<open>Natural numbers are exact floats\<close>

lemma powi_less_iff: "2 powi i < (2 :: real) powi j \<longleftrightarrow> i < j"
  using powi_le_iff [of j i] by linarith

lemma to_float_nat:
  assumes "n < 2 ^ 24"
  shows "to_float (d_nat n) = d_nat n"
proof (cases "n = 0")
  case True
  then show ?thesis by (simp add: d_lit_def rounded_def nearest_def bit_len.simps rounded2_0 Let_def)
next
  case False
  obtain m e where me: "d_nat n = Fin False m e" "normal (Fin False m e)" "of_int m * 2 powi e = real n"
    by (rule d_nat_Fin [of n]) (use assms in simp)
  have m: "0 < m" using me(2,3) False by (cases "m = 0") auto
  define L where "L = bit_len m"
  have L: "1 \<le> L" "(2 :: real) powi (L - 1) \<le> of_int m" "of_int m < (2 :: real) powi L"
    using bit_len_bounds [OF m] by (simp_all add: L_def)
  have "2 powi (L - 1) * 2 powi e \<le> real n" "real n < 2 powi L * 2 powi e"
    unfolding me(3) [symmetric] using L(2,3) by simp_all
  then have n: "(2 :: real) powi (L - 1 + e) \<le> real n" "real n < 2 powi (L + e)" by (simp_all add: powi_split)
  have "real n < 2 powi 24" "2 powi 0 \<le> real n" using assms False by simp_all
  then have "(2 :: real) powi (L - 1 + e) < 2 powi 24" "(2 :: real) powi 0 < 2 powi (L + e)"
    using n by linarith+
  then have e: "L + e \<le> 24" "1 \<le> L + e" unfolding powi_less_iff by linarith+
  define k where "k = max (-149) (e + L - 24)"
  have k: "k = e + L - 24" "-23 \<le> k" "k \<le> 0" using e by (simp_all add: k_def)
  have ke: "e \<le> k"
  proof (cases "e = -1074")
    case False
    then have "2 ^ 52 \<le> m" using me(2) by simp
    then have "(2 :: real) powi 52 \<le> of_int m" using powi_nat [of 52] of_int_le_iff [of "2 ^ 52" m, where 'a = real] by simp
    then have "(2 :: real) powi 52 < 2 powi L" using L(3) by linarith
    then have "52 < L" by (simp only: powi_less_iff)
    then show ?thesis using k(1) by simp
  qed (simp add: k_def)
  define N where "N = int n * 2 ^ nat (- k)"
  have p: "(2 :: real) ^ nat (- k) * 2 powi k = 1"
    using k(3) powi_nat [of "- k"] powi_split [of "- k" k] by simp
  then have Nk: "of_int N * (2 :: real) powi k = real n" by (simp add: N_def mult.assoc)
  have "of_int m * 2 powi e = of_int N * 2 ^ nat (k - e) * (2 :: real) powi e"
    using Nk me(3) ke powi_nat [of "k - e"] powi_split [of "k - e" e] by (simp add: mult.assoc)
  then have "of_int m = (of_int (N * 2 ^ nat (k - e)) :: real)" by simp
  then have mN: "m = N * 2 ^ nat (k - e)" by (simp only: of_int_eq_iff)
  have q: "nearest m (2 ^ nat (k - e)) = N" by (simp add: nearest_def mN Let_def)
  have N: "0 < N" using False by (simp add: N_def)
  have "N < 2 ^ 24 * 2 ^ 23"
    unfolding N_def using assms k(2) by (intro mult_less_le_imp_less power_increasing) simp_all
  then have "of_int N < (of_int (2 ^ 47) :: real)" by (simp only: of_int_less_iff) simp
  then have "of_int N < (2 :: real) powi 47" by simp
  then have "(2 :: real) powi (bit_len N - 1) < 2 powi 47" using bit_len_bounds [OF N] by linarith
  then have "bit_len N + k \<le> 128" using k(3) unfolding powi_less_iff by linarith
  then show ?thesis
    using rounded2_nat [OF N Nk] assms q by (simp add: me(1) flip: L_def k_def)
qed

lemma float_lit_nat: "n < 2 ^ 24 \<Longrightarrow> float_lit (int n) 1 = d_nat n"
  by (simp add: float_lit_def to_float_nat)

lemma d_nat_le: "a < 2 ^ 53 \<Longrightarrow> b < 2 ^ 53 \<Longrightarrow> d_nat a \<le> d_nat b \<longleftrightarrow> a \<le> b"
  by (rule d_nat_Fin [of a], assumption, rule d_nat_Fin [of b], assumption)
    (simp only: le_Fin, simp add: with_sign_def)

lemma full_turn: "d_nat 360 - d_nat 360 = d_nat 0"
  by code_simp

section \<open>The cube turns round\<close>

text \<open>The angle after \<open>k\<close> ticks: two degrees a tick, and back to 0 at a full turn.\<close>

definition angle_at :: "nat \<Rightarrow> double" where
  "angle_at k = d_nat (2 * (k mod 180))"

lemma Timer_angle:
  assumes "angle s = angle_at k"
  shows "angle (snd (Timer s)) = angle_at (Suc k)"
proof -
  define r where "r = k mod 180"
  have r: "r < 180" by (simp add: r_def)
  have lits: "float_lit 2 1 = d_nat 2" "float_lit 360 1 = d_nat 360"
    using float_lit_nat [of 2] float_lit_nat [of 360] by simp_all
  have sum: "to_float (angle s + d_nat 2) = d_nat (2 * r + 2)"
    using r d_nat_plus [of "2 * r" 2] to_float_nat [of "2 * r + 2"]
    by (simp add: assms angle_at_def lits flip: r_def)
  have le: "d_nat 360 \<le> d_nat (2 * r + 2) \<longleftrightarrow> r = 179"
    using r d_nat_le [of 360 "2 * r + 2"] by (simp add: lits) linarith
  have new: "angle (snd (Timer s)) = (if r = 179 then to_float (d_nat (2 * r + 2) - d_nat 360) else d_nat (2 * r + 2))"
    unfolding Timer_def Let_def snd_conv lits sum le by simp
  show ?thesis
  proof (cases "r = 179")
    case True
    then have "Suc k mod 180 = 0" by (simp add: r_def mod_Suc)
    moreover have "d_nat (2 * r + 2) - d_nat 360 = d_nat 0" using full_turn True by simp
    ultimately show ?thesis
      using to_float_nat [of 0] True new by (simp only: angle_at_def if_True) simp
  next
    case False
    then have "Suc k mod 180 = Suc r" by (simp add: r_def mod_Suc)
    then show ?thesis using False new by (simp add: angle_at_def)
  qed
qed

text \<open>What holds of every state of the program: a whole even angle, one armed timer, a title.\<close>

definition cube_ok :: "cube \<Rightarrow> bool" where
  "cube_ok s \<longleftrightarrow> (\<exists>k. angle s = angle_at k) \<and> timers s = 1 \<and> window_title s = Some title_bytes"

definition cube_start :: "cube \<Rightarrow> bool" where
  "cube_start s \<longleftrightarrow> (\<exists>calls. cube_main True True = Inr (calls, s))"

interpretation spinning: invariant_system cube_start glut_step cube_ok
proof unfold_locales
  fix s assume "cube_start s"
  moreover have "float_lit 0 1 = angle_at 0" using float_lit_nat [of 0] by (simp add: angle_at_def)
  ultimately show "cube_ok s"
    by (auto simp: cube_start_def cube_main_def cube_static_def cube_ok_def title_bytes_def Let_def)
next
  fix s t assume ok: "cube_ok s" and "glut_step s t"
  from this(2) show "cube_ok t"
  proof cases
    case (ticked n)
    obtain k where "angle (s\<lparr>timers := n\<rparr>) = angle_at k" using ok by (auto simp: cube_ok_def)
    then have "angle t = angle_at (Suc k)" using Timer_angle ticked(1) by blast
    then show ?thesis using ok ticked by (auto simp: cube_ok_def Timer_def Let_def)
  qed (use ok in \<open>auto simp: cube_ok_def Reshape_def\<close>)
qed

text \<open>
  Whatever events come, the angle that the cube is drawn with is an even number of degrees from 0 to
  358, without any rounding error, exactly one timer is armed, and every tick turns the cube by two
  degrees; after 180 ticks it is back.
\<close>

lemma cube_turns:
  assumes "reach cube_start glut_step s"
  shows "\<exists>k < 180. angle s = d_nat (2 * k) \<and> timers s = 1 \<and>
    angle (snd (Timer s)) = d_nat (2 * (Suc k mod 180)) \<and> Rotate (d_nat (2 * k)) 1 1 0 \<in> set (Draw s)"
proof -
  obtain k where k: "angle s = angle_at k" "timers s = 1"
    using spinning.reach_inv [OF assms] by (auto simp: cube_ok_def)
  then show ?thesis
    using Timer_angle [OF k(1)]
    by (intro exI [of _ "k mod 180"]) (simp add: angle_at_def Draw_def mod_Suc_eq)
qed

text \<open>A window without height: the quotient of the sides is infinite, and that of two zeros no number.\<close>

lemma flat_window:
  "to_float (of_int32 800 / of_int32 0) = Infty False" "to_float (of_int32 0 / of_int32 0) = NaN"
  by code_simp+

end
