(* ===== verification/Ftrace.thy ===== *)
theory Ftrace
  imports CString
begin

text \<open>
  The tracing exercise 26_ftrace/main.c: five system calls with what is printed between them. What the
  kernel answers is a parameter.
\<close>

section \<open>The program\<close>

record answers =
  pid :: nat
  fd :: int                            \<comment> \<open>\<open>open\<close>, negative when it fails\<close>
  wrote :: int                         \<comment> \<open>\<open>write\<close>, -1 when it fails\<close>
  stat :: "(nat \<times> nat) option"         \<comment> \<open>size and mode, when \<open>fstat\<close> succeeds\<close>
  unlinked :: bool

datatype event =
    Print string
  | Perror string
  | GetChar
  | Openat string
  | WriteTo int string
  | Newfstat int
  | CloseFd int
  | Unlink string

definition nl :: string where "nl = [CHR 0x0A]"

text \<open>The conversion \<open>%o\<close>.\<close>

fun oct :: "nat \<Rightarrow> string" where
  "oct n = (if n < 8 then [char_of (48 + n)] else oct (n div 8) @ [char_of (48 + n mod 8)])"

declare oct.simps [simp del]

definition test_path :: string where "test_path = ''/tmp/test_ftrace.txt''"

definition demo_text :: string where "demo_text = ''Hello from ftrace syscall demo!'' @ nl"

text \<open>The events in their order and the exit status.\<close>

definition ftrace_main :: "answers \<Rightarrow> event list \<times> int" where
  "ftrace_main k =
     (let start = [Print (''=== FTRACE SYSCALL DEMO ==='' @ nl), Print (''PID: '' @ dec (pid k) @ nl),
            Print (nl @ ''COPY THE PID NUMBER ABOVE!'' @ nl),
            Print (''Set up ftrace in another terminal, then press Enter...'' @ nl),
            Print ''Waiting for Enter: '', GetChar,
            Print (nl @ ''=== SYSCALL OPERATIONS START ==='' @ nl),
            Print (''1. Opening file (openat syscall)...'' @ nl), Openat test_path]
      in if fd k < 0 then (start @ [Perror ''open failed''], 1)
         else
           (start @
            [Print (''   File opened, fd = '' @ dec_int (fd k) @ nl),
             Print (''2. Writing to file (write syscall)...'' @ nl), WriteTo (fd k) demo_text,
             Print (''   Written '' @ dec_int (wrote k) @ '' bytes'' @ nl),
             Print (''3. Getting file info (newfstat syscall)...'' @ nl), Newfstat (fd k)] @
            (case stat k of
               None \<Rightarrow> []
             | Some (st_size, st_mode) \<Rightarrow>
                 [Print (''   File size: '' @ dec st_size @ '' bytes'' @ nl),
                  Print (''   File permissions: '' @ oct (st_mode mod 512) @ nl)]) @
            [Print (''4. Closing file (close syscall)...'' @ nl), CloseFd (fd k), Print (''   File closed'' @ nl),
             Print (''5. Deleting file (unlink syscall)...'' @ nl), Unlink test_path,
             (if unlinked k then Print (''   File deleted'' @ nl) else Perror ''unlink failed''),
             Print (nl @ ''=== SYSCALL OPERATIONS END ==='' @ nl),
             Print (''Check /tmp/ftrace_output.txt for syscall traces!'' @ nl)], 0))"

section \<open>What is there to trace\<close>

definition is_call :: "event \<Rightarrow> bool" where
  "is_call e = (case e of Openat _ \<Rightarrow> True | WriteTo _ _ \<Rightarrow> True | Newfstat _ \<Rightarrow> True | CloseFd _ \<Rightarrow> True
     | Unlink _ \<Rightarrow> True | _ \<Rightarrow> False)"

text \<open>The five calls come in their order on one descriptor, whatever the later ones answer.\<close>

lemma ftrace_calls:
  "filter is_call (fst (ftrace_main k)) =
     (if fd k < 0 then [Openat test_path]
      else [Openat test_path, WriteTo (fd k) demo_text, Newfstat (fd k), CloseFd (fd k), Unlink test_path])"
  "snd (ftrace_main k) = (if fd k < 0 then 1 else 0)"
  by (auto simp: ftrace_main_def is_call_def Let_def split: option.split)

text \<open>A mode of a regular file, and a failed write, which is reported as a number.\<close>

lemma ftrace_numbers: "oct (33188 mod 512) = ''644''" "dec_int (- 1) = ''-1''"
  by (simp_all add: oct.simps dec_int_def dec.simps) (code_simp+)

lemma ftrace_failed_write:
  "\<lbrakk>0 \<le> fd k; wrote k = -1\<rbrakk> \<Longrightarrow> Print (''   Written -1 bytes'' @ nl) \<in> set (fst (ftrace_main k))"
  by (simp add: ftrace_main_def Let_def ftrace_numbers)

end
