(* ===== verification/Spec2Isabelle.thy ===== *)
theory Spec2Isabelle
  imports Ringbuf WordMain Crc32 ZipMain CodepageMain SampleRun LogReader HttpServer Game Telnet
    Daemon Dbstat LinkedList Weather WaveRun WaveStart WaveOutput RingbufTest FileTree Cube Ftrace
begin

text \<open>
  Verification of the C programs of this repository.

  The repository is a collection of programs, one per directory of \<open>src/\<close>, that link no common code.
  Within a program the parts interact as follows: the word counter calls the hash map; a logging
  call hands its message to the queue and the writer thread; the statistics program runs worker
  threads that fill tables of their own and merges them; the HTTP server's handlers change a table
  of connections from one event loop; the driver's file operations and its module parameter share
  one buffer under a mutex. Each program has one or more theories, and each theory follows its
  source from top to bottom: data, operations, \<open>main\<close>, then the lemmas.

  Conventions. The results of C functions are values: \<open>'a cres\<close> is \<open>Inl\<close> of a fault (an access
  outside an object, a null or freed pointer, an uninitialised read, a failed assertion) or \<open>Inr\<close> of
  the result; \<open>'a run\<close> is \<open>None\<close> where the code does not return. Integers whose width matters are
  words; sizes and indices that cannot wrap in a reachable state are natural numbers. What the
  kernel, the network and libraries answer is an argument of the model, as is what \<open>malloc\<close> does
  where the code goes on after a failure. Strings are the characters before the closing NUL.
  Messages for the terminal that are not ASCII are left out or are constructors.

  The theories.

  Prelude: the integer types, the faults with their binds, and two interfaces as locales. \<open>tally\<close> is
  a map that accumulates weights per key; it is interpreted on the map of the word counter and on
  both tables of the log statistics. \<open>invariant_system\<close> is a step relation with an inductive
  invariant; it is interpreted on the driver, the logger, the queue, the thread pool, the server's
  event loop and the game. CString: what the programs use of the C library on strings (searching,
  \<open>strtol\<close>, decimal printing, \<open>fgets\<close>, \<open>getopt\<close>), with the facts that numbers read back.

  Ringbuf (27_driver/ringbuf_driver.c): \<open>ringbuf\<close> and its operations, \<open>dev_read\<close>, \<open>dev_write\<close>, the
  resizing through the module parameter, loading and unloading. The invariant of every reachable
  state, the refinement of a stream that keeps the last bytes written (locale \<open>lossy_stream\<close>), and
  loading as all or nothing. RingbufTest (27_driver/test_ringbuf.c) is the test program run against
  this model: what it prints of the buffer, before and after the resize.

  Hashmap and WordCount (08_search_sort_homework/hashmap_open.c): probing, insertion with growth,
  removal, lookup; the float load factor as a rounded dyadic number; the scanner, the counting and
  the output in descending order. Fuel bounds the nesting of \<open>raw_put\<close> and \<open>rehashUp\<close>; a
  fuel of 2 is shown to be enough, since a map that has just grown takes all its entries. Lookups after insertions
  and removals, the counts of a text of at most \<open>2 ^ 29\<close> words, the lines printed.

  ReadFile: \<open>read_file\<close>, which three programs share word for word, with every answer of stdio and the
  allocator; the buffer is the file, or a call failed. ZipMain, CodepageMain and WordMain put it
  together with their programs up to \<open>main\<close>.

  Crc32 (16_crc32/main.c): the table and \<open>main\<close> over mapped chunks, against division by the
  polynomial bit by bit; damage within four consecutive bytes is detected. Zip (03_types_homework/main.c): the
  search for the end record, both headers, the listing; no read leaves the file, a written archive
  lists its members. Codepage (04_types_contd/main.c): three code pages to UTF-8 and
  back, and what the program does at the end of a file.

  LoggerQueue and Logger (12_error_handling/logger.c): the linked queue on a heap with producers,
  writer and shutdown as a step relation; initialisation, levels, routing, formatting. The messages
  written are those enqueued in their order, a shutdown writes them all, and each level goes
  where the configuration sends it. SampleApp (12_error_handling/sample_app.c) is a client with four
  threads on both models, a queue and a writer per level; SampleRun shows what it writes whatever
  order the threads take, and that it always comes to its end.

  LogReader (17_log_reader/main.c): parsing of a line, percent decoding, the two tables, the pool of
  threads as a step relation over all interleavings, merging and the report. Totals are exact
  whatever the interleaving, every run of the pool ends (a measure of the work left), the report
  has the ten largest entries, and lines and encoded names read back.

  HttpServer (23_http_server/main.c): the request parser, path checks, the answers, streaming with
  partial writes, connections and events as a step relation. A request for a file is answered with
  its bytes, no answer leaves the root directory, buffers stay in bounds.

  Game (35_game/main.c): positions, winner, clicks, menu and drawing; fair positions only, every
  game ends, the picture shows the board. Telnet (21_telnet/main.c): the text buffer and the
  dialogue. Daemon (15_daemon): the configuration from parser events, the PID file, the server loop
  and \<open>main\<close> on a small file system; a second instance is refused. Dbstat (29_dbstat/main.c): only
  plain names reach a query, the statistics are those of the numeric values, and on natural numbers
  they are exact (theories Double, DoubleNat and Strtod, the last \<open>strtod\<close> of the C library).
  LinkedList (09_assembler_homework/main.c): push, map, filter and delete on an explicit store; no
  freed cell is touched, all cells are freed once.

  Weather (08_libraries_homework/main.c): the growing buffer under the callback of libcurl, the
  buffers of fixed size, the fields printed. The parser gets exactly the bytes delivered, and only a
  long location leaves the bounds; libcurl and json-c are parameters.

  The wave model point_wave_model: Double is IEEE binary64, executable, with what the proofs need of
  its rounding; Spectrum (spectrum.c), SourceTerms (source_terms.c) and WaveModel (integrator.c,
  netcdf_output.c, point_wave_model.c) are stated for any type with such operations. WaveFacts holds
  the locale \<open>signs\<close>, the laws of arithmetic that the signs of the source terms rest on,
  interpreted on \<open>double\<close> and on \<open>real\<close>. WaveRun: on \<open>double\<close> the source terms have the
  right signs, every spectrum written is good, and the run ends although the time is rounded; a
  number that is not below zero may there be a NaN. WaveStart: in exact arithmetic the start has
  the height asked for. WaveOutput: the calls of NetCDF stop at the first failure. The functions of
  the mathematical library are parameters; the accuracy of the sums is not studied.

  Smaller programs. FileTree (16_oop_gtk/main.c): the walk that fills the tree store; on a finite tree
  of files it ends and the store is that tree. Cube (30_cube/main.c): the handlers and the float angle,
  which stays an exact even number of degrees below 360. Ftrace (26_ftrace/main.c): five system calls
  in their order.

  Where a program fails to do what it means to, a lemma shows it on a concrete input; these
  lemmas stand at the end of their component.

  Not modelled: what OpenGL, GTK and Allegro draw; the widgets of 16_oop_gtk (calls of GTK with no
  logic of their own); the failures of memory where a program does nothing but end; 13_curl, 14_leaks
  and 16_oop_gstreamer (no C source).
\<close>

end
